(* ===== verification/Prelude.thy ===== *)
theory Prelude
  imports Main "HOL-Library.Word"
begin

text \<open>
  The vocabulary the component theories share: machine words under their C
  names, the result type of fallible C code, checked access to arrays and to
  blocks of bytes, and the big-endian byte encoding of integers.

  C code can stop in two ways that the model keeps apart from an ordinary
  return value.  A failed \<open>ASSERT\<close> and a message of level \<open>M_FATAL\<close> end the
  process; an access outside of an object, a null pointer dereference and the
  overflow of a signed integer are undefined.  Every function that can do one
  of these returns a \<open>cres\<close>, so that memory safety is a theorem
  of the form "the result is \<open>Inr\<close>" and not an assumption.
\<close>

unbundle bit_operations_syntax

named_theorems cres_simps \<open>evaluation of fallible code\<close>
named_theorems mem_simps \<open>reads and writes of byte blocks\<close>

type_synonym u8 = "8 word"
type_synonym u16 = "16 word"
type_synonym u32 = "32 word"
type_synonym u64 = "64 word"


lemma unat_lt: "unat (w :: 'a::len word) < 2 ^ LENGTH('a)"
  by (rule unsigned_less)


lemma unat_pow2: "j < LENGTH('a) \<Longrightarrow> unat (2 ^ j :: 'a::len word) = 2 ^ j"
proof -
  assume j: "j < LENGTH('a)"
  have "unat (word_of_nat (2 ^ j) :: 'a word) = 2 ^ j mod 2 ^ LENGTH('a)"
    by (simp only: unat_of_nat)
  also have "\<dots> = 2 ^ j" using j by simp
  finally show ?thesis by (simp only: of_nat_power of_nat_numeral)
qed

lemma take_append_take: "take n (xs @ take n ys) = take n (xs @ ys)"
  by simp


section \<open>Fallible code\<close>

datatype cfault =
    Oob          \<comment> \<open>access outside of an allocated object\<close>
  | Null_deref   \<comment> \<open>access through a null pointer\<close>
  | Overflow     \<comment> \<open>signed integer overflow\<close>
  | Div_zero     \<comment> \<open>integer division by zero\<close>
  | Assert_fail  \<comment> \<open>a failed \<open>ASSERT\<close>: the process exits\<close>
  | Fatal        \<comment> \<open>\<open>msg (M_FATAL, ...)\<close>: the process exits\<close>

type_synonym 'a cres = "cfault + 'a"

definition bindE :: "'a cres \<Rightarrow> ('a \<Rightarrow> 'b cres) \<Rightarrow> 'b cres" where
  "bindE m f = (case m of Inl e \<Rightarrow> Inl e | Inr x \<Rightarrow> f x)"

definition c_assert :: "bool \<Rightarrow> unit cres" where
  "c_assert p = (if p then Inr () else Inl Assert_fail)"

lemma bindE_Inl [simp, cres_simps]: "bindE (Inl e) f = Inl e"
  by (simp add: bindE_def)

lemma bindE_Inr [simp, cres_simps]: "bindE (Inr x) f = f x"
  by (simp add: bindE_def)

lemma bindE_eq_Inr: "bindE m f = Inr y \<longleftrightarrow> (\<exists>x. m = Inr x \<and> f x = Inr y)"
  by (cases m) auto

lemma bindE_InrE [elim]:
  assumes "bindE m f = Inr y"
  obtains x where "m = Inr x" and "f x = Inr y"
  using assms by (auto simp: bindE_eq_Inr)

lemma bindE_assoc: "bindE (bindE m f) g = bindE m (\<lambda>x. bindE (f x) g)"
  by (cases m) auto

lemma bindE_cong [fundef_cong]:
  "m = m' \<Longrightarrow> (\<And>x. m' = Inr x \<Longrightarrow> f x = f' x) \<Longrightarrow> bindE m f = bindE m' f'"
  by (cases m') auto

lemma c_assert_True [simp, cres_simps]: "c_assert True = Inr ()"
  by (simp add: c_assert_def)

lemma c_assert_False [simp, cres_simps]: "c_assert False = Inl Assert_fail"
  by (simp add: c_assert_def)

lemma c_assert_eq_Inr [simp]: "c_assert p = Inr u \<longleftrightarrow> p"
  by (simp add: c_assert_def)


section \<open>C integers\<close>

text \<open>
  Values of C type \<open>int\<close> and \<open>time_t\<close> are HOL integers; where
  an overflow of \<open>int\<close> is within reach the computation goes through
  \<open>i32\<close>.  C division and remainder truncate towards zero.
\<close>

abbreviation (input) INT_MAX :: int where "INT_MAX \<equiv> 2147483647"
abbreviation (input) INT_MIN :: int where "INT_MIN \<equiv> - 2147483648"

definition i32 :: "int \<Rightarrow> int cres" where
  "i32 x = (if INT_MIN \<le> x \<and> x \<le> INT_MAX then Inr x else Inl Overflow)"

lemma i32_Inr [simp]: "INT_MIN \<le> x \<Longrightarrow> x \<le> INT_MAX \<Longrightarrow> i32 x = Inr x"
  by (simp add: i32_def)

lemma i32_eq_Inr: "i32 x = Inr y \<longleftrightarrow> INT_MIN \<le> x \<and> x \<le> INT_MAX \<and> y = x"
  by (auto simp: i32_def)

text \<open>
  The conversion of a wider integer to \<open>int\<close> keeps the low 32 bits, as all
  supported compilers do.
\<close>

definition c_int :: "int \<Rightarrow> int" where
  "c_int x = sint (word_of_int x :: u32)"

lemma c_int_id [simp]: "INT_MIN \<le> x \<Longrightarrow> x \<le> INT_MAX \<Longrightarrow> c_int x = x"
  by (simp add: c_int_def sint_sbintrunc' signed_take_bit_int_eq_self)

definition c_div :: "int \<Rightarrow> int \<Rightarrow> int cres" where
  "c_div a b = (if b = 0 then Inl Div_zero else Inr (sgn a * sgn b * (\<bar>a\<bar> div \<bar>b\<bar>)))"

definition c_mod :: "int \<Rightarrow> int \<Rightarrow> int cres" where
  "c_mod a b = (if b = 0 then Inl Div_zero else Inr (sgn a * (\<bar>a\<bar> mod \<bar>b\<bar>)))"

lemma c_div_nonneg [simp]: "0 \<le> a \<Longrightarrow> 0 < b \<Longrightarrow> c_div a b = Inr (a div b)"
  by (cases "a = 0") (simp_all add: c_div_def)

lemma c_mod_nonneg [simp]: "0 \<le> a \<Longrightarrow> 0 < b \<Longrightarrow> c_mod a b = Inr (a mod b)"
  by (cases "a = 0") (simp_all add: c_mod_def)


section \<open>Arrays\<close>

definition arr_get :: "'a list \<Rightarrow> int \<Rightarrow> 'a cres" where
  "arr_get xs i = (if 0 \<le> i \<and> i < int (length xs) then Inr (xs ! nat i) else Inl Oob)"

definition arr_set :: "'a list \<Rightarrow> int \<Rightarrow> 'a \<Rightarrow> 'a list cres" where
  "arr_set xs i v = (if 0 \<le> i \<and> i < int (length xs) then Inr (xs[nat i := v]) else Inl Oob)"

lemma arr_get_Inr [simp]: "0 \<le> i \<Longrightarrow> i < int (length xs) \<Longrightarrow> arr_get xs i = Inr (xs ! nat i)"
  by (simp add: arr_get_def)

lemma arr_set_Inr [simp]:
  "0 \<le> i \<Longrightarrow> i < int (length xs) \<Longrightarrow> arr_set xs i v = Inr (xs[nat i := v])"
  by (simp add: arr_set_def)

lemma arr_get_eq_Inr: "arr_get xs i = Inr v \<longleftrightarrow> 0 \<le> i \<and> i < int (length xs) \<and> v = xs ! nat i"
  by (auto simp: arr_get_def)

lemma arr_set_eq_Inr:
  "arr_set xs i v = Inr ys \<longleftrightarrow> 0 \<le> i \<and> i < int (length xs) \<and> ys = xs[nat i := v]"
  by (auto simp: arr_set_def)


section \<open>Blocks of bytes\<close>

text \<open>
  A pointer to an allocated block is \<open>Some\<close> of its bytes and the null pointer
  \<open>None\<close>; a pointer into the block is an index.  A copy of no bytes
  touches no memory, whatever the pointers are.
\<close>

definition patch :: "'a list \<Rightarrow> nat \<Rightarrow> 'a list \<Rightarrow> 'a list" where
  "patch xs i ys = take i xs @ ys @ drop (i + length ys) xs"

definition mem_read :: "u8 list option \<Rightarrow> int \<Rightarrow> int \<Rightarrow> u8 list cres" where
  "mem_read m i n =
     (if n = 0 then Inr []
      else case m of
        None \<Rightarrow> Inl Null_deref
      | Some xs \<Rightarrow> if 0 \<le> i \<and> 0 \<le> n \<and> i + n \<le> int (length xs)
                   then Inr (take (nat n) (drop (nat i) xs)) else Inl Oob)"

definition mem_write :: "u8 list option \<Rightarrow> int \<Rightarrow> u8 list \<Rightarrow> u8 list option cres" where
  "mem_write m i ys =
     (if ys = [] then Inr m
      else case m of
        None \<Rightarrow> Inl Null_deref
      | Some xs \<Rightarrow> if 0 \<le> i \<and> i + int (length ys) \<le> int (length xs)
                   then Inr (Some (patch xs (nat i) ys)) else Inl Oob)"

lemma patch_Nil [simp]: "patch xs i [] = xs"
  by (simp add: patch_def)

lemma length_patch [simp]: "i + length ys \<le> length xs \<Longrightarrow> length (patch xs i ys) = length xs"
  by (simp add: patch_def)

lemma take_patch [simp]: "j \<le> i \<Longrightarrow> i + length ys \<le> length xs \<Longrightarrow> take j (patch xs i ys) = take j xs"
  by (simp add: patch_def min_def)

lemma drop_patch:
  "i + length ys \<le> j \<Longrightarrow> i + length ys \<le> length xs \<Longrightarrow> drop j (patch xs i ys) = drop j xs"
  by (simp add: patch_def)

lemma nth_patch:
  "i + length ys \<le> length xs \<Longrightarrow> k < length xs \<Longrightarrow>
   patch xs i ys ! k = (if i \<le> k \<and> k < i + length ys then ys ! (k - i) else xs ! k)"
  by (auto simp: patch_def nth_append min_def)

lemma patch_Cons:
  "i < length xs \<Longrightarrow> patch (xs[i := y]) (Suc i) ys = patch xs i (y # ys)"
  by (simp add: patch_def take_Suc_conv_app_nth)

lemma patch_single: "i < length xs \<Longrightarrow> patch xs i [y] = xs[i := y]"
  by (simp add: patch_def upd_conv_take_nth_drop)

lemma mem_read_Some [simp, mem_simps]:
  "0 \<le> i \<Longrightarrow> 0 \<le> n \<Longrightarrow> i + n \<le> int (length xs) \<Longrightarrow>
   mem_read (Some xs) i n = Inr (take (nat n) (drop (nat i) xs))"
  by (simp add: mem_read_def)

lemma mem_read_0 [simp, mem_simps]: "mem_read m i 0 = Inr []"
  by (simp add: mem_read_def)

lemma mem_write_Some [simp, mem_simps]:
  "0 \<le> i \<Longrightarrow> i + int (length ys) \<le> int (length xs) \<Longrightarrow>
   mem_write (Some xs) i ys = Inr (Some (patch xs (nat i) ys))"
  by (simp add: mem_write_def)

lemma mem_write_Nil [simp, mem_simps]: "mem_write m i [] = Inr m"
  by (simp add: mem_write_def)

lemma mem_write_eq_Inr:
  "mem_write (Some xs) i ys = Inr m' \<Longrightarrow>
   ys = [] \<and> m' = Some xs \<or>
   0 \<le> i \<and> i + int (length ys) \<le> int (length xs) \<and> m' = Some (patch xs (nat i) ys)"
  by (auto simp: mem_write_def split: if_splits)


section \<open>Text\<close>

text \<open>A string literal as bytes, and the decimal digits \<open>printf\<close> writes for a number.\<close>

definition cstr :: "string \<Rightarrow> u8 list" where
  "cstr s = map of_char s"

fun dec_digits :: "nat \<Rightarrow> u8 list" where
  "dec_digits n = (if n < 10 then [48 + word_of_nat n] else dec_digits (n div 10) @ [48 + word_of_nat (n mod 10)])"

declare dec_digits.simps [simp del]

definition dec_int :: "int \<Rightarrow> u8 list" where
  "dec_int i = (if i < 0 then 45 # dec_digits (nat (- i)) else dec_digits (nat i))"


section \<open>Network byte order\<close>

text \<open>
  \<open>htons\<close>, \<open>htonl\<close> and \<open>htonll\<close> followed by a copy of the value's bytes put the
  most significant byte first on every host, and the reverse reads it
  back.  \<open>nat_be n x\<close> is that encoding of \<open>x\<close> in \<open>n\<close> bytes and \<open>be_nat\<close> its
  inverse.
\<close>

primrec nat_be :: "nat \<Rightarrow> nat \<Rightarrow> u8 list" where
  "nat_be 0 x = []"
| "nat_be (Suc n) x = nat_be n (x div 256) @ [word_of_nat x]"

definition be_nat :: "u8 list \<Rightarrow> nat" where
  "be_nat bs = foldl (\<lambda>a b. a * 256 + unat b) 0 bs"

definition be16 :: "u16 \<Rightarrow> u8 list" where "be16 w = nat_be 2 (unat w)"
definition be32 :: "u32 \<Rightarrow> u8 list" where "be32 w = nat_be 4 (unat w)"
definition be64 :: "u64 \<Rightarrow> u8 list" where "be64 w = nat_be 8 (unat w)"

definition un_be16 :: "u8 list \<Rightarrow> u16" where "un_be16 bs = word_of_nat (be_nat bs)"
definition un_be32 :: "u8 list \<Rightarrow> u32" where "un_be32 bs = word_of_nat (be_nat bs)"
definition un_be64 :: "u8 list \<Rightarrow> u64" where "un_be64 bs = word_of_nat (be_nat bs)"

lemma length_nat_be [simp]: "length (nat_be n x) = n"
  by (induction n arbitrary: x) auto

lemma length_be [simp]: "length (be16 a) = 2" "length (be32 b) = 4" "length (be64 c) = 8"
  by (simp_all add: be16_def be32_def be64_def)

lemma be_nonempty [simp]: "be16 a \<noteq> []" "be32 b \<noteq> []" "be64 c \<noteq> []"
  by (simp_all flip: length_0_conv)

lemma be_nat_snoc [simp]: "be_nat (bs @ [b]) = be_nat bs * 256 + unat b"
  by (simp add: be_nat_def)

lemma be_nat_Nil [simp]: "be_nat [] = 0"
  by (simp add: be_nat_def)

lemma be_nat_nat_be: "be_nat (nat_be n x) = x mod 256 ^ n"
proof (induction n arbitrary: x)
  case 0
  then show ?case by simp
next
  case (Suc n)
  have "x mod 256 ^ Suc n = 256 * (x div 256 mod 256 ^ n) + x mod 256"
    using mod_mult2_eq [of x 256 "256 ^ n"] by simp
  then show ?case
    by (simp add: Suc unat_of_nat)
qed

lemma be_nat_bound: "be_nat bs < 256 ^ length bs"
proof (induction bs rule: rev_induct)
  case Nil
  then show ?case by simp
next
  case (snoc b bs)
  have b: "unat b < 256"
    using unat_lt [of b] by simp
  have "be_nat bs * 256 + unat b < (be_nat bs + 1) * 256"
    using b by simp
  also have "\<dots> \<le> 256 ^ length bs * 256"
    using snoc by (intro mult_right_mono) auto
  finally show ?case by (simp add: mult.commute)
qed

lemma nat_be_be_nat: "nat_be (length bs) (be_nat bs) = bs"
proof (induction bs rule: rev_induct)
  case Nil
  then show ?case by simp
next
  case (snoc b bs)
  have b: "unat b < 256"
    using unat_lt [of b] by simp
  have d: "(be_nat bs * 256 + unat b) div 256 = be_nat bs"
    using b by simp
  have w: "(word_of_nat (be_nat bs * 256 + unat b) :: u8) = b"
    by (rule word_unat_eq_iff [THEN iffD2], subst unat_of_nat) (use b in simp)
  show ?case
    using snoc d w by simp
qed

lemma un_be16_be16 [simp]: "un_be16 (be16 w) = w"
  using unat_lt [of w] by (simp add: un_be16_def be16_def be_nat_nat_be)

lemma un_be32_be32 [simp]: "un_be32 (be32 w) = w"
  using unat_lt [of w] by (simp add: un_be32_def be32_def be_nat_nat_be)

lemma un_be64_be64 [simp]: "un_be64 (be64 w) = w"
  using unat_lt [of w] by (simp add: un_be64_def be64_def be_nat_nat_be)

lemma be32_un_be32: "length bs = 4 \<Longrightarrow> be32 (un_be32 bs) = bs"
  using be_nat_bound [of bs] nat_be_be_nat [of bs]
  by (simp add: un_be32_def be32_def unat_of_nat)

lemma be64_un_be64: "length bs = 8 \<Longrightarrow> be64 (un_be64 bs) = bs"
  using be_nat_bound [of bs] nat_be_be_nat [of bs]
  by (simp add: un_be64_def be64_def unat_of_nat)

end
