(* ===== verification/IntegerOps.thy ===== *)
theory IntegerOps
  imports Prelude
begin

text \<open>
  The inline integer helpers of \<open>integer.h\<close>: minima, maxima and
  clamping, arithmetic on a circle of a given circumference, the next power of
  two and the bounds check \<open>index_verify\<close>.  Values of type \<open>size_t\<close> are
  natural numbers, except in \<open>adjust_power_of_2\<close>, where the shift can leave the
  64-bit range.
\<close>

section \<open>Definitions\<close>

definition clamp_size_to_int :: "nat \<Rightarrow> int cres" where
  "clamp_size_to_int sz = bindE (c_assert (int sz \<le> INT_MAX)) (\<lambda>_. Inr (int sz))"

definition max_uint :: "u32 \<Rightarrow> u32 \<Rightarrow> u32" where
  "max_uint x y = (if x > y then x else y)"

definition min_uint :: "u32 \<Rightarrow> u32 \<Rightarrow> u32" where
  "min_uint x y = (if x < y then x else y)"

definition min_size :: "nat \<Rightarrow> nat \<Rightarrow> nat" where
  "min_size x y = (if x < y then x else y)"

definition max_int :: "int \<Rightarrow> int \<Rightarrow> int" where
  "max_int x y = (if x > y then x else y)"

definition min_int :: "int \<Rightarrow> int \<Rightarrow> int" where
  "min_int x y = (if x < y then x else y)"

definition constrain_int :: "int \<Rightarrow> int \<Rightarrow> int \<Rightarrow> int" where
  "constrain_int x mn mx =
     (if mn > mx then mn
      else if x < mn then mn
      else if x > mx then mx
      else x)"

definition constrain_uint :: "u32 \<Rightarrow> u32 \<Rightarrow> u32 \<Rightarrow> u32" where
  "constrain_uint x mn mx =
     (if mn > mx then mn
      else if x < mn then mn
      else if x > mx then mx
      else x)"

definition modulo_subtract :: "int \<Rightarrow> int \<Rightarrow> int \<Rightarrow> int cres" where
  "modulo_subtract x y m =
     (let d1 = x - y;
          d2 = (if x > y then - m else m) + d1
      in bindE (c_assert (0 \<le> x \<and> x < m \<and> 0 \<le> y \<and> y < m))
           (\<lambda>_. Inr (if \<bar>d1\<bar> > \<bar>d2\<bar> then d2 else d1)))"

definition modulo_add :: "int \<Rightarrow> int \<Rightarrow> int \<Rightarrow> int cres" where
  "modulo_add x y m =
     (let sum = x + y
      in bindE (c_assert (0 \<le> x \<and> x < m \<and> - m \<le> y \<and> y \<le> m))
           (\<lambda>_. let sum1 = (if sum \<ge> m then sum - m else sum);
                    sum2 = (if sum1 < 0 then sum1 + m else sum1)
                in Inr sum2))"

text \<open>
  The loop of \<open>adjust_power_of_2\<close> shifts \<open>ret\<close> until it reaches \<open>u\<close>.  The
  64th shift of 1 leaves the word zero and fails the assertion, so the loop
  body runs at most 64 times and the fuel is never used up (see
  \<open>adjust_power_of_2_spec\<close>).
\<close>

fun adjust_power_of_2_loop :: "nat \<Rightarrow> u64 \<Rightarrow> u64 \<Rightarrow> u64 cres" where
  "adjust_power_of_2_loop 0 ret u = (if ret < u then Inl Assert_fail else Inr ret)"
| "adjust_power_of_2_loop (Suc fuel) ret u =
     (if ret < u
      then (let ret' = push_bit 1 ret
            in bindE (c_assert (ret' > 0)) (\<lambda>_. adjust_power_of_2_loop fuel ret' u))
      else Inr ret)"

definition adjust_power_of_2 :: "u64 \<Rightarrow> u64 cres" where
  "adjust_power_of_2 u = adjust_power_of_2_loop 64 1 u"

definition index_verify :: "int \<Rightarrow> int \<Rightarrow> int cres" where
  "index_verify index sz = (if index < 0 \<or> index \<ge> sz then Inl Fatal else Inr index)"

definition round_down_size :: "nat \<Rightarrow> nat \<Rightarrow> nat cres" where
  "round_down_size num multiple =
     (if multiple = 0 then Inl Div_zero else Inr (num div multiple * multiple))"


section \<open>Correctness\<close>

lemma min_int_eq [simp]: "min_int x y = min x y"
  by (simp add: min_int_def)

lemma max_int_eq [simp]: "max_int x y = max x y"
  by (simp add: max_int_def)

lemma min_size_eq [simp]: "min_size x y = min x y"
  by (simp add: min_size_def)

lemma constrain_int_bounds:
  "mn \<le> mx \<Longrightarrow> mn \<le> constrain_int x mn mx \<and> constrain_int x mn mx \<le> mx"
  by (simp add: constrain_int_def)

lemma index_verify_Inr [simp]: "0 \<le> i \<Longrightarrow> i < n \<Longrightarrow> index_verify i n = Inr i"
  by (simp add: index_verify_def)

lemma modulo_add_mod:
  assumes "0 \<le> x" "x < m" "- m \<le> y" "y \<le> m"
  shows "modulo_add x y m = Inr ((x + y) mod m)"
proof -
  consider "x + y \<ge> m" | "x + y < 0" | "0 \<le> x + y" "x + y < m" by linarith
  then show ?thesis
  proof cases
    case 1
    have "(x + y) mod m = (x + y - m) mod m" by simp
    also have "\<dots> = x + y - m" using 1 assms by (intro mod_pos_pos_trivial) auto
    finally show ?thesis using 1 assms by (simp add: modulo_add_def Let_def)
  next
    case 2
    have "(x + y) mod m = (x + y + m) mod m" by simp
    also have "\<dots> = x + y + m" using 2 assms by (intro mod_pos_pos_trivial) auto
    finally show ?thesis using 2 assms by (simp add: modulo_add_def Let_def)
  next
    case 3
    then show ?thesis using assms by (simp add: modulo_add_def Let_def)
  qed
qed

lemma modulo_subtract_mod:
  assumes "0 \<le> x" "x < m" "0 \<le> y" "y < m"
  shows "\<exists>d. modulo_subtract x y m = Inr d \<and> (y + d) mod m = x \<and> 2 * \<bar>d\<bar> \<le> m"
proof -
  define d1 where "d1 = x - y"
  define d2 where "d2 = (if x > y then - m else m) + d1"
  define d where "d = (if \<bar>d1\<bar> > \<bar>d2\<bar> then d2 else d1)"
  have eq: "modulo_subtract x y m = Inr d"
    using assms by (simp add: modulo_subtract_def Let_def d_def d1_def d2_def)
  have "y + d = x \<or> y + d = x - m \<or> y + d = x + m"
    by (auto simp: d_def d1_def d2_def)
  then have "(y + d) mod m = x"
    using assms by auto
  moreover have "2 * \<bar>d\<bar> \<le> m"
  proof (cases "x > y")
    case True
    then have "d1 > 0" "d2 = d1 - m" "d2 < 0" using assms by (auto simp: d1_def d2_def)
    then show ?thesis unfolding d_def by (cases "\<bar>d1\<bar> > \<bar>d2\<bar>") auto
  next
    case False
    then have "d1 \<le> 0" "d2 = d1 + m" "d2 > 0" using assms by (auto simp: d1_def d2_def)
    then show ?thesis unfolding d_def by (cases "\<bar>d1\<bar> > \<bar>d2\<bar>") auto
  qed
  ultimately show ?thesis using eq by blast
qed

lemma adjust_power_of_2_loop_eq:
  assumes "k + fuel = 64" "k < 64" "unat u \<le> 2 ^ n" "n < 64" "k \<le> n"
    and "\<And>j. k \<le> j \<Longrightarrow> j < n \<Longrightarrow> 2 ^ j < unat u"
  shows "adjust_power_of_2_loop fuel (2 ^ k) u = Inr (2 ^ n)"
  using assms
proof (induction fuel arbitrary: k)
  case 0
  then show ?case by simp
next
  case (Suc fuel)
  have uk: "unat (2 ^ j :: u64) = 2 ^ j" if "j < 64" for j
    using that by (simp add: unat_pow2)
  show ?case
  proof (cases "k = n")
    case True
    then show ?thesis
      using Suc.prems uk [of n] by (simp add: word_less_nat_alt)
  next
    case False
    have lt: "(2 ^ k :: u64) < u"
      using Suc.prems False uk [of k] by (simp add: word_less_nat_alt)
    have pos: "(2 ^ Suc k :: u64) > 0"
      using Suc.prems False uk [of "Suc k"] by (simp add: word_less_nat_alt)
    have push: "push_bit 1 (2 ^ k :: u64) = 2 ^ Suc k"
      by (simp add: push_bit_eq_mult mult.commute)
    have "adjust_power_of_2_loop fuel (2 ^ Suc k) u = Inr (2 ^ n)"
      using Suc.prems False by (intro Suc.IH) auto
    then show ?thesis
      using lt pos push by (simp add: Let_def mult.commute)
  qed
qed

lemma adjust_power_of_2_loop_overflow:
  assumes "k + fuel = 64" "k \<le> 63" "2 ^ 63 < unat u"
  shows "adjust_power_of_2_loop fuel (2 ^ k) u = Inl Assert_fail"
  using assms
proof (induction fuel arbitrary: k)
  case 0
  then show ?case by simp
next
  case (Suc fuel)
  have "(2 :: nat) ^ k \<le> 2 ^ 63" using Suc.prems by (intro power_increasing) auto
  then have lt: "(2 ^ k :: u64) < u"
    using Suc.prems by (simp add: word_less_nat_alt unat_pow2)
  have push: "push_bit 1 (2 ^ k :: u64) = 2 ^ Suc k"
    by (simp add: push_bit_eq_mult mult.commute)
  show ?case
  proof (cases "k = 63")
    case True
    then have "push_bit 1 (2 ^ k :: u64) = 0" by simp
    with lt show ?thesis by (simp add: Let_def)
  next
    case False
    then have "unat (2 ^ Suc k :: u64) = 2 ^ Suc k" using Suc.prems by (intro unat_pow2) simp
    then have pos: "(2 ^ Suc k :: u64) > 0" by (simp add: word_less_nat_alt)
    have "adjust_power_of_2_loop fuel (2 ^ Suc k) u = Inl Assert_fail"
      using Suc.prems False by (intro Suc.IH) auto
    then show ?thesis using lt pos push by (simp add: Let_def mult.commute)
  qed
qed

lemma adjust_power_of_2_spec:
  "adjust_power_of_2 u =
     (if unat u \<le> 2 ^ 63 then Inr (2 ^ (LEAST n. unat u \<le> 2 ^ n)) else Inl Assert_fail)"
proof (cases "unat u \<le> 2 ^ 63")
  case True
  let ?n = "LEAST n. unat u \<le> 2 ^ n"
  have n: "?n \<le> 63" "unat u \<le> 2 ^ ?n"
    using True Least_le [of "\<lambda>n. unat u \<le> 2 ^ n" 63] LeastI [of "\<lambda>n. unat u \<le> 2 ^ n" 63] by simp_all
  have "adjust_power_of_2_loop 64 (2 ^ 0) u = Inr (2 ^ ?n)"
    using n not_less_Least [of _ "\<lambda>n. unat u \<le> 2 ^ n"]
    by (intro adjust_power_of_2_loop_eq) (auto simp: not_le)
  then show ?thesis using True by (simp add: adjust_power_of_2_def)
next
  case False
  then show ?thesis
    using adjust_power_of_2_loop_overflow [of 0 64 u] by (simp add: adjust_power_of_2_def)
qed

end
