(* ===== verification/CircList.thy ===== *)
theory CircList
  imports IntegerOps
begin

text \<open>
  The circular list macros of \<open>circ_list.h\<close>: a fixed array used as
  a history of the most recent items.  \<open>CIRC_LIST_PUSH\<close> moves the
  head back by one and overwrites the oldest item once the list is full, so that
  index 0 is always the newest item.

  The locale \<open>bounded_history\<close> is the interface the replay window of
  \<open>packet_id.c\<close> relies on; it is interpreted on the macros below.
\<close>

section \<open>Definitions\<close>

record 'a circ_list =
  x_head :: int
  x_size :: int
  x_cap :: int
  x_sizeof :: int
  x_list :: "'a list"

definition CIRC_LIST_PUSH :: "'a \<Rightarrow> 'a circ_list \<Rightarrow> 'a circ_list cres" where
  "CIRC_LIST_PUSH item obj =
     bindE (modulo_add (x_head obj) (- 1) (x_cap obj)) (\<lambda>h.
     bindE (arr_set (x_list obj) h item) (\<lambda>xs.
     Inr (obj\<lparr>x_head := h, x_list := xs,
              x_size := min_int (x_size obj + 1) (x_cap obj)\<rparr>)))"

definition CIRC_LIST_SIZE :: "'a circ_list \<Rightarrow> int" where
  "CIRC_LIST_SIZE obj = x_size obj"

definition CIRC_LIST_INDEX :: "'a circ_list \<Rightarrow> int \<Rightarrow> int cres" where
  "CIRC_LIST_INDEX obj index =
     bindE (index_verify index (x_size obj)) (\<lambda>i. modulo_add (x_head obj) i (x_cap obj))"

definition CIRC_LIST_ITEM :: "'a circ_list \<Rightarrow> int \<Rightarrow> 'a cres" where
  "CIRC_LIST_ITEM obj index = bindE (CIRC_LIST_INDEX obj index) (\<lambda>i. arr_get (x_list obj) i)"

text \<open>The assignment \<open>CIRC_LIST_ITEM (obj, index) = v\<close>.\<close>

definition CIRC_LIST_ITEM_set :: "'a circ_list \<Rightarrow> int \<Rightarrow> 'a \<Rightarrow> 'a circ_list cres" where
  "CIRC_LIST_ITEM_set obj index v =
     bindE (CIRC_LIST_INDEX obj index) (\<lambda>i.
     bindE (arr_set (x_list obj) i v) (\<lambda>xs. Inr (obj\<lparr>x_list := xs\<rparr>)))"

definition CIRC_LIST_RESET :: "'a circ_list \<Rightarrow> 'a circ_list" where
  "CIRC_LIST_RESET obj = obj\<lparr>x_head := 0, x_size := 0\<rparr>"

text \<open>
  The allocation clears the object, so every item is the zero of its type.  The
  sizes of the header and of one item are parameters.
\<close>

definition CIRC_LIST_ALLOC :: "int \<Rightarrow> int \<Rightarrow> 'a \<Rightarrow> int \<Rightarrow> 'a circ_list" where
  "CIRC_LIST_ALLOC so_list so_item zero sz =
     \<lparr>x_head = 0, x_size = 0, x_cap = sz, x_sizeof = so_list + so_item * sz,
      x_list = replicate (nat sz) zero\<rparr>"


section \<open>The interface: a bounded history\<close>

locale bounded_history =
  fixes cap :: "'h \<Rightarrow> nat"
    and items :: "'h \<Rightarrow> 'a list"
    and inv :: "'h \<Rightarrow> bool"
    and push :: "'a \<Rightarrow> 'h \<Rightarrow> 'h cres"
    and item :: "'h \<Rightarrow> int \<Rightarrow> 'a cres"
    and item_set :: "'h \<Rightarrow> int \<Rightarrow> 'a \<Rightarrow> 'h cres"
    and reset :: "'h \<Rightarrow> 'h"
  assumes push_law: "inv h \<Longrightarrow> \<exists>h'. push v h = Inr h' \<and> inv h' \<and> cap h' = cap h
                       \<and> items h' = take (cap h) (v # items h)"
    and item_law: "inv h \<Longrightarrow> i < length (items h) \<Longrightarrow> item h (int i) = Inr (items h ! i)"
    and item_set_law: "inv h \<Longrightarrow> i < length (items h) \<Longrightarrow>
                       \<exists>h'. item_set h (int i) v = Inr h' \<and> inv h' \<and> cap h' = cap h
                         \<and> items h' = (items h)[i := v]"
    and reset_law: "inv h \<Longrightarrow> inv (reset h) \<and> cap (reset h) = cap h \<and> items (reset h) = []"
    and size_law: "inv h \<Longrightarrow> length (items h) \<le> cap h"
begin

text \<open>A run of pushes of the same item, as the receive window does it to advance.\<close>

primrec push_n :: "nat \<Rightarrow> 'a \<Rightarrow> 'h \<Rightarrow> 'h cres" where
  "push_n 0 v h = Inr h"
| "push_n (Suc n) v h = bindE (push v h) (push_n n v)"

lemma push_n_law:
  "inv h \<Longrightarrow> \<exists>h'. push_n n v h = Inr h' \<and> inv h' \<and> cap h' = cap h
     \<and> items h' = take (cap h) (replicate n v @ items h)"
proof (induction n arbitrary: h)
  case 0
  then show ?case by (simp add: size_law)
next
  case (Suc n)
  from push_law [OF Suc.prems, of v] obtain h1 where h1: "push v h = Inr h1" "inv h1"
    "cap h1 = cap h" "items h1 = take (cap h) (v # items h)" by auto
  from Suc.IH [OF h1(2)] obtain h2 where h2: "push_n n v h1 = Inr h2" "inv h2" "cap h2 = cap h1"
    "items h2 = take (cap h1) (replicate n v @ items h1)" by auto
  have "items h2 = take (cap h) (replicate (Suc n) v @ items h)"
    using h1 h2 by (simp only: take_append_take replicate_Suc append_Cons replicate_app_Cons_same)
  with h1 h2 show ?case by simp
qed

lemma item_set_item:
  assumes "inv h" "i < length (items h)" "j < length (items h)" "item_set h (int i) v = Inr h'"
  shows "item h' (int j) = (if i = j then Inr v else item h (int j))"
  using assms item_set_law [OF assms(1,2), of v] by (auto simp: item_law)

end


section \<open>The macros implement the interface\<close>

definition circ_wf :: "'a circ_list \<Rightarrow> bool" where
  "circ_wf obj \<longleftrightarrow> 0 < x_cap obj \<and> int (length (x_list obj)) = x_cap obj
     \<and> 0 \<le> x_head obj \<and> x_head obj < x_cap obj \<and> 0 \<le> x_size obj \<and> x_size obj \<le> x_cap obj"

definition circ_items :: "'a circ_list \<Rightarrow> 'a list" where
  "circ_items obj = map (\<lambda>i. x_list obj ! nat ((x_head obj + int i) mod x_cap obj)) [0..<nat (x_size obj)]"

definition circ_cap :: "'a circ_list \<Rightarrow> nat" where
  "circ_cap obj = nat (x_cap obj)"

lemma length_circ_items [simp]: "length (circ_items obj) = nat (x_size obj)"
  by (simp add: circ_items_def)

lemma circ_wf_alloc: "0 < n \<Longrightarrow> circ_wf (CIRC_LIST_ALLOC a b z n)"
  by (simp add: circ_wf_def CIRC_LIST_ALLOC_def)

lemma circ_items_alloc [simp]: "circ_items (CIRC_LIST_ALLOC a b z n) = []"
  by (simp add: circ_items_def CIRC_LIST_ALLOC_def)

lemma circ_index:
  assumes "circ_wf obj" "0 \<le> i" "i < x_size obj"
  shows "CIRC_LIST_INDEX obj i = Inr ((x_head obj + i) mod x_cap obj)"
  using assms by (simp add: CIRC_LIST_INDEX_def circ_wf_def modulo_add_mod)

lemma circ_push:
  assumes wf: "circ_wf obj"
  shows "\<exists>obj'. CIRC_LIST_PUSH v obj = Inr obj' \<and> circ_wf obj' \<and> circ_cap obj' = circ_cap obj
           \<and> circ_items obj' = take (circ_cap obj) (v # circ_items obj)"
proof -
  let ?h = "(x_head obj - 1) mod x_cap obj"
  let ?obj' = "obj\<lparr>x_head := ?h, x_list := (x_list obj)[nat ?h := v],
                  x_size := min (x_size obj + 1) (x_cap obj)\<rparr>"
  from wf have c: "0 < x_cap obj" "int (length (x_list obj)) = x_cap obj" "0 \<le> x_head obj"
    "x_head obj < x_cap obj" "0 \<le> x_size obj" "x_size obj \<le> x_cap obj"
    by (auto simp: circ_wf_def)
  then have h: "0 \<le> ?h" "?h < x_cap obj" by auto
  have "CIRC_LIST_PUSH v obj = Inr ?obj'"
    using c h by (simp add: CIRC_LIST_PUSH_def modulo_add_mod)
  moreover have "circ_wf ?obj'"
    using c h by (auto simp: circ_wf_def)
  moreover have "circ_items ?obj' = take (circ_cap obj) (v # circ_items obj)"
  proof (rule nth_equalityI)
    show "length (circ_items ?obj') = length (take (circ_cap obj) (v # circ_items obj))"
      using c by (auto simp: circ_cap_def min_def)
  next
    fix i assume "i < length (circ_items ?obj')"
    then have i: "int i < x_size obj + 1" "int i < x_cap obj" by (auto simp: min_def split: if_splits)
    have idx: "(?h + int i) mod x_cap obj = (x_head obj + (int i - 1)) mod x_cap obj"
      by (simp add: mod_simps algebra_simps)
    show "circ_items ?obj' ! i = take (circ_cap obj) (v # circ_items obj) ! i"
    proof (cases i)
      case 0
      have "nat ?h < length (x_list obj)" using c h by linarith
      then show ?thesis using 0 c i by (simp add: circ_items_def circ_cap_def)
    next
      case (Suc j)
      have "(x_head obj + int j) mod x_cap obj \<noteq> ?h"
      proof
        assume "(x_head obj + int j) mod x_cap obj = ?h"
        then have "x_cap obj dvd (x_head obj + int j) - (x_head obj - 1)"
          by (simp add: mod_eq_dvd_iff)
        then have "x_cap obj dvd int j + 1" by (simp add: algebra_simps)
        then show False using Suc i zdvd_imp_le [of "x_cap obj" "int j + 1"] by simp
      qed
      then have "nat ((x_head obj + int j) mod x_cap obj) \<noteq> nat ?h"
        using c h by (simp add: nat_eq_iff)
      then show ?thesis
        using c h i Suc idx by (simp add: circ_items_def circ_cap_def)
    qed
  qed
  ultimately show ?thesis by (auto simp: circ_cap_def)
qed

lemma circ_item:
  "circ_wf obj \<Longrightarrow> i < length (circ_items obj) \<Longrightarrow> CIRC_LIST_ITEM obj (int i) = Inr (circ_items obj ! i)"
  by (simp add: CIRC_LIST_ITEM_def circ_index circ_items_def)
     (auto simp: circ_wf_def arr_get_def)

lemma circ_item_set:
  assumes wf: "circ_wf obj" and i: "i < length (circ_items obj)"
  shows "\<exists>obj'. CIRC_LIST_ITEM_set obj (int i) v = Inr obj' \<and> circ_wf obj' \<and> circ_cap obj' = circ_cap obj
           \<and> circ_items obj' = (circ_items obj)[i := v]"
proof -
  let ?k = "\<lambda>j. (x_head obj + int j) mod x_cap obj"
  let ?obj' = "obj\<lparr>x_list := (x_list obj)[nat (?k i) := v]\<rparr>"
  from wf have c: "0 < x_cap obj" "int (length (x_list obj)) = x_cap obj" "x_size obj \<le> x_cap obj"
    by (auto simp: circ_wf_def)
  have ibound: "int i < x_size obj" using i by auto
  have "CIRC_LIST_ITEM_set obj (int i) v = Inr ?obj'"
    using c ibound by (simp add: CIRC_LIST_ITEM_set_def circ_index [OF wf])
  moreover have "circ_wf ?obj'" using wf by (simp add: circ_wf_def)
  moreover have "circ_items ?obj' = (circ_items obj)[i := v]"
  proof (rule nth_equalityI)
    fix j assume "j < length (circ_items ?obj')"
    then have j: "int j < x_size obj" by simp
    have "?k j = ?k i \<longleftrightarrow> j = i"
    proof
      assume "?k j = ?k i"
      then have "x_cap obj dvd int j - int i"
        by (simp add: mod_eq_dvd_iff)
      moreover have "\<bar>int j - int i\<bar> < x_cap obj" using j ibound c by linarith
      ultimately show "j = i" using dvd_imp_le_int [of "int j - int i" "x_cap obj"] c by force
    qed simp
    moreover have "nat (?k j) = nat (?k i) \<longleftrightarrow> ?k j = ?k i"
      using c by (simp add: nat_eq_iff)
    moreover have "nat (?k j) < length (x_list obj)"
      using c by (simp add: nat_less_iff)
    moreover have "j < nat (x_size obj)" using j by simp
    ultimately show "circ_items ?obj' ! j = (circ_items obj)[i := v] ! j"
      using i by (auto simp: circ_items_def nth_list_update)
  qed simp
  ultimately show ?thesis by (auto simp: circ_cap_def)
qed

interpretation circ: bounded_history circ_cap circ_items circ_wf
  CIRC_LIST_PUSH CIRC_LIST_ITEM CIRC_LIST_ITEM_set CIRC_LIST_RESET
proof unfold_locales
  fix h :: "'a circ_list" and v :: 'a and i :: nat
  assume wf: "circ_wf h"
  show "\<exists>h'. CIRC_LIST_PUSH v h = Inr h' \<and> circ_wf h' \<and> circ_cap h' = circ_cap h
          \<and> circ_items h' = take (circ_cap h) (v # circ_items h)"
    using wf by (rule circ_push)
  show "circ_wf (CIRC_LIST_RESET h) \<and> circ_cap (CIRC_LIST_RESET h) = circ_cap h
          \<and> circ_items (CIRC_LIST_RESET h) = []"
    using wf by (simp add: circ_wf_def CIRC_LIST_RESET_def circ_cap_def circ_items_def)
  show "length (circ_items h) \<le> circ_cap h"
    using wf by (auto simp: circ_wf_def circ_cap_def)
  assume i: "i < length (circ_items h)"
  show "CIRC_LIST_ITEM h (int i) = Inr (circ_items h ! i)"
    using wf i by (rule circ_item)
  show "\<exists>h'. CIRC_LIST_ITEM_set h (int i) v = Inr h' \<and> circ_wf h' \<and> circ_cap h' = circ_cap h
          \<and> circ_items h' = (circ_items h)[i := v]"
    using wf i by (rule circ_item_set)
qed

end
