(* ===== verification/Buffer.thy ===== *)
theory Buffer
  imports IntegerOps
begin

text \<open>
  \<open>struct buffer\<close> of \<open>buffer.h\<close> with its inline operations, and
  the allocation and copy functions of \<open>buffer.c\<close>.  A buffer is a block of
  \<open>capacity\<close> bytes of which \<open>len\<close> bytes from \<open>offset\<close> on are its content.

  The block a buffer points to belongs to the value: \<open>b_data\<close> is \<open>None\<close> for a
  null pointer and otherwise the bytes of the block.  A pointer into the block is
  an index of it.  Where the C code copies a \<open>struct buffer\<close> and goes on
  with only one of the two copies, this is a faithful account; \<open>buf_sub\<close>, whose
  result shares the block of its argument, is modelled with a write-back (see
  there).  Allocation failure (\<open>out_of_memory\<close>) is not modelled.

  The locale \<open>byte_buffer\<close> is the interface the packet formats rely
  on; it is interpreted on \<open>buf_write\<close>, \<open>buf_write_prepend\<close> and \<open>buf_read\<close>.
\<close>

section \<open>The structure and its inline operations\<close>

definition BUF_SIZE_MAX :: int where
  "BUF_SIZE_MAX = 1000000"

record buffer =
  b_capacity :: int
  b_offset :: int
  b_len :: int
  b_data :: "u8 list option"

definition clear_buf :: buffer where
  "clear_buf = \<lparr>b_capacity = 0, b_offset = 0, b_len = 0, b_data = None\<rparr>"

definition buf_defined :: "buffer \<Rightarrow> bool" where
  "buf_defined buf \<longleftrightarrow> b_data buf \<noteq> None"

definition buf_valid :: "buffer \<Rightarrow> bool" where
  "buf_valid buf \<longleftrightarrow> b_data buf \<noteq> None \<and> b_len buf \<ge> 0"

definition buf_bptr :: "buffer \<Rightarrow> int option" where
  "buf_bptr buf = (if buf_valid buf then Some (b_offset buf) else None)"

definition buf_len :: "buffer \<Rightarrow> int" where
  "buf_len buf = (if buf_valid buf then b_len buf else 0)"

definition buf_bend :: "buffer \<Rightarrow> int option" where
  "buf_bend buf = map_option (\<lambda>p. p + buf_len buf) (buf_bptr buf)"

definition buf_blast :: "buffer \<Rightarrow> int option" where
  "buf_blast buf =
     (if buf_len buf > 0 then map_option (\<lambda>p. p + buf_len buf - 1) (buf_bptr buf) else None)"

definition buf_size_valid :: "nat \<Rightarrow> bool" where
  "buf_size_valid sz \<longleftrightarrow> int sz < BUF_SIZE_MAX"

definition buf_size_valid_signed :: "int \<Rightarrow> bool" where
  "buf_size_valid_signed sz \<longleftrightarrow> sz \<ge> - BUF_SIZE_MAX \<and> sz < BUF_SIZE_MAX"

definition buf_size_error :: "nat \<Rightarrow> 'a cres" where
  "buf_size_error sz = Inl Fatal"

definition buf_reset :: "buffer \<Rightarrow> buffer" where
  "buf_reset buf = buf\<lparr>b_capacity := 0, b_offset := 0, b_len := 0, b_data := None\<rparr>"

definition buf_reset_len :: "buffer \<Rightarrow> buffer" where
  "buf_reset_len buf = buf\<lparr>b_len := 0, b_offset := 0\<rparr>"

definition buf_init_dowork :: "buffer \<Rightarrow> int \<Rightarrow> bool \<times> buffer" where
  "buf_init_dowork buf offset =
     (if offset < 0 \<or> offset > b_capacity buf \<or> b_data buf = None then (False, buf)
      else (True, buf\<lparr>b_len := 0, b_offset := offset\<rparr>))"

text \<open>
  \<open>buf_set_write\<close> converts its \<open>int\<close> size to \<open>size_t\<close> for the check: a
  negative size is far above the limit.
\<close>

definition buf_set_write :: "u8 list option \<Rightarrow> int \<Rightarrow> buffer cres" where
  "buf_set_write data sz =
     (if \<not> (0 \<le> sz \<and> buf_size_valid (nat sz)) then Inl Fatal
      else bindE (if sz > 0 \<and> data \<noteq> None then mem_write data 0 [0] else Inr data)
             (\<lambda>data'. Inr \<lparr>b_capacity = sz, b_offset = 0, b_len = 0, b_data = data'\<rparr>))"

definition buf_set_read :: "u8 list option \<Rightarrow> nat \<Rightarrow> buffer cres" where
  "buf_set_read data sz =
     (if \<not> buf_size_valid sz then buf_size_error sz
      else Inr \<lparr>b_capacity = int sz, b_offset = 0, b_len = int sz, b_data = data\<rparr>)"

definition buf_safe :: "buffer \<Rightarrow> nat \<Rightarrow> bool" where
  "buf_safe buf n \<longleftrightarrow>
     buf_valid buf \<and> buf_size_valid n \<and> b_offset buf + b_len buf + int n \<le> b_capacity buf"

definition buf_safe_bidir :: "buffer \<Rightarrow> int \<Rightarrow> bool" where
  "buf_safe_bidir buf n =
     (if buf_valid buf \<and> buf_size_valid_signed n
      then (let newlen = b_len buf + n
            in newlen \<ge> 0 \<and> b_offset buf + newlen \<le> b_capacity buf)
      else False)"

definition buf_forward_capacity :: "buffer \<Rightarrow> int" where
  "buf_forward_capacity buf =
     (if buf_valid buf
      then (let ret = b_capacity buf - (b_offset buf + b_len buf) in if ret < 0 then 0 else ret)
      else 0)"

definition buf_forward_capacity_total :: "buffer \<Rightarrow> int" where
  "buf_forward_capacity_total buf =
     (if buf_valid buf
      then (let ret = b_capacity buf - b_offset buf in if ret < 0 then 0 else ret)
      else 0)"

definition buf_reverse_capacity :: "buffer \<Rightarrow> int" where
  "buf_reverse_capacity buf = (if buf_valid buf then b_offset buf else 0)"

definition buf_inc_len :: "buffer \<Rightarrow> int \<Rightarrow> bool \<times> buffer" where
  "buf_inc_len buf inc =
     (if \<not> buf_safe_bidir buf inc then (False, buf)
      else (True, buf\<lparr>b_len := b_len buf + inc\<rparr>))"

definition buf_prepend :: "buffer \<Rightarrow> int \<Rightarrow> int option \<times> buffer" where
  "buf_prepend buf sz =
     (if \<not> buf_valid buf \<or> sz < 0 \<or> sz > b_offset buf then (None, buf)
      else (let buf' = buf\<lparr>b_offset := b_offset buf - sz, b_len := b_len buf + sz\<rparr>
            in (buf_bptr buf', buf')))"

definition buf_advance :: "buffer \<Rightarrow> int \<Rightarrow> bool \<times> buffer" where
  "buf_advance buf sz =
     (if \<not> buf_valid buf \<or> sz < 0 \<or> b_len buf < sz then (False, buf)
      else (True, buf\<lparr>b_offset := b_offset buf + sz, b_len := b_len buf - sz\<rparr>))"

definition buf_write_alloc :: "buffer \<Rightarrow> nat \<Rightarrow> int option \<times> buffer" where
  "buf_write_alloc buf sz =
     (if \<not> buf_safe buf sz then (None, buf)
      else (map_option (\<lambda>p. p + b_len buf) (buf_bptr buf), buf\<lparr>b_len := b_len buf + int sz\<rparr>))"

definition buf_read_alloc :: "buffer \<Rightarrow> int \<Rightarrow> int option \<times> buffer" where
  "buf_read_alloc buf sz =
     (if sz < 0 \<or> b_len buf < sz then (None, buf)
      else (buf_bptr buf, buf\<lparr>b_offset := b_offset buf + sz, b_len := b_len buf - sz\<rparr>))"

text \<open>
  \<open>memcpy\<close> into the block at an index, and reads through \<open>BPTR\<close>.
\<close>

definition buf_poke :: "buffer \<Rightarrow> int \<Rightarrow> u8 list \<Rightarrow> buffer cres" where
  "buf_poke buf i src = bindE (mem_write (b_data buf) i src) (\<lambda>d. Inr (buf\<lparr>b_data := d\<rparr>))"

definition buf_peek :: "buffer \<Rightarrow> int \<Rightarrow> int \<Rightarrow> u8 list cres" where
  "buf_peek buf i n =
     (case buf_bptr buf of
        None \<Rightarrow> mem_read None i n
      | Some p \<Rightarrow> mem_read (b_data buf) (p + i) n)"

definition buf_write :: "buffer \<Rightarrow> u8 list \<Rightarrow> (bool \<times> buffer) cres" where
  "buf_write dest src =
     (case buf_write_alloc dest (length src) of
        (None, dest') \<Rightarrow> Inr (False, dest')
      | (Some cp, dest') \<Rightarrow> bindE (buf_poke dest' cp src) (\<lambda>d. Inr (True, d)))"

definition buf_write_prepend :: "buffer \<Rightarrow> u8 list \<Rightarrow> (bool \<times> buffer) cres" where
  "buf_write_prepend dest src =
     (case buf_prepend dest (int (length src)) of
        (None, dest') \<Rightarrow> Inr (False, dest')
      | (Some cp, dest') \<Rightarrow> bindE (buf_poke dest' cp src) (\<lambda>d. Inr (True, d)))"

definition buf_write_u8 :: "buffer \<Rightarrow> u8 \<Rightarrow> (bool \<times> buffer) cres" where
  "buf_write_u8 dest data = buf_write dest [data]"

definition buf_write_u16 :: "buffer \<Rightarrow> u16 \<Rightarrow> (bool \<times> buffer) cres" where
  "buf_write_u16 dest data = buf_write dest (be16 data)"

definition buf_write_u32 :: "buffer \<Rightarrow> u32 \<Rightarrow> (bool \<times> buffer) cres" where
  "buf_write_u32 dest data = buf_write dest (be32 data)"

definition buf_copy :: "buffer \<Rightarrow> buffer \<Rightarrow> (bool \<times> buffer) cres" where
  "buf_copy dest src = bindE (buf_peek src 0 (buf_len src)) (buf_write dest)"

text \<open>The bytes at the pointer \<open>buf_read_alloc\<close> returned, and the advanced source.\<close>

definition buf_copy_n :: "buffer \<Rightarrow> buffer \<Rightarrow> int \<Rightarrow> (bool \<times> buffer \<times> buffer) cres" where
  "buf_copy_n dest src n =
     (case buf_read_alloc src n of
        (None, src') \<Rightarrow> Inr (False, dest, src')
      | (Some cp, src') \<Rightarrow>
          bindE (mem_read (b_data src') cp n) (\<lambda>bs.
          bindE (buf_write dest bs) (\<lambda>(r, dest'). Inr (r, dest', src'))))"

definition buf_copy_range ::
    "buffer \<Rightarrow> int \<Rightarrow> buffer \<Rightarrow> int \<Rightarrow> int \<Rightarrow> (bool \<times> buffer) cres" where
  "buf_copy_range dest dest_index src src_index src_len =
     (if src_index < 0 \<or> src_len < 0 \<or> src_index + src_len > b_len src \<or> dest_index < 0
         \<or> b_offset dest + dest_index + src_len > b_capacity dest
      then Inr (False, dest)
      else bindE (mem_read (b_data src) (b_offset src + src_index) src_len) (\<lambda>bs.
           bindE (buf_poke dest (b_offset dest + dest_index) bs) (\<lambda>dest'.
           Inr (True, if dest_index + src_len > b_len dest'
                      then dest'\<lparr>b_len := dest_index + src_len\<rparr> else dest'))))"

definition buf_copy_excess :: "buffer \<Rightarrow> buffer \<Rightarrow> int \<Rightarrow> (bool \<times> buffer \<times> buffer) cres" where
  "buf_copy_excess dest src n =
     (if n < 0 then Inr (False, dest, src)
      else if b_len src > n
      then (let src' = src\<lparr>b_len := n\<rparr>
            in case buf_advance src n of
                 (False, _) \<Rightarrow> Inr (False, dest, src')
               | (True, b) \<Rightarrow> bindE (buf_copy dest b) (\<lambda>(r, dest'). Inr (r, dest', src')))
      else Inr (True, dest, src))"

definition buf_read :: "buffer \<Rightarrow> int \<Rightarrow> (u8 list option \<times> buffer) cres" where
  "buf_read src sz =
     (case buf_read_alloc src sz of
        (None, src') \<Rightarrow> Inr (None, src')
      | (Some cp, src') \<Rightarrow> bindE (mem_read (b_data src') cp sz) (\<lambda>bs. Inr (Some bs, src')))"

definition buf_peek_u8 :: "buffer \<Rightarrow> int cres" where
  "buf_peek_u8 buf =
     (if buf_len buf < 1 then Inr (- 1)
      else bindE (buf_peek buf 0 1) (\<lambda>bs. Inr (uint (hd bs))))"

definition buf_read_u8 :: "buffer \<Rightarrow> (int \<times> buffer) cres" where
  "buf_read_u8 buf =
     bindE (buf_peek_u8 buf) (\<lambda>ret.
     Inr (ret, if ret \<ge> 0 then snd (buf_advance buf 1) else buf))"

definition buf_read_u16 :: "buffer \<Rightarrow> (int \<times> buffer) cres" where
  "buf_read_u16 buf =
     bindE (buf_read buf 2) (\<lambda>(r, buf').
     Inr (case r of None \<Rightarrow> - 1 | Some bs \<Rightarrow> uint (un_be16 bs), buf'))"

text \<open>The pair of \<open>*good\<close> and the value.\<close>

definition buf_read_u32 :: "buffer \<Rightarrow> ((bool \<times> u32) \<times> buffer) cres" where
  "buf_read_u32 buf =
     bindE (buf_read buf 4) (\<lambda>(r, buf').
     Inr (case r of None \<Rightarrow> (False, 0) | Some bs \<Rightarrow> (True, un_be32 bs), buf'))"

definition buf_equal :: "buffer \<Rightarrow> buffer \<Rightarrow> bool cres" where
  "buf_equal a b =
     (if buf_len a \<noteq> buf_len b then Inr False
      else bindE (buf_peek a 0 (buf_len a)) (\<lambda>x.
           bindE (buf_peek b 0 (buf_len a)) (\<lambda>y. Inr (x = y))))"

definition buf_string_match :: "buffer \<Rightarrow> u8 list \<Rightarrow> int \<Rightarrow> bool cres" where
  "buf_string_match src match sz =
     (if sz \<noteq> b_len src then Inr False
      else bindE (buf_peek src 0 sz) (\<lambda>x.
           bindE (mem_read (Some match) 0 sz) (\<lambda>y. Inr (x = y))))"

definition buf_string_match_head :: "buffer \<Rightarrow> u8 list \<Rightarrow> int \<Rightarrow> bool cres" where
  "buf_string_match_head src match sz =
     (if sz < 0 \<or> sz > b_len src then Inr False
      else bindE (buf_peek src 0 sz) (\<lambda>x.
           bindE (mem_read (Some match) 0 sz) (\<lambda>y. Inr (x = y))))"


section \<open>Allocation and assignment\<close>

definition alloc_buf :: "nat \<Rightarrow> buffer cres" where
  "alloc_buf sz =
     (if \<not> buf_size_valid sz then buf_size_error sz
      else Inr \<lparr>b_capacity = int sz, b_offset = 0, b_len = 0, b_data = Some (replicate sz 0)\<rparr>)"

text \<open>
  \<open>alloc_buf_gc\<close> and \<open>clone_buf\<close> leave memory uninitialised: the bytes a fresh
  allocation of \<open>n\<close> bytes holds are the parameter \<open>junk n\<close>.
\<close>

definition alloc_buf_gc :: "(nat \<Rightarrow> u8 list) \<Rightarrow> nat \<Rightarrow> buffer cres" where
  "alloc_buf_gc junk sz =
     (if \<not> buf_size_valid sz then buf_size_error sz
      else bindE (if sz \<noteq> 0 then mem_write (Some (junk sz)) 0 [0] else Inr (Some (junk sz)))
             (\<lambda>d. Inr \<lparr>b_capacity = int sz, b_offset = 0, b_len = 0, b_data = d\<rparr>))"

definition clone_buf :: "(nat \<Rightarrow> u8 list) \<Rightarrow> buffer \<Rightarrow> buffer cres" where
  "clone_buf junk buf =
     (let ret = buf\<lparr>b_data := Some (junk (nat (b_capacity buf)))\<rparr>
      in bindE (buf_peek buf 0 (buf_len buf)) (\<lambda>bs.
           case buf_bptr ret of
             None \<Rightarrow> (if bs = [] then Inr ret else Inl Null_deref)
           | Some p \<Rightarrow> buf_poke ret p bs))"

definition buf_clear :: "buffer \<Rightarrow> buffer cres" where
  "buf_clear buf =
     bindE (if b_capacity buf > 0 then buf_poke buf 0 (replicate (nat (b_capacity buf)) 0) else Inr buf)
       (\<lambda>buf'. Inr (buf'\<lparr>b_len := 0, b_offset := 0\<rparr>))"

definition buf_assign :: "buffer \<Rightarrow> buffer \<Rightarrow> (bool \<times> buffer) cres" where
  "buf_assign dest src =
     (case buf_init_dowork dest (b_offset src) of
        (False, dest') \<Rightarrow> Inr (False, dest')
      | (True, dest') \<Rightarrow> bindE (buf_peek src 0 (buf_len src)) (buf_write dest'))"

definition free_buf :: "buffer \<Rightarrow> buffer" where
  "free_buf buf = clear_buf"

text \<open>
  \<open>buf_sub\<close> returns a buffer that points into the block of \<open>buf\<close>.  The model
  gives it the bytes of that part of the block; what is then written to it reaches
  \<open>buf\<close> by \<open>buf_sub_commit\<close>, which puts the bytes back at the index where the
  part starts.  The callers use the parent only after they are done with the part.
\<close>

definition buf_sub :: "buffer \<Rightarrow> int \<Rightarrow> bool \<Rightarrow> ((buffer \<times> int) \<times> buffer) cres" where
  "buf_sub buf sz prepend =
     (case (if prepend then buf_prepend buf sz
            else if sz < 0 then (None, buf) else buf_write_alloc buf (nat sz)) of
        (None, buf') \<Rightarrow> Inr ((clear_buf, 0), buf')
      | (Some p, buf') \<Rightarrow>
          bindE (mem_read (b_data buf') p sz) (\<lambda>bs.
          Inr ((clear_buf\<lparr>b_capacity := sz, b_data := Some bs\<rparr>, p), buf')))"

definition buf_sub_commit :: "buffer \<Rightarrow> int \<Rightarrow> buffer \<Rightarrow> buffer cres" where
  "buf_sub_commit buf p sub =
     (case b_data sub of None \<Rightarrow> Inr buf | Some bs \<Rightarrow> buf_poke buf p bs)"


section \<open>The invariant and the content\<close>

text \<open>
  A well-formed buffer owns a block of exactly \<open>capacity\<close> bytes, below the size
  limit, and its content lies inside of it.  All sums of its fields are then far
  from the limits of \<open>int\<close>.
\<close>

definition buf_wf :: "buffer \<Rightarrow> bool" where
  "buf_wf buf \<longleftrightarrow>
     (case b_data buf of
        None \<Rightarrow> False
      | Some m \<Rightarrow> int (length m) = b_capacity buf)
     \<and> b_capacity buf < BUF_SIZE_MAX \<and> 0 \<le> b_offset buf \<and> 0 \<le> b_len buf
     \<and> b_offset buf + b_len buf \<le> b_capacity buf"

definition content :: "buffer \<Rightarrow> u8 list" where
  "content buf = take (nat (b_len buf)) (drop (nat (b_offset buf)) (the (b_data buf)))"

definition headroom :: "buffer \<Rightarrow> nat" where
  "headroom buf = nat (b_offset buf)"

definition tailroom :: "buffer \<Rightarrow> nat" where
  "tailroom buf = nat (b_capacity buf - (b_offset buf + b_len buf))"

lemma buf_wfE:
  assumes "buf_wf buf"
  obtains m where "b_data buf = Some m" "int (length m) = b_capacity buf"
    "b_capacity buf < 1000000" "0 \<le> b_offset buf" "0 \<le> b_len buf"
    "b_offset buf + b_len buf \<le> b_capacity buf"
  using assms by (auto simp: buf_wf_def BUF_SIZE_MAX_def split: option.splits)

lemma buf_wfI:
  assumes "b_data buf = Some m" "int (length m) = b_capacity buf"
    "b_capacity buf < 1000000" "0 \<le> b_offset buf" "0 \<le> b_len buf"
    "b_offset buf + b_len buf \<le> b_capacity buf"
  shows "buf_wf buf"
  using assms by (simp add: buf_wf_def BUF_SIZE_MAX_def)

lemma buf_wf_valid [simp]: "buf_wf buf \<Longrightarrow> buf_valid buf"
  by (auto elim!: buf_wfE simp: buf_valid_def)

lemma buf_wf_bptr [simp]: "buf_wf buf \<Longrightarrow> buf_bptr buf = Some (b_offset buf)"
  by (simp add: buf_bptr_def)

lemma buf_wf_len [simp]: "buf_wf buf \<Longrightarrow> buf_len buf = b_len buf"
  by (simp add: buf_len_def)

lemma length_content [simp]: "buf_wf buf \<Longrightarrow> length (content buf) = nat (b_len buf)"
  by (auto elim!: buf_wfE simp: content_def)

lemma buf_wf_lenI: "buf_wf buf \<Longrightarrow> b_len buf = int (length (content buf))"
  by (auto elim!: buf_wfE simp: content_def)

lemma buf_capacity_split:
  "buf_wf buf \<Longrightarrow> nat (b_capacity buf) = headroom buf + length (content buf) + tailroom buf"
  by (auto elim!: buf_wfE simp: headroom_def tailroom_def)

lemma content_bound: "buf_wf buf \<Longrightarrow> headroom buf + length (content buf) + tailroom buf < 1000000"
  by (auto elim!: buf_wfE simp: headroom_def tailroom_def)

lemma buf_peek_content [simp]: "buf_wf buf \<Longrightarrow> buf_peek buf 0 (b_len buf) = Inr (content buf)"
  by (auto elim!: buf_wfE simp: buf_peek_def content_def buf_bptr_def buf_valid_def)

lemma buf_write_ok:
  assumes wf: "buf_wf buf" and room: "length xs \<le> tailroom buf"
  shows "\<exists>buf'. buf_write buf xs = Inr (True, buf') \<and> buf_wf buf'
           \<and> content buf' = content buf @ xs \<and> headroom buf' = headroom buf
           \<and> tailroom buf' = tailroom buf - length xs \<and> b_capacity buf' = b_capacity buf"
proof -
  from wf obtain m where m: "b_data buf = Some m" "int (length m) = b_capacity buf"
    "b_capacity buf < 1000000" "0 \<le> b_offset buf" "0 \<le> b_len buf"
    "b_offset buf + b_len buf \<le> b_capacity buf" by (rule buf_wfE)
  let ?i = "nat (b_offset buf) + nat (b_len buf)"
  let ?b = "buf\<lparr>b_len := b_len buf + int (length xs), b_data := Some (patch m ?i xs)\<rparr>"
  have r: "b_offset buf + b_len buf + int (length xs) \<le> b_capacity buf"
    using room m by (simp add: tailroom_def)
  then have i: "?i + length xs \<le> length m" using m by linarith
  have "buf_write buf xs = Inr (True, ?b)"
    using m r by (simp add: buf_write_def buf_write_alloc_def buf_safe_def buf_valid_def
        buf_size_valid_def BUF_SIZE_MAX_def buf_bptr_def buf_poke_def nat_add_distrib)
  moreover have "buf_wf ?b"
    using m r i by (intro buf_wfI [where m = "patch m ?i xs"]) auto
  moreover have "content ?b = content buf @ xs"
    using m i by (simp add: content_def nat_add_distrib patch_def take_add)
  moreover have "headroom ?b = headroom buf" "tailroom ?b = tailroom buf - length xs"
    using m r by (auto simp: headroom_def tailroom_def)
  ultimately show ?thesis by (intro exI [of _ ?b]) auto
qed

lemma buf_write_full:
  "buf_wf buf \<Longrightarrow> tailroom buf < length xs \<Longrightarrow> buf_write buf xs = Inr (False, buf)"
  by (auto elim!: buf_wfE simp: buf_write_def buf_write_alloc_def buf_safe_def tailroom_def)

lemma buf_prepend_ok:
  assumes wf: "buf_wf buf" and room: "length xs \<le> headroom buf"
  shows "\<exists>buf'. buf_write_prepend buf xs = Inr (True, buf') \<and> buf_wf buf'
           \<and> content buf' = xs @ content buf \<and> headroom buf' = headroom buf - length xs
           \<and> tailroom buf' = tailroom buf \<and> b_capacity buf' = b_capacity buf"
proof -
  from wf obtain m where m: "b_data buf = Some m" "int (length m) = b_capacity buf"
    "b_capacity buf < 1000000" "0 \<le> b_offset buf" "0 \<le> b_len buf"
    "b_offset buf + b_len buf \<le> b_capacity buf" by (rule buf_wfE)
  let ?i = "nat (b_offset buf) - length xs"
  let ?b = "buf\<lparr>b_offset := b_offset buf - int (length xs), b_len := b_len buf + int (length xs),
                b_data := Some (patch m ?i xs)\<rparr>"
  have r: "int (length xs) \<le> b_offset buf"
    using room m by (simp add: headroom_def)
  then have i: "?i + length xs = nat (b_offset buf)" "?i + length xs \<le> length m"
    using m by linarith+
  have ni: "nat (b_offset buf - int (length xs)) = ?i" by simp
  have "buf_write_prepend buf xs = Inr (True, ?b)"
    using m r by (simp add: buf_write_prepend_def buf_prepend_def buf_valid_def buf_bptr_def
        buf_poke_def Let_def ni)
  moreover have "buf_wf ?b"
    using m r i by (intro buf_wfI [where m = "patch m ?i xs"]) auto
  moreover have "content ?b = xs @ content buf"
  proof -
    have "drop ?i (patch m ?i xs) = xs @ drop (nat (b_offset buf)) m"
      using i by (simp add: patch_def)
    then show ?thesis
      using m r by (simp add: content_def ni nat_add_distrib)
  qed
  moreover have "headroom ?b = headroom buf - length xs" "tailroom ?b = tailroom buf"
    using m r by (auto simp: headroom_def tailroom_def)
  ultimately show ?thesis by (intro exI [of _ ?b]) auto
qed

lemma buf_prepend_full:
  "buf_wf buf \<Longrightarrow> headroom buf < length xs \<Longrightarrow> buf_write_prepend buf xs = Inr (False, buf)"
  by (auto elim!: buf_wfE simp: buf_write_prepend_def buf_prepend_def headroom_def)

lemma buf_read_ok:
  assumes wf: "buf_wf buf" and n: "n \<le> length (content buf)"
  shows "\<exists>buf'. buf_read buf (int n) = Inr (Some (take n (content buf)), buf') \<and> buf_wf buf'
           \<and> content buf' = drop n (content buf) \<and> headroom buf' = headroom buf + n
           \<and> tailroom buf' = tailroom buf \<and> b_capacity buf' = b_capacity buf"
proof -
  from wf obtain m where m: "b_data buf = Some m" "int (length m) = b_capacity buf"
    "b_capacity buf < 1000000" "0 \<le> b_offset buf" "0 \<le> b_len buf"
    "b_offset buf + b_len buf \<le> b_capacity buf" by (rule buf_wfE)
  let ?b = "buf\<lparr>b_offset := b_offset buf + int n, b_len := b_len buf - int n\<rparr>"
  have r: "int n \<le> b_len buf" using n wf m by simp
  have "n \<le> nat (b_len buf)" using r by linarith
  then have "take n (drop (nat (b_offset buf)) m) = take n (content buf)"
    using m by (simp add: content_def min_def)
  then have "buf_read buf (int n) = Inr (Some (take n (content buf)), ?b)"
    using m r by (simp add: buf_read_def buf_read_alloc_def buf_bptr_def buf_valid_def)
  moreover have "buf_wf ?b" using m r by (intro buf_wfI [where m = m]) auto
  moreover have "content ?b = drop n (content buf)"
  proof -
    have "nat (b_len buf - int n) = nat (b_len buf) - n" by simp
    then show ?thesis using m r
      by (simp add: content_def nat_add_distrib drop_take add.commute)
  qed
  moreover have "headroom ?b = headroom buf + n" "tailroom ?b = tailroom buf"
    using m r by (auto simp: headroom_def tailroom_def)
  ultimately show ?thesis by (intro exI [of _ ?b]) auto
qed

lemma buf_read_short:
  "buf_wf buf \<Longrightarrow> length (content buf) < n \<Longrightarrow> buf_read buf (int n) = Inr (None, buf)"
  by (auto simp: buf_read_def buf_read_alloc_def)


section \<open>The interface: a byte buffer with room at both ends\<close>

locale byte_buffer =
  fixes inv :: "'b \<Rightarrow> bool"
    and cont :: "'b \<Rightarrow> u8 list"
    and hroom :: "'b \<Rightarrow> nat"
    and troom :: "'b \<Rightarrow> nat"
    and wr :: "'b \<Rightarrow> u8 list \<Rightarrow> (bool \<times> 'b) cres"
    and pre :: "'b \<Rightarrow> u8 list \<Rightarrow> (bool \<times> 'b) cres"
    and rd :: "'b \<Rightarrow> int \<Rightarrow> (u8 list option \<times> 'b) cres"
  assumes wr_ok: "inv b \<Longrightarrow> length xs \<le> troom b \<Longrightarrow>
      \<exists>b'. wr b xs = Inr (True, b') \<and> inv b' \<and> cont b' = cont b @ xs
        \<and> hroom b' = hroom b \<and> troom b' = troom b - length xs"
    and wr_full: "inv b \<Longrightarrow> troom b < length xs \<Longrightarrow> wr b xs = Inr (False, b)"
    and pre_ok: "inv b \<Longrightarrow> length xs \<le> hroom b \<Longrightarrow>
      \<exists>b'. pre b xs = Inr (True, b') \<and> inv b' \<and> cont b' = xs @ cont b
        \<and> hroom b' = hroom b - length xs \<and> troom b' = troom b"
    and pre_full: "inv b \<Longrightarrow> hroom b < length xs \<Longrightarrow> pre b xs = Inr (False, b)"
    and rd_ok: "inv b \<Longrightarrow> n \<le> length (cont b) \<Longrightarrow>
      \<exists>b'. rd b (int n) = Inr (Some (take n (cont b)), b') \<and> inv b' \<and> cont b' = drop n (cont b)
        \<and> hroom b' = hroom b + n \<and> troom b' = troom b"
    and rd_short: "inv b \<Longrightarrow> length (cont b) < n \<Longrightarrow> rd b (int n) = Inr (None, b)"
begin

text \<open>No operation faults or leaves the invariant, whatever its argument.\<close>

lemma wr_total: "inv b \<Longrightarrow> \<exists>r b'. wr b xs = Inr (r, b') \<and> inv b' \<and> r = (length xs \<le> troom b)"
  using wr_ok [of b xs] wr_full [of b xs] by (cases "length xs \<le> troom b") auto

lemma pre_total: "inv b \<Longrightarrow> \<exists>r b'. pre b xs = Inr (r, b') \<and> inv b' \<and> r = (length xs \<le> hroom b)"
  using pre_ok [of b xs] pre_full [of b xs] by (cases "length xs \<le> hroom b") auto

lemma rd_total: "inv b \<Longrightarrow> \<exists>r b'. rd b (int n) = Inr (r, b') \<and> inv b' \<and> (r = None) = (length (cont b) < n)"
  using rd_ok [of b n] rd_short [of b n] by (cases "length (cont b) < n") (auto simp: not_less)

lemma wr_D: "inv b \<Longrightarrow> wr b xs = Inr (True, b') \<Longrightarrow> inv b' \<and> cont b' = cont b @ xs"
  using wr_ok [of b xs] wr_full [of b xs] by (cases "length xs \<le> troom b") auto

lemma pre_D: "inv b \<Longrightarrow> pre b xs = Inr (True, b') \<Longrightarrow> inv b' \<and> cont b' = xs @ cont b"
  using pre_ok [of b xs] pre_full [of b xs] by (cases "length xs \<le> hroom b") auto

text \<open>What was put in front is read first, and reading it restores the content.\<close>

lemma rd_pre:
  assumes "inv b" "pre b xs = Inr (True, b')"
  shows "\<exists>b''. rd b' (int (length xs)) = Inr (Some xs, b'') \<and> inv b'' \<and> cont b'' = cont b"
proof -
  have "length xs \<le> hroom b" using assms pre_full [of b xs] by (cases "length xs \<le> hroom b") auto
  with assms pre_ok [of b xs] have "inv b'" "cont b' = xs @ cont b" by auto
  with rd_ok [of b' "length xs"] show ?thesis by auto
qed

text \<open>What was appended to an empty buffer is read back.\<close>

lemma rd_wr:
  assumes "inv b" "cont b = []" "wr b xs = Inr (True, b')"
  shows "\<exists>b''. rd b' (int (length xs)) = Inr (Some xs, b'') \<and> inv b'' \<and> cont b'' = []"
proof -
  have "length xs \<le> troom b" using assms wr_full [of b xs] by (cases "length xs \<le> troom b") auto
  with assms wr_ok [of b xs] have "inv b'" "cont b' = xs" by auto
  with rd_ok [of b' "length xs"] show ?thesis by auto
qed

text \<open>A known prefix of the content is what the next read returns.\<close>

lemma rd_prefix:
  assumes "inv b" "cont b = xs @ ys" "int (length xs) = n"
  shows "\<exists>b'. rd b n = Inr (Some xs, b') \<and> inv b' \<and> cont b' = ys
           \<and> hroom b' = hroom b + length xs \<and> troom b' = troom b"
  using assms rd_ok [of b "length xs"] by auto

end

interpretation bb: byte_buffer buf_wf content headroom tailroom buf_write buf_write_prepend buf_read
proof unfold_locales
  fix b :: buffer and xs :: "u8 list"
  show "buf_wf b \<Longrightarrow> length xs \<le> tailroom b \<Longrightarrow>
      \<exists>b'. buf_write b xs = Inr (True, b') \<and> buf_wf b' \<and> content b' = content b @ xs
        \<and> headroom b' = headroom b \<and> tailroom b' = tailroom b - length xs"
    using buf_write_ok [of b xs] by blast
  show "buf_wf b \<Longrightarrow> length xs \<le> headroom b \<Longrightarrow>
      \<exists>b'. buf_write_prepend b xs = Inr (True, b') \<and> buf_wf b' \<and> content b' = xs @ content b
        \<and> headroom b' = headroom b - length xs \<and> tailroom b' = tailroom b"
    using buf_prepend_ok [of b xs] by blast
  fix n :: nat
  show "buf_wf b \<Longrightarrow> n \<le> length (content b) \<Longrightarrow>
      \<exists>b'. buf_read b (int n) = Inr (Some (take n (content b)), b') \<and> buf_wf b'
        \<and> content b' = drop n (content b) \<and> headroom b' = headroom b + n \<and> tailroom b' = tailroom b"
    using buf_read_ok [of b n] by blast
qed (rule buf_write_full buf_prepend_full buf_read_short; assumption)+


section \<open>The remaining operations on well-formed buffers\<close>

lemma alloc_buf_ok:
  "n < 1000000 \<Longrightarrow> \<exists>b. alloc_buf n = Inr b \<and> buf_wf b \<and> content b = [] \<and> headroom b = 0
     \<and> tailroom b = n \<and> b_capacity b = int n"
  by (auto simp: alloc_buf_def buf_size_valid_def BUF_SIZE_MAX_def content_def headroom_def
      tailroom_def intro!: buf_wfI [where m = "replicate n 0"])

lemma buf_init_ok:
  assumes "buf_wf b" "0 \<le> off" "off \<le> b_capacity b"
  shows "\<exists>b'. buf_init_dowork b off = (True, b') \<and> buf_wf b' \<and> content b' = [] \<and> headroom b' = nat off
           \<and> tailroom b' = nat (b_capacity b - off) \<and> b_capacity b' = b_capacity b
           \<and> b_data b' = b_data b"
  using assms by (auto elim!: buf_wfE intro!: buf_wfI simp: buf_init_dowork_def content_def
      headroom_def tailroom_def)

lemma buf_advance_ok:
  assumes wf: "buf_wf b" and n: "n \<le> length (content b)"
  shows "\<exists>b'. buf_advance b (int n) = (True, b') \<and> buf_wf b' \<and> content b' = drop n (content b)
           \<and> headroom b' = headroom b + n \<and> tailroom b' = tailroom b \<and> b_capacity b' = b_capacity b"
proof -
  from buf_read_ok [OF wf n] obtain b' where b': "buf_read b (int n) = Inr (Some (take n (content b)), b')"
    "buf_wf b'" "content b' = drop n (content b)" "headroom b' = headroom b + n"
    "tailroom b' = tailroom b" "b_capacity b' = b_capacity b" by blast
  have le: "int n \<le> b_len b" using n wf by (auto elim!: buf_wfE)
  from b'(1) have "b' = b\<lparr>b_offset := b_offset b + int n, b_len := b_len b - int n\<rparr>"
    using le wf by (auto simp: buf_read_def buf_read_alloc_def elim!: bindE_InrE)
  with b' le wf show ?thesis by (auto simp: buf_advance_def)
qed

lemma buf_copy_eq: "buf_wf src \<Longrightarrow> buf_copy dest src = buf_write dest (content src)"
  by (simp add: buf_copy_def)

lemma buf_copy_n_ok:
  assumes d: "buf_wf dest" and s: "buf_wf src" and n: "n \<le> length (content src)" and room: "n \<le> tailroom dest"
  shows "\<exists>dest' src'. buf_copy_n dest src (int n) = Inr (True, dest', src')
           \<and> buf_wf dest' \<and> content dest' = content dest @ take n (content src)
           \<and> headroom dest' = headroom dest \<and> tailroom dest' = tailroom dest - n
           \<and> b_capacity dest' = b_capacity dest
           \<and> buf_wf src' \<and> content src' = drop n (content src) \<and> headroom src' = headroom src + n
           \<and> tailroom src' = tailroom src \<and> b_capacity src' = b_capacity src"
proof -
  from buf_read_ok [OF s n] obtain src' where s': "buf_read src (int n) = Inr (Some (take n (content src)), src')"
    "buf_wf src'" "content src' = drop n (content src)" "headroom src' = headroom src + n"
    "tailroom src' = tailroom src" "b_capacity src' = b_capacity src" by blast
  have len: "length (take n (content src)) = n" using n by simp
  from buf_write_ok [OF d, of "take n (content src)"] room len obtain dest' where
    d': "buf_write dest (take n (content src)) = Inr (True, dest')" "buf_wf dest'"
    "content dest' = content dest @ take n (content src)" "headroom dest' = headroom dest"
    "tailroom dest' = tailroom dest - n" "b_capacity dest' = b_capacity dest" by auto
  have "buf_copy_n dest src (int n) = Inr (True, dest', src')"
    using s'(1) d'(1) by (auto simp: buf_copy_n_def buf_read_def split: prod.splits option.splits
        elim!: bindE_InrE)
  with s' d' show ?thesis by blast
qed

lemma buf_peek_u8_eq:
  "buf_wf b \<Longrightarrow> buf_peek_u8 b = Inr (case content b of [] \<Rightarrow> - 1 | x # _ \<Rightarrow> uint x)"
proof -
  assume wf: "buf_wf b"
  then obtain m where m: "b_data b = Some m" "int (length m) = b_capacity b" "0 \<le> b_offset b"
    "0 \<le> b_len b" "b_offset b + b_len b \<le> b_capacity b" by (auto elim: buf_wfE)
  show ?thesis
  proof (cases "b_len b < 1")
    case True
    then have "content b = []" using wf m by (simp flip: length_0_conv)
    then show ?thesis using True wf by (simp add: buf_peek_u8_def)
  next
    case False
    then obtain k where k: "nat (b_len b) = Suc k" by (metis Suc_pred' nat_0_iff not_gr_zero int_one_le_iff_zero_less linorder_not_less zero_less_nat_eq)
    have "nat (b_offset b) < length m" using False m by linarith
    then obtain x ys where x: "drop (nat (b_offset b)) m = x # ys"
      by (metis Cons_nth_drop_Suc)
    then have "content b = x # take k ys" using m k by (simp add: content_def)
    then show ?thesis using False wf m x by (simp add: buf_peek_u8_def buf_peek_def)
  qed
qed

lemma buf_read_u8_Cons:
  assumes "buf_wf b" "content b = x # xs"
  shows "\<exists>b'. buf_read_u8 b = Inr (uint x, b') \<and> buf_wf b' \<and> content b' = xs
           \<and> headroom b' = headroom b + 1 \<and> tailroom b' = tailroom b \<and> b_capacity b' = b_capacity b"
  using buf_advance_ok [OF assms(1), of 1] assms
  by (auto simp: buf_read_u8_def buf_peek_u8_eq uint_nonnegative)

lemma buf_read_u8_Nil: "buf_wf b \<Longrightarrow> content b = [] \<Longrightarrow> buf_read_u8 b = Inr (- 1, b)"
  by (simp add: buf_read_u8_def buf_peek_u8_eq)

text \<open>Integers written in network order are read back by the matching reader.\<close>

lemma buf_u16_roundtrip:
  assumes "buf_wf b" "content b = []" "buf_write_u16 b w = Inr (True, b')"
  shows "\<exists>b''. buf_read_u16 b' = Inr (uint w, b'') \<and> buf_wf b'' \<and> content b'' = []"
  using bb.rd_wr [OF assms(1,2), of "be16 w" b'] assms(3)
  by (auto simp: buf_write_u16_def buf_read_u16_def)

lemma buf_u32_roundtrip:
  assumes "buf_wf b" "content b = []" "buf_write_u32 b w = Inr (True, b')"
  shows "\<exists>b''. buf_read_u32 b' = Inr ((True, w), b'') \<and> buf_wf b'' \<and> content b'' = []"
  using bb.rd_wr [OF assms(1,2), of "be32 w" b'] assms(3)
  by (auto simp: buf_write_u32_def buf_read_u32_def)

end
