(* ===== verification/BufferStr.thy ===== *)
theory BufferStr
  imports Buffer
begin

text \<open>
  The text operations of \<open>buffer.c\<close>: appending formatted text to a
  buffer, trimming it, splitting it into lines, and the character
  classes with the functions that check and rewrite strings by them.

  A \<open>const char *\<close> argument is the list of its characters without
  the terminating null.  A string that is modified in place is the block of memory
  it stands in, and the code finds its end by the null as the C code does.
\<close>

section \<open>C library functions on strings\<close>

definition c_strlen :: "u8 list option \<Rightarrow> int \<Rightarrow> int cres" where
  "c_strlen m p =
     (case m of
        None \<Rightarrow> Inl Null_deref
      | Some xs \<Rightarrow> if 0 \<le> p \<and> 0 \<in> set (drop (nat p) xs)
                   then Inr (int (length (takeWhile (\<lambda>c. c \<noteq> 0) (drop (nat p) xs)))) else Inl Oob)"

definition c_isdigit :: "u8 \<Rightarrow> bool" where
  "c_isdigit c \<longleftrightarrow> 48 \<le> c \<and> c \<le> 57"

definition c_isupper :: "u8 \<Rightarrow> bool" where
  "c_isupper c \<longleftrightarrow> 65 \<le> c \<and> c \<le> 90"

definition c_islower :: "u8 \<Rightarrow> bool" where
  "c_islower c \<longleftrightarrow> 97 \<le> c \<and> c \<le> 122"

definition c_isalpha :: "u8 \<Rightarrow> bool" where
  "c_isalpha c \<longleftrightarrow> c_isupper c \<or> c_islower c"

definition c_isalnum :: "u8 \<Rightarrow> bool" where
  "c_isalnum c \<longleftrightarrow> c_isalpha c \<or> c_isdigit c"

definition c_isascii :: "u8 \<Rightarrow> bool" where
  "c_isascii c \<longleftrightarrow> c \<le> 127"

definition c_iscntrl :: "u8 \<Rightarrow> bool" where
  "c_iscntrl c \<longleftrightarrow> c < 32 \<or> c = 127"

definition c_ispunct :: "u8 \<Rightarrow> bool" where
  "c_ispunct c \<longleftrightarrow> 32 < c \<and> c < 127 \<and> \<not> c_isalnum c"

definition c_isspace :: "u8 \<Rightarrow> bool" where
  "c_isspace c \<longleftrightarrow> c = 32 \<or> 9 \<le> c \<and> c \<le> 13"

definition c_isxdigit :: "u8 \<Rightarrow> bool" where
  "c_isxdigit c \<longleftrightarrow> c_isdigit c \<or> 65 \<le> c \<and> c \<le> 70 \<or> 97 \<le> c \<and> c \<le> 102"

definition strprefix :: "u8 list \<Rightarrow> u8 list \<Rightarrow> bool" where
  "strprefix str prefix \<longleftrightarrow> take (length prefix) str = prefix"

fun has_digit :: "u8 list \<Rightarrow> bool" where
  "has_digit [] = False"
| "has_digit (c # src) = (if c_isdigit c then True else has_digit src)"

text \<open>The bytes \<open>strncpynt\<close> stores at \<open>dest\<close>; nothing for a length of zero.\<close>

definition strncpynt :: "u8 list \<Rightarrow> nat \<Rightarrow> u8 list" where
  "strncpynt src maxlen =
     (if maxlen > 0
      then take (maxlen - 1) (src @ replicate (maxlen - 1) 0) @ [0]
      else [])"


section \<open>Appending and trimming text\<close>

text \<open>
  \<open>buf_printf\<close> takes the complete text its format yields; \<open>vsnprintf\<close>
  stores as much of it as fits before the null and returns the full length.
\<close>

definition buf_printf :: "buffer \<Rightarrow> u8 list \<Rightarrow> (bool \<times> buffer) cres" where
  "buf_printf buf s =
     (if buf_defined buf
      then (let cap = buf_forward_capacity buf
            in if cap > 0
               then (case buf_bend buf of
                       None \<Rightarrow> Inl Null_deref
                     | Some ptr \<Rightarrow>
                         bindE (buf_poke buf ptr (take (nat cap - 1) s @ [0])) (\<lambda>b1.
                         bindE (buf_poke b1 (b_capacity b1 - 1) [0]) (\<lambda>b2.
                         bindE (c_strlen (b_data b2) ptr) (\<lambda>n.
                         Inr (int (length s) < cap, b2\<lparr>b_len := b_len b2 + n\<rparr>)))))
               else Inr (False, buf))
      else Inr (False, buf))"

definition buf_puts :: "buffer \<Rightarrow> u8 list \<Rightarrow> (bool \<times> buffer) cres" where
  "buf_puts buf str =
     (let cap = buf_forward_capacity buf
      in if cap > 0
         then (case buf_bend buf of
                 None \<Rightarrow> Inl Null_deref
               | Some ptr \<Rightarrow>
                   bindE (buf_poke buf ptr (strncpynt str (nat cap))) (\<lambda>b1.
                   bindE (buf_poke b1 (b_capacity b1 - 1) [0]) (\<lambda>b2.
                   bindE (c_strlen (b_data b2) ptr) (\<lambda>n.
                   Inr (True, b2\<lparr>b_len := b_len b2 + n\<rparr>)))))
         else Inr (False, buf))"

definition buf_catrunc :: "buffer \<Rightarrow> u8 list \<Rightarrow> buffer cres" where
  "buf_catrunc buf str =
     (if buf_forward_capacity buf \<le> 1
      then (let n = length str + 1
            in if buf_size_valid n \<and> int n < buf_forward_capacity_total buf
               then buf_poke buf (b_capacity buf - int n) (str @ [0])
               else Inr buf)
      else Inr buf)"

definition buf_rmtail :: "buffer \<Rightarrow> u8 \<Rightarrow> buffer cres" where
  "buf_rmtail buf rm =
     (case buf_blast buf of
        None \<Rightarrow> Inr buf
      | Some cp \<Rightarrow>
          bindE (mem_read (b_data buf) cp 1) (\<lambda>bs.
          if hd bs = rm
          then bindE (buf_poke buf cp [0]) (\<lambda>b. Inr (b\<lparr>b_len := b_len b - 1\<rparr>))
          else Inr buf))"

definition buf_null_terminate :: "buffer \<Rightarrow> buffer cres" where
  "buf_null_terminate buf =
     bindE (case buf_blast buf of
              None \<Rightarrow> Inr False
            | Some p \<Rightarrow> bindE (mem_read (b_data buf) p 1) (\<lambda>bs. Inr (hd bs = 0))) (\<lambda>terminated.
     if terminated then Inr buf
     else (let buf' = (if \<not> buf_safe buf 1 then snd (buf_inc_len buf (- 1)) else buf)
           in bindE (buf_write_u8 buf' 0) (\<lambda>(_, b). Inr b)))"

text \<open>
  \<open>"%02x"\<close> and \<open>"%02X"\<close>; the lower eight bits of \<open>space_break_flags\<close> are the number of
  bytes between two separators, and \<open>junk\<close> is the uninitialised memory of \<open>alloc_buf_gc\<close>.
\<close>

definition hex_digit :: "bool \<Rightarrow> nat \<Rightarrow> u8" where
  "hex_digit caps n = word_of_nat (if n < 10 then 48 + n else (if caps then 55 else 87) + n)"

definition hex_byte :: "bool \<Rightarrow> u8 \<Rightarrow> u8 list" where
  "hex_byte caps b = [hex_digit caps (unat b div 16), hex_digit caps (unat b mod 16)]"

fun format_hex_loop ::
    "u8 list \<Rightarrow> nat \<Rightarrow> bool \<Rightarrow> nat \<Rightarrow> u8 list option \<Rightarrow> buffer \<Rightarrow> buffer cres" where
  "format_hex_loop [] i caps block separator out = Inr out"
| "format_hex_loop (d # data) i caps block separator out =
     bindE (case separator of
              None \<Rightarrow> Inr out
            | Some sep \<Rightarrow>
                if i \<noteq> 0
                then (if block = 0 then Inl Div_zero
                      else if i mod block = 0
                      then bindE (buf_printf out sep) (\<lambda>(_, out'). Inr out')
                      else Inr out)
                else Inr out) (\<lambda>out1.
     bindE (buf_printf out1 (hex_byte caps d)) (\<lambda>(_, out2).
     format_hex_loop data (Suc i) caps block separator out2))"

definition format_hex_ex ::
    "(nat \<Rightarrow> u8 list) \<Rightarrow> u8 list \<Rightarrow> nat \<Rightarrow> u32 \<Rightarrow> u8 list option \<Rightarrow> buffer cres" where
  "format_hex_ex junk data maxoutput space_break_flags separator =
     (let sz = length data;
          bytes_per_hexblock = unat (space_break_flags AND 0xFF);
          separator_len = (case separator of None \<Rightarrow> 0 | Some sep \<Rightarrow> length sep)
      in if maxoutput = 0 \<and> bytes_per_hexblock = 0 then Inl Div_zero
         else (let out_len = (if maxoutput > 0 then maxoutput
                              else sz * 2 + (sz div bytes_per_hexblock) * separator_len + 2)
               in bindE (alloc_buf_gc junk out_len) (\<lambda>out.
                  bindE (format_hex_loop data 0 (space_break_flags AND 0x100 \<noteq> 0) bytes_per_hexblock separator out)
                    (\<lambda>out'. buf_catrunc out' (cstr ''[more...]'')))))"

definition format_hex :: "(nat \<Rightarrow> u8 list) \<Rightarrow> u8 list \<Rightarrow> nat \<Rightarrow> buffer cres" where
  "format_hex junk data maxoutput = format_hex_ex junk data maxoutput 4 (Some (cstr '' ''))"


section \<open>Character classes\<close>

abbreviation (input) CC_ANY :: u32 where "CC_ANY \<equiv> 1"
abbreviation (input) CC_NULL :: u32 where "CC_NULL \<equiv> 2"
abbreviation (input) CC_ALNUM :: u32 where "CC_ALNUM \<equiv> 4"
abbreviation (input) CC_ALPHA :: u32 where "CC_ALPHA \<equiv> 8"
abbreviation (input) CC_ASCII :: u32 where "CC_ASCII \<equiv> 16"
abbreviation (input) CC_CNTRL :: u32 where "CC_CNTRL \<equiv> 32"
abbreviation (input) CC_DIGIT :: u32 where "CC_DIGIT \<equiv> 64"
abbreviation (input) CC_PRINT :: u32 where "CC_PRINT \<equiv> 128"
abbreviation (input) CC_PUNCT :: u32 where "CC_PUNCT \<equiv> 256"
abbreviation (input) CC_SPACE :: u32 where "CC_SPACE \<equiv> 512"
abbreviation (input) CC_XDIGIT :: u32 where "CC_XDIGIT \<equiv> 1024"
abbreviation (input) CC_BLANK :: u32 where "CC_BLANK \<equiv> 2048"
abbreviation (input) CC_NEWLINE :: u32 where "CC_NEWLINE \<equiv> 4096"
abbreviation (input) CC_CR :: u32 where "CC_CR \<equiv> 8192"
abbreviation (input) CC_BACKSLASH :: u32 where "CC_BACKSLASH \<equiv> 16384"
abbreviation (input) CC_UNDERBAR :: u32 where "CC_UNDERBAR \<equiv> 32768"
abbreviation (input) CC_DASH :: u32 where "CC_DASH \<equiv> 65536"
abbreviation (input) CC_DOT :: u32 where "CC_DOT \<equiv> 131072"
abbreviation (input) CC_COMMA :: u32 where "CC_COMMA \<equiv> 262144"
abbreviation (input) CC_COLON :: u32 where "CC_COLON \<equiv> 524288"
abbreviation (input) CC_SLASH :: u32 where "CC_SLASH \<equiv> 1048576"
abbreviation (input) CC_SINGLE_QUOTE :: u32 where "CC_SINGLE_QUOTE \<equiv> 2097152"
abbreviation (input) CC_DOUBLE_QUOTE :: u32 where "CC_DOUBLE_QUOTE \<equiv> 4194304"
abbreviation (input) CC_REVERSE_QUOTE :: u32 where "CC_REVERSE_QUOTE \<equiv> 8388608"
abbreviation (input) CC_AT :: u32 where "CC_AT \<equiv> 16777216"
abbreviation (input) CC_EQUAL :: u32 where "CC_EQUAL \<equiv> 33554432"
abbreviation (input) CC_LESS_THAN :: u32 where "CC_LESS_THAN \<equiv> 67108864"
abbreviation (input) CC_GREATER_THAN :: u32 where "CC_GREATER_THAN \<equiv> 134217728"
abbreviation (input) CC_PIPE :: u32 where "CC_PIPE \<equiv> 268435456"
abbreviation (input) CC_QUESTION_MARK :: u32 where "CC_QUESTION_MARK \<equiv> 536870912"
abbreviation (input) CC_ASTERISK :: u32 where "CC_ASTERISK \<equiv> 1073741824"
abbreviation (input) CC_NAME :: u32 where "CC_NAME \<equiv> CC_ALNUM OR CC_UNDERBAR"
abbreviation (input) CC_CRLF :: u32 where "CC_CRLF \<equiv> CC_CR OR CC_NEWLINE"

text \<open>\<open>flags & mask\<close> as a condition.\<close>

definition has_flag :: "u32 \<Rightarrow> u32 \<Rightarrow> bool" where
  "has_flag flags m \<longleftrightarrow> flags AND m \<noteq> 0"

definition char_class :: "u8 \<Rightarrow> u32 \<Rightarrow> bool" where
  "char_class c flags =
     (if flags = 0 then False
      else if has_flag flags CC_ANY then True
      else if has_flag flags CC_NULL \<and> c = 0 then True
      else if has_flag flags CC_ALNUM \<and> c_isalnum c then True
      else if has_flag flags CC_ALPHA \<and> c_isalpha c then True
      else if has_flag flags CC_ASCII \<and> c_isascii c then True
      else if has_flag flags CC_CNTRL \<and> c_iscntrl c then True
      else if has_flag flags CC_DIGIT \<and> c_isdigit c then True
      else if has_flag flags CC_PRINT \<and> c \<ge> 32 \<and> c \<noteq> 127 then True
      else if has_flag flags CC_PUNCT \<and> c_ispunct c then True
      else if has_flag flags CC_SPACE \<and> c_isspace c then True
      else if has_flag flags CC_XDIGIT \<and> c_isxdigit c then True
      else if has_flag flags CC_BLANK \<and> (c = 32 \<or> c = 9) then True
      else if has_flag flags CC_NEWLINE \<and> c = 10 then True
      else if has_flag flags CC_CR \<and> c = 13 then True
      else if has_flag flags CC_BACKSLASH \<and> c = 92 then True
      else if has_flag flags CC_UNDERBAR \<and> c = 95 then True
      else if has_flag flags CC_DASH \<and> c = 45 then True
      else if has_flag flags CC_DOT \<and> c = 46 then True
      else if has_flag flags CC_COMMA \<and> c = 44 then True
      else if has_flag flags CC_COLON \<and> c = 58 then True
      else if has_flag flags CC_SLASH \<and> c = 47 then True
      else if has_flag flags CC_SINGLE_QUOTE \<and> c = 39 then True
      else if has_flag flags CC_DOUBLE_QUOTE \<and> c = 34 then True
      else if has_flag flags CC_REVERSE_QUOTE \<and> c = 96 then True
      else if has_flag flags CC_AT \<and> c = 64 then True
      else if has_flag flags CC_EQUAL \<and> c = 61 then True
      else if has_flag flags CC_LESS_THAN \<and> c = 60 then True
      else if has_flag flags CC_GREATER_THAN \<and> c = 62 then True
      else if has_flag flags CC_PIPE \<and> c = 124 then True
      else if has_flag flags CC_QUESTION_MARK \<and> c = 63 then True
      else if has_flag flags CC_ASTERISK \<and> c = 42 then True
      else False)"

definition char_inc_exc :: "u8 \<Rightarrow> u32 \<Rightarrow> u32 \<Rightarrow> bool" where
  "char_inc_exc c inclusive exclusive \<longleftrightarrow> char_class c inclusive \<and> \<not> char_class c exclusive"

fun string_class :: "u8 list \<Rightarrow> u32 \<Rightarrow> u32 \<Rightarrow> bool" where
  "string_class [] inclusive exclusive = True"
| "string_class (c # str) inclusive exclusive =
     (if \<not> char_inc_exc c inclusive exclusive then False
      else string_class str inclusive exclusive)"

text \<open>
  \<open>string_mod\<close> reads at \<open>inp\<close> and writes at \<open>str\<close>, two indices of the same
  block.
\<close>

function string_mod_loop ::
    "u32 \<Rightarrow> u32 \<Rightarrow> u8 \<Rightarrow> nat \<Rightarrow> nat \<Rightarrow> bool \<Rightarrow> u8 list \<Rightarrow> (bool \<times> u8 list) cres" where
  "string_mod_loop inclusive exclusive replace inp str ret m =
     (if inp < length m
      then (let c = m ! inp
            in if c \<noteq> 0
               then (let ok = char_inc_exc c inclusive exclusive;
                         c' = (if ok then c else replace);
                         ret' = (ret \<and> ok)
                     in if c' \<noteq> 0
                        then (if str < length m
                              then string_mod_loop inclusive exclusive replace (Suc inp) (Suc str) ret'
                                     (m[str := c'])
                              else Inl Oob)
                        else string_mod_loop inclusive exclusive replace (Suc inp) str ret' m)
               else bindE (arr_set m (int str) 0) (\<lambda>m'. Inr (ret, m')))
      else Inl Oob)"
  by pat_completeness auto
termination
  by (relation "measure (\<lambda>(_, _, _, inp, _, _, m). length m - inp)") auto

definition string_mod :: "u8 list \<Rightarrow> u32 \<Rightarrow> u32 \<Rightarrow> u8 \<Rightarrow> (bool \<times> u8 list) cres" where
  "string_mod str inclusive exclusive replace =
     string_mod_loop inclusive exclusive replace 0 0 True str"

function string_check_buf_loop :: "buffer \<Rightarrow> u32 \<Rightarrow> u32 \<Rightarrow> int \<Rightarrow> bool cres" where
  "string_check_buf_loop buf inclusive exclusive i =
     (if i < buf_len buf
      then bindE (buf_peek buf i 1) (\<lambda>bs.
           if \<not> char_inc_exc (hd bs) inclusive exclusive then Inr False
           else string_check_buf_loop buf inclusive exclusive (i + 1))
      else Inr True)"
  by pat_completeness auto
termination
  by (relation "measure (\<lambda>(buf, _, _, i). nat (buf_len buf - i))") auto

definition string_check_buf :: "buffer \<Rightarrow> u32 \<Rightarrow> u32 \<Rightarrow> bool cres" where
  "string_check_buf buf inclusive exclusive = string_check_buf_loop buf inclusive exclusive 0"

text \<open>
  \<open>string_mod_const\<close> works on a copy of the string: its characters and a null.
\<close>

definition string_mod_const :: "u8 list option \<Rightarrow> u32 \<Rightarrow> u32 \<Rightarrow> u8 \<Rightarrow> u8 list option cres" where
  "string_mod_const str inclusive exclusive replace =
     (case str of
        None \<Rightarrow> Inr None
      | Some s \<Rightarrow> bindE (string_mod (s @ [0]) inclusive exclusive replace) (\<lambda>(_, m). Inr (Some m)))"

function string_replace_leading_loop :: "u8 list \<Rightarrow> u8 \<Rightarrow> u8 \<Rightarrow> nat \<Rightarrow> u8 list cres" where
  "string_replace_leading_loop m match replace i =
     (if i < length m
      then (if m ! i \<noteq> 0 \<and> m ! i = match
            then string_replace_leading_loop (m[i := replace]) match replace (Suc i)
            else Inr m)
      else Inl Oob)"
  by pat_completeness auto
termination
  by (relation "measure (\<lambda>(m, _, _, i). length m - i)") auto

definition string_replace_leading :: "u8 list \<Rightarrow> u8 \<Rightarrow> u8 \<Rightarrow> u8 list cres" where
  "string_replace_leading str match replace =
     bindE (c_assert (match \<noteq> 0)) (\<lambda>_.
     string_replace_leading_loop str match replace 0)"


section \<open>Trimming and terminating strings\<close>

fun skip_leading_whitespace :: "u8 list \<Rightarrow> u8 list" where
  "skip_leading_whitespace [] = []"
| "skip_leading_whitespace (c # str) =
     (if \<not> (c = 32 \<or> c = 9) then c # str else skip_leading_whitespace str)"

definition string_null_terminate :: "u8 list \<Rightarrow> int \<Rightarrow> int \<Rightarrow> u8 list cres" where
  "string_null_terminate str len capacity =
     bindE (c_assert (len \<ge> 0 \<and> len \<le> capacity \<and> capacity > 0)) (\<lambda>_.
     if len < capacity then arr_set str len 0
     else if len = capacity then arr_set str (len - 1) 0
     else Inr str)"

lemma takeWhile_update_zero:
  "i < length (xs :: u8 list) \<Longrightarrow> length (takeWhile (\<lambda>c. c \<noteq> 0) (xs[i := 0])) \<le> i"
proof (rule ccontr)
  assume i: "i < length xs" and "\<not> length (takeWhile (\<lambda>c. c \<noteq> 0) (xs[i := 0])) \<le> i"
  then have "takeWhile (\<lambda>c. c \<noteq> 0) (xs[i := 0]) ! i \<in> set (takeWhile (\<lambda>c. c \<noteq> 0) (xs[i := 0]))"
    by (intro nth_mem) simp
  then have "takeWhile (\<lambda>c. c \<noteq> 0) (xs[i := 0]) ! i \<noteq> 0"
    by (blast dest: set_takeWhileD)
  moreover have "takeWhile (\<lambda>c. c \<noteq> 0) (xs[i := 0]) ! i = xs[i := 0] ! i"
    using \<open>\<not> _ \<le> i\<close> by (intro takeWhile_nth) simp
  ultimately show False using i by simp
qed

function rm_trailing_chars :: "u8 list \<Rightarrow> u8 list \<Rightarrow> u8 list cres" where
  "rm_trailing_chars str what_to_delete =
     bindE (c_strlen (Some str) 0) (\<lambda>n.
     if n > 0
     then (let cp = nat (n - 1)
           in if str ! cp \<in> set what_to_delete
              then rm_trailing_chars (str[cp := 0]) what_to_delete
              else Inr str)
     else Inr str)"
  by pat_completeness auto
termination
proof (relation "measure (\<lambda>(str, _). length (takeWhile (\<lambda>c. c \<noteq> 0) str))", goal_cases)
  case (2 str what n cp)
  then have n: "n = int (length (takeWhile (\<lambda>c. c \<noteq> 0) str))"
    by (auto simp: c_strlen_def split: if_splits)
  have "cp < length str"
    using 2 n length_takeWhile_le [of "\<lambda>c. c \<noteq> 0" str] by linarith
  from takeWhile_update_zero [OF this]
  have "length (takeWhile (\<lambda>c. c \<noteq> 0) (str[cp := 0])) < length (takeWhile (\<lambda>c. c \<noteq> 0) str)"
    using 2 n by linarith
  then show ?case by (simp only: in_measure prod.case)
qed simp

definition chomp :: "u8 list \<Rightarrow> u8 list cres" where
  "chomp str = rm_trailing_chars str [13, 10]"

function buf_chomp_loop :: "buffer \<Rightarrow> buffer cres" where
  "buf_chomp_loop buf =
     (case buf_blast buf of
        None \<Rightarrow> Inr buf
      | Some lst \<Rightarrow>
          bindE (mem_read (b_data buf) lst 1) (\<lambda>bs.
          if char_class (hd bs) (CC_CRLF OR CC_NULL)
          then (case buf_inc_len buf (- 1) of
                  (False, buf') \<Rightarrow> Inr buf'
                | (True, buf') \<Rightarrow> buf_chomp_loop buf')
          else Inr buf))"
  by pat_completeness auto
termination
  by (relation "measure (\<lambda>buf. nat (b_len buf))")
     (auto simp: buf_blast_def buf_inc_len_def buf_len_def split: if_splits)

definition buf_chomp :: "buffer \<Rightarrow> buffer cres" where
  "buf_chomp buf = bindE (buf_chomp_loop buf) buf_null_terminate"


section \<open>Matching and splitting\<close>

definition buf_string_match_head_str :: "buffer \<Rightarrow> u8 list \<Rightarrow> bool cres" where
  "buf_string_match_head_str src match =
     (let sz = length match
      in if \<not> buf_size_valid sz \<or> int sz > b_len src then Inr False
         else bindE (buf_peek src 0 (int sz)) (\<lambda>bs. Inr (bs = match)))"

definition buf_string_compare_advance :: "buffer \<Rightarrow> u8 list \<Rightarrow> (bool \<times> buffer) cres" where
  "buf_string_compare_advance src match =
     bindE (buf_string_match_head_str src match) (\<lambda>r.
     if r then Inr (True, snd (buf_advance src (int (length match))))
     else Inr (False, src))"

lemma buf_read_u8_decr:
  "buf_read_u8 b = Inr (c, b') \<Longrightarrow> 0 \<le> c \<Longrightarrow> 0 < b_len b \<and> b_len b' = b_len b - 1"
  by (auto simp: buf_read_u8_def buf_peek_u8_def buf_advance_def buf_len_def
      split: if_splits elim!: bindE_InrE)

function buf_substring_len_loop :: "int \<Rightarrow> int \<Rightarrow> buffer \<Rightarrow> int cres" where
  "buf_substring_len_loop delim i tmp =
     bindE (buf_read_u8 tmp) (\<lambda>(c, tmp').
     if c \<ge> 0
     then (if c = delim then Inr (i + 1) else buf_substring_len_loop delim (i + 1) tmp')
     else Inr (- 1))"
  by pat_completeness auto
termination
  by (relation "measure (\<lambda>(_, _, b). nat (b_len b))") (auto dest: buf_read_u8_decr)

definition buf_substring_len :: "buffer \<Rightarrow> int \<Rightarrow> int cres" where
  "buf_substring_len buf delim = buf_substring_len_loop delim 0 buf"

text \<open>
  The loop of \<open>buf_parse\<close>: \<open>line\<close> is the caller's array of \<open>size\<close>
  characters.  The result is \<open>eol\<close>, the array and the buffer.
\<close>

function buf_parse_loop ::
    "int \<Rightarrow> int \<Rightarrow> int \<Rightarrow> u8 list \<Rightarrow> buffer \<Rightarrow> (bool \<times> u8 list \<times> buffer) cres" where
  "buf_parse_loop delim sz n line buf =
     bindE (buf_peek_u8 buf) (\<lambda>c.
     if c < 0 then bindE (arr_set line n 0) (\<lambda>line'. Inr (True, line', buf))
     else if c = delim
     then bindE (arr_set line n 0) (\<lambda>line'. Inr (False, line', snd (buf_advance buf 1)))
     else if n \<ge> sz - 1 then Inr (False, line, buf)
     else (let buf' = snd (buf_advance buf 1)
           in bindE (arr_set line n (word_of_int c)) (\<lambda>line'.
              if c \<noteq> 0 then buf_parse_loop delim sz (n + 1) line' buf'
              else Inr (False, line', buf'))))"
  by pat_completeness auto
termination
  by (relation "measure (\<lambda>(_, sz, n, _, _). nat (sz - n))") auto

definition buf_parse :: "buffer \<Rightarrow> int \<Rightarrow> u8 list \<Rightarrow> int \<Rightarrow> (bool \<times> u8 list \<times> buffer) cres" where
  "buf_parse buf delim line sz =
     bindE (c_assert (sz > 0)) (\<lambda>_.
     bindE (buf_parse_loop delim sz 0 line buf) (\<lambda>(eol, line', buf').
     bindE (arr_set line' (sz - 1) 0) (\<lambda>line''.
     bindE (c_strlen (Some line'') 0) (\<lambda>n.
     Inr (\<not> (eol \<and> n = 0), line'', buf')))))"


declare string_mod_loop.simps [simp del] string_check_buf_loop.simps [simp del]
  string_replace_leading_loop.simps [simp del] rm_trailing_chars.simps [simp del]
  buf_chomp_loop.simps [simp del] buf_substring_len_loop.simps [simp del] buf_parse_loop.simps [simp del]


section \<open>Character classes: correctness\<close>

lemma has_flag_or [simp]: "has_flag (f OR g) m \<longleftrightarrow> has_flag f m \<or> has_flag g m"
proof -
  have "(f OR g) AND m = (f AND m) OR (g AND m)"
    by (rule bit.conj_disj_distrib2)
  then show ?thesis by (simp add: has_flag_def or_eq_0_iff)
qed

lemma has_flag_zero [simp]: "\<not> has_flag 0 m"
  by (simp add: has_flag_def)

lemma has_flag_nonzero: "has_flag f m \<Longrightarrow> f \<noteq> 0"
  by (auto simp: has_flag_def)

lemma char_class_zero [simp]: "\<not> char_class c 0"
  by (simp add: char_class_def)

text \<open>The tests of \<open>char_class\<close> as a table: one flag with its condition per entry.\<close>

definition cc_table :: "u8 \<Rightarrow> (u32 \<times> bool) list" where
  "cc_table c =
     [(CC_ANY, True), (CC_NULL, c = 0), (CC_ALNUM, c_isalnum c), (CC_ALPHA, c_isalpha c),
      (CC_ASCII, c_isascii c), (CC_CNTRL, c_iscntrl c), (CC_DIGIT, c_isdigit c),
      (CC_PRINT, c \<ge> 32 \<and> c \<noteq> 127), (CC_PUNCT, c_ispunct c), (CC_SPACE, c_isspace c),
      (CC_XDIGIT, c_isxdigit c), (CC_BLANK, c = 32 \<or> c = 9), (CC_NEWLINE, c = 10), (CC_CR, c = 13),
      (CC_BACKSLASH, c = 92), (CC_UNDERBAR, c = 95), (CC_DASH, c = 45), (CC_DOT, c = 46),
      (CC_COMMA, c = 44), (CC_COLON, c = 58), (CC_SLASH, c = 47), (CC_SINGLE_QUOTE, c = 39),
      (CC_DOUBLE_QUOTE, c = 34), (CC_REVERSE_QUOTE, c = 96), (CC_AT, c = 64), (CC_EQUAL, c = 61),
      (CC_LESS_THAN, c = 60), (CC_GREATER_THAN, c = 62), (CC_PIPE, c = 124),
      (CC_QUESTION_MARK, c = 63), (CC_ASTERISK, c = 42)]"

lemma if_then_True: "(if P then True else Q) \<longleftrightarrow> P \<or> Q"
  by simp

lemma char_class_table: "char_class c f \<longleftrightarrow> (\<exists>(m, p)\<in>set (cc_table c). has_flag f m \<and> p)"
proof (cases "f = 0")
  case True
  then show ?thesis by (auto simp: char_class_def)
next
  case False
  then show ?thesis
    unfolding char_class_def cc_table_def if_then_True list.set bex_simps prod.case
    by (simp only: if_False simp_thms)
qed

text \<open>The class of a union of flags is the union of the classes.\<close>

lemma char_class_or: "char_class c (f OR g) \<longleftrightarrow> char_class c f \<or> char_class c g"
  unfolding char_class_table by auto

lemma string_class_all: "string_class s inc exc \<longleftrightarrow> (\<forall>c\<in>set s. char_inc_exc c inc exc)"
  by (induction s) auto


section \<open>Rewriting a string in place: correctness\<close>

text \<open>What \<open>string_mod\<close> leaves of a string: allowed characters stay, others are replaced or dropped.\<close>

definition mod_char :: "u32 \<Rightarrow> u32 \<Rightarrow> u8 \<Rightarrow> u8 \<Rightarrow> u8 list" where
  "mod_char inc exc rep c =
     (if char_inc_exc c inc exc then [c] else if rep = 0 then [] else [rep])"

definition mod_string :: "u32 \<Rightarrow> u32 \<Rightarrow> u8 \<Rightarrow> u8 list \<Rightarrow> u8 list" where
  "mod_string inc exc rep s = concat (map (mod_char inc exc rep) s)"

lemma mod_string_length: "length (mod_string inc exc rep s) \<le> length s"
  by (induction s) (auto simp: mod_string_def mod_char_def)

lemma string_mod_loop_eq:
  assumes "drop inp m = s @ 0 # rest" "0 \<notin> set s" "str \<le> inp"
  shows "string_mod_loop inc exc rep inp str ret m =
           Inr (ret \<and> string_class s inc exc, patch m str (mod_string inc exc rep s @ [0]))"
  using assms
proof (induction s arbitrary: inp str ret m)
  case Nil
  then have i: "inp < length m" "m ! inp = 0"
    by (metis Cons_nth_drop_Suc append_Nil drop_eq_Nil list.discI list.inject not_le)+
  with Nil show ?case
    by (subst string_mod_loop.simps) (simp add: mod_string_def patch_single)
next
  case (Cons c s)
  then have i: "inp < length m" by (metis append_Cons drop_eq_Nil list.discI not_le)
  then have c: "m ! inp = c" and dr: "drop (Suc inp) m = s @ 0 # rest"
    using Cons.prems(1) by (simp_all add: Cons_nth_drop_Suc [symmetric])
  have c0: "c \<noteq> 0" and s0: "0 \<notin> set s" using Cons.prems by auto
  define ok where "ok = char_inc_exc c inc exc"
  define c' where "c' = (if ok then c else rep)"
  show ?case
  proof (cases "c' = 0")
    case True
    then have "\<not> ok" "rep = 0" using c0 by (auto simp: c'_def split: if_splits)
    then show ?thesis
      using Cons.IH [OF dr s0, of str "ret \<and> ok"] Cons.prems i c c0 True
      by (subst string_mod_loop.simps) (simp add: Let_def ok_def mod_string_def mod_char_def c'_def)
  next
    case False
    let ?m = "m[str := c']"
    have dr': "drop (Suc inp) ?m = s @ 0 # rest" using dr Cons.prems(3) by simp
    have mc: "mod_char inc exc rep c = [c']"
      using False by (auto simp: mod_char_def c'_def ok_def split: if_splits)
    have "string_mod_loop inc exc rep (Suc inp) (Suc str) (ret \<and> ok) ?m =
            Inr ((ret \<and> ok) \<and> string_class s inc exc, patch ?m (Suc str) (mod_string inc exc rep s @ [0]))"
      using Cons.prems(3) by (intro Cons.IH [OF dr' s0]) simp
    also have "patch ?m (Suc str) (mod_string inc exc rep s @ [0]) =
                 patch m str (mod_string inc exc rep (c # s) @ [0])"
      using Cons.prems(3) i mc by (simp add: patch_Cons mod_string_def)
    finally show ?thesis
      using i c c0 False Cons.prems(3)
      by (subst string_mod_loop.simps) (auto simp: Let_def ok_def c'_def)
  qed
qed

lemma string_mod_eq:
  "0 \<notin> set s \<Longrightarrow>
   string_mod (s @ 0 # rest) inc exc rep =
     Inr (string_class s inc exc, patch (s @ 0 # rest) 0 (mod_string inc exc rep s @ [0]))"
  unfolding string_mod_def by (subst string_mod_loop_eq) auto

lemma mod_string_class:
  "rep = 0 \<or> char_inc_exc rep inc exc \<Longrightarrow> string_class (mod_string inc exc rep s) inc exc"
  by (auto simp: string_class_all mod_string_def mod_char_def split: if_splits)

lemma mod_string_id: "string_class s inc exc \<Longrightarrow> mod_string inc exc rep s = s"
  by (induction s) (auto simp: mod_string_def mod_char_def split: if_splits)


section \<open>Appending text: correctness\<close>

lemma c_strlen_eq:
  "0 \<notin> set s \<Longrightarrow> drop (nat p) xs = s @ 0 # rest \<Longrightarrow> 0 \<le> p \<Longrightarrow> c_strlen (Some xs) p = Inr (int (length s))"
  by (simp add: c_strlen_def takeWhile_tail) (metis (mono_tags, lifting) takeWhile_eq_all_conv)

text \<open>
  \<open>buf_printf\<close> appends as much of the text as fits before a final null,
  reports whether all of it did, and keeps the buffer well-formed.
\<close>

lemma buf_printf_ok:
  assumes wf: "buf_wf buf" and room: "0 < tailroom buf" and s: "0 \<notin> set s"
  shows "\<exists>buf'. buf_printf buf s = Inr (length s < tailroom buf, buf') \<and> buf_wf buf'
           \<and> content buf' = content buf @ take (tailroom buf - 1) s
           \<and> headroom buf' = headroom buf \<and> b_capacity buf' = b_capacity buf"
proof -
  from wf obtain m where m: "b_data buf = Some m" "int (length m) = b_capacity buf"
    "b_capacity buf < 1000000" "0 \<le> b_offset buf" "0 \<le> b_len buf"
    "b_offset buf + b_len buf \<le> b_capacity buf" by (rule buf_wfE)
  define i where "i = nat (b_offset buf) + nat (b_len buf)"
  define t where "t = take (tailroom buf - 1) s"
  define m1 where "m1 = patch m i (t @ [0])"
  define m2 where "m2 = patch m1 (length m - 1) [0]"
  have tr: "tailroom buf = length m - i" "i < length m"
    using m room by (auto simp: tailroom_def i_def)
  have lt: "length t \<le> length m - i - 1" using tr by (simp add: t_def)
  have fc: "buf_forward_capacity buf = int (length m - i)"
    using m wf tr by (simp add: buf_forward_capacity_def i_def)
  have it: "i + length (t @ [0]) \<le> length m" using lt tr by simp
  have l1: "length m1 = length m" using it by (simp add: m1_def del: length_append)
  have l2: "length m2 = length m" using l1 tr by (simp add: m2_def)
  have p1: "mem_write (Some m) (int i) (t @ [0]) = Inr (Some m1)"
    using it by (simp add: m1_def)
  have p2: "mem_write (Some m1) (int (length m) - 1) [0] = Inr (Some m2)"
    using l1 tr by (subst mem_write_Some) (auto simp: m2_def nat_diff_distrib')
  have dr: "\<exists>rest. drop i m2 = t @ 0 # rest"
  proof -
    have d1: "drop i m1 = (t @ [0]) @ drop (i + length (t @ [0])) m"
      using it tr by (simp add: m1_def patch_def)
    have "drop i m2 = (drop i m1)[length m - 1 - i := 0]"
      using l1 tr by (simp add: m2_def patch_single drop_update_swap)
    also have "\<dots> = t @ (0 # drop (i + length (t @ [0])) m)[length m - 1 - i - length t := 0]"
      using d1 lt by (simp add: list_update_append)
    finally show ?thesis by (cases "length m - 1 - i - length t") auto
  qed
  then obtain rest where rest: "drop i m2 = t @ 0 # rest" by blast
  have t0: "0 \<notin> set t" using s by (auto simp: t_def dest: in_set_takeD)
  have sl: "c_strlen (Some m2) (int i) = Inr (int (length t))"
    using t0 rest by (intro c_strlen_eq) auto
  have bend: "buf_bend buf = Some (int i)"
    using wf m by (simp add: buf_bend_def i_def)
  let ?b = "buf\<lparr>b_data := Some m2, b_len := b_len buf + int (length t)\<rparr>"
  have "buf_printf buf s = Inr (length s < tailroom buf, ?b)"
  proof -
    have tt: "take (nat (b_capacity buf - int i) - Suc 0) s = t"
      using tr m by (simp add: t_def nat_diff_distrib' flip: m(2))
    have "(int (length s) < b_capacity buf - int i) = (length s < tailroom buf)"
      using tr m by (auto simp flip: m(2))
    moreover have "int i < b_capacity buf" using tr m by simp
    ultimately show ?thesis
      using fc bend p1 p2 sl m(1) tr tt
      by (simp add: buf_printf_def buf_defined_def buf_poke_def Let_def m(2) del: mem_write_Some)
  qed
  moreover have "buf_wf ?b"
    using m l2 lt tr by (intro buf_wfI [where m = m2]) (auto simp: i_def)
  moreover have "content ?b = content buf @ t"
  proof -
    have tk: "take i m2 = take i m"
      using tr it l1 by (simp add: m2_def m1_def)
    have "content ?b = take (nat (b_len buf) + length t) (drop (nat (b_offset buf)) m2)"
      using m by (simp add: content_def nat_add_distrib)
    also have "\<dots> = take (nat (b_len buf)) (drop (nat (b_offset buf)) m2)
                    @ take (length t) (drop i m2)"
      unfolding take_add i_def drop_drop by (simp only: add.commute)
    also have "take (nat (b_len buf)) (drop (nat (b_offset buf)) m2) = drop (nat (b_offset buf)) (take i m2)"
      by (simp add: i_def take_drop add.commute)
    also have "\<dots> = content buf"
      using tk m by (simp add: i_def content_def take_drop add.commute)
    finally show ?thesis using rest by simp
  qed
  ultimately show ?thesis
    by (intro exI [of _ ?b]) (auto simp: t_def headroom_def)
qed


section \<open>Splitting a buffer into lines: correctness\<close>

lemma buf_parse_loop_stop:
  assumes "buf_wf b" "content b = xs @ ys" "0 \<notin> set xs" "delim \<notin> uint ` set xs"
    and "int (length line) = sz" "0 \<le> n" "n + int (length xs) < sz"
    and "ys = [] \<or> uint (hd ys) = delim"
  shows "\<exists>b'. buf_parse_loop delim sz n line b = Inr (ys = [], patch line (nat n) (xs @ [0]), b')
           \<and> buf_wf b' \<and> content b' = tl ys"
  using assms
proof (induction xs arbitrary: b n line)
  case Nil
  show ?case
  proof (cases ys)
    case Nil
    then show ?thesis
      using Nil.prems
      by (subst buf_parse_loop.simps) (auto simp: buf_peek_u8_eq patch_single)
  next
    case (Cons y zs)
    with Nil.prems buf_advance_ok [of b 1] show ?thesis
      by (subst buf_parse_loop.simps) (auto simp: buf_peek_u8_eq patch_single uint_nonnegative)
  qed
next
  case (Cons x xs)
  from buf_advance_ok [of b 1] Cons.prems obtain b1 where b1: "buf_advance b 1 = (True, b1)"
    "buf_wf b1" "content b1 = xs @ ys" by auto
  have x: "uint x \<noteq> delim" "uint x \<noteq> 0"
    using Cons.prems by (auto simp: uint_0_iff)
  let ?line = "line[nat n := x]"
  have "\<exists>b'. buf_parse_loop delim sz (n + 1) ?line b1 = Inr (ys = [], patch ?line (nat (n + 1)) (xs @ [0]), b')
           \<and> buf_wf b' \<and> content b' = tl ys"
    using Cons.prems b1 by (intro Cons.IH) auto
  moreover have "patch ?line (nat (n + 1)) (xs @ [0]) = patch line (nat n) (x # xs @ [0])"
    using Cons.prems by (simp add: patch_Cons nat_add_distrib)
  ultimately show ?case
    using Cons.prems b1 x
    by (subst buf_parse_loop.simps) (auto simp: buf_peek_u8_eq uint_nonnegative not_less)
qed

lemma buf_parse_line:
  assumes "buf_wf b" "content b = xs @ ys" "0 \<notin> set xs" "delim \<notin> uint ` set xs"
    and "int (length line) = sz" "int (length xs) < sz"
    and "ys = [] \<or> uint (hd ys) = delim"
  shows "\<exists>b' rest. buf_parse b delim line sz = Inr (content b \<noteq> [], xs @ 0 # rest, b')
           \<and> buf_wf b' \<and> content b' = tl ys"
proof -
  from buf_parse_loop_stop [of b xs ys delim line sz 0] assms obtain b' where
    b': "buf_parse_loop delim sz 0 line b = Inr (ys = [], patch line 0 (xs @ [0]), b')"
    "buf_wf b'" "content b' = tl ys" by auto
  define l1 where "l1 = patch line 0 (xs @ [0])"
  have le: "length (xs @ [0]) \<le> length line" using assms by simp
  have ll: "length l1 = length line" using le unfolding l1_def by (subst length_patch) auto
  have l1: "l1 = xs @ 0 # drop (Suc (length xs)) line" by (simp add: l1_def patch_def)
  obtain rest where rest: "l1[nat (sz - 1) := 0] = xs @ 0 # rest"
  proof (cases "nat (sz - 1) = length xs")
    case True
    then show ?thesis using that l1 by simp
  next
    case False
    with assms have "length xs < nat (sz - 1)" by linarith
    then obtain k where "nat (sz - 1) = length xs + Suc k"
      using less_imp_Suc_add by fastforce
    then show ?thesis using that l1 by (simp add: list_update_append)
  qed
  have st: "arr_set l1 (sz - 1) 0 = Inr (xs @ 0 # rest)"
    using assms rest ll by (subst arr_set_Inr) auto
  have sl: "c_strlen (Some (xs @ 0 # rest)) 0 = Inr (int (length xs))"
    using assms by (intro c_strlen_eq) auto
  show ?thesis
    using b' st sl assms by (auto simp: buf_parse_def l1_def [symmetric])
qed


section \<open>Properties\<close>

text \<open>
  C15: \<open>string_mod\<close> rewrites a string in place so that only allowed characters are left.
  On any null-terminated string it stays inside of the string's own memory, the
  result is a null-terminated string that is no longer than the original
  and passes \<open>string_class\<close>, and the return value says whether the
  original passed already.  The replacement character is null or allowed.
\<close>

theorem string_mod_sanitises:
  assumes "0 \<notin> set s" and "rep = 0 \<or> char_inc_exc rep inc exc"
  shows "\<exists>t rest'. string_mod (s @ 0 # rest) inc exc rep = Inr (string_class s inc exc, t @ 0 # rest')
           \<and> length (t @ 0 # rest') = length (s @ 0 # rest) \<and> length t \<le> length s
           \<and> string_class t inc exc \<and> (string_class s inc exc \<longrightarrow> t = s)"
proof -
  let ?t = "mod_string inc exc rep s"
  have le: "length (?t @ [0]) \<le> length (s @ 0 # rest)"
    using mod_string_length [of inc exc rep s] by simp
  have "patch (s @ 0 # rest) 0 (?t @ [0]) = ?t @ 0 # drop (Suc (length ?t)) (s @ 0 # rest)"
    by (simp add: patch_def)
  moreover have "length (patch (s @ 0 # rest) 0 (?t @ [0])) = length (s @ 0 # rest)"
    using le by (subst length_patch) auto
  ultimately show ?thesis
    using string_mod_eq [OF assms(1), of rest inc exc rep] mod_string_length [of inc exc rep s]
      mod_string_class [OF assms(2), of s] mod_string_id [of s inc exc rep] by metis
qed

theorem string_mod_sanitises_witness:
  "\<exists>t rest'. string_mod ([97, 10, 98] @ 0 # [7]) CC_NAME 0 95 =
       Inr (string_class [97, 10, 98] CC_NAME 0, t @ 0 # rest')
     \<and> length (t @ 0 # rest') = length ([97, 10, 98] @ 0 # [7 :: u8]) \<and> length t \<le> length [97, 10, 98 :: u8]
     \<and> string_class t CC_NAME 0 \<and> (string_class [97, 10, 98] CC_NAME 0 \<longrightarrow> t = [97, 10, 98])"
  by (rule string_mod_sanitises) (simp_all add: char_inc_exc_def char_class_def has_flag_def)

end
