(* ===== verification/PacketId.thy ===== *)
theory PacketId
  imports CircList BufferStr
begin

text \<open>
  Packet ids: \<open>packet_id.h\<close> and \<open>packet_id.c\<close>.  The sender stamps every packet
  with a sequence number and a time; the receiver keeps a sliding window of the
  most recent sequence numbers so that no packet is accepted twice.

  \<open>now\<close>, the clock of \<open>otime.c\<close>, is an argument.  Debug output is left out.  The
  results of system calls on the file of \<open>--replay-persist\<close> are arguments of the
  functions that make them.

  The second half gives the window an abstract account (\<open>win_test\<close>, \<open>win_add\<close>,
  \<open>reap_items\<close> on a list of time stamps), shows that the code refines it,
  and proves replay safety there.
\<close>

section \<open>Data\<close>

abbreviation (input) PACKET_ID_MAX :: u64 where "PACKET_ID_MAX \<equiv> 0xFFFFFFFF"
abbreviation (input) PACKET_ID_EPOCH_MAX :: u64 where "PACKET_ID_EPOCH_MAX \<equiv> 0x0000FFFFFFFFFFFF"
abbreviation (input) PACKET_ID_MASK :: u64 where "PACKET_ID_MASK \<equiv> 0x0000FFFFFFFFFFFF"
abbreviation (input) PACKET_ID_WRAP_TRIGGER :: u64 where "PACKET_ID_WRAP_TRIGGER \<equiv> 0xFF000000"

abbreviation (input) MIN_SEQ_BACKTRACK :: int where "MIN_SEQ_BACKTRACK \<equiv> 0"
abbreviation (input) MAX_SEQ_BACKTRACK :: int where "MAX_SEQ_BACKTRACK \<equiv> 65536"
abbreviation (input) MIN_TIME_BACKTRACK :: int where "MIN_TIME_BACKTRACK \<equiv> 0"
abbreviation (input) MAX_TIME_BACKTRACK :: int where "MAX_TIME_BACKTRACK \<equiv> 600"
abbreviation (input) SEQ_REAP_INTERVAL :: int where "SEQ_REAP_INTERVAL \<equiv> 5"
abbreviation (input) SEQ_UNSEEN :: int where "SEQ_UNSEEN \<equiv> 0"
abbreviation (input) SEQ_EXPIRED :: int where "SEQ_EXPIRED \<equiv> 1"

record packet_id_rec =
  pr_last_reap :: int
  pr_time :: int
  pr_id :: u64
  pr_seq_backtrack :: u64
  pr_time_backtrack :: int
  pr_max_backtrack_stat :: u64
  pr_initialized :: bool
  pr_seq_list :: "int circ_list option"
  pr_name :: "u8 list option"
  pr_unit :: int

record packet_id_persist =
  pp_filename :: "u8 list option"
  pp_fd :: int
  pp_time :: int
  pp_id :: u32
  pp_time_last_written :: int
  pp_id_last_written :: u32

record packet_id_persist_file_image =
  im_time :: int
  im_id :: u32

record packet_id_send =
  ps_id :: u64
  ps_time :: int

record packet_id_net =
  pn_id :: u64
  pn_time :: int

record packet_id =
  p_send :: packet_id_send
  p_rec :: packet_id_rec

text \<open>\<open>CLEAR\<close> of each structure.\<close>

definition clear_rec :: packet_id_rec where
  "clear_rec = \<lparr>pr_last_reap = 0, pr_time = 0, pr_id = 0, pr_seq_backtrack = 0, pr_time_backtrack = 0,
     pr_max_backtrack_stat = 0, pr_initialized = False, pr_seq_list = None, pr_name = None, pr_unit = 0\<rparr>"

definition clear_packet_id :: packet_id where
  "clear_packet_id = \<lparr>p_send = \<lparr>ps_id = 0, ps_time = 0\<rparr>, p_rec = clear_rec\<rparr>"


section \<open>Initialisation\<close>

text \<open>The header of \<open>struct seq_list\<close> has four \<open>int\<close>s, an item is a 64-bit \<open>time_t\<close>.\<close>

definition packet_id_init_recv ::
    "packet_id_rec \<Rightarrow> int \<Rightarrow> int \<Rightarrow> u8 list option \<Rightarrow> int \<Rightarrow> packet_id_rec cres" where
  "packet_id_init_recv rec seq_backtrack time_backtrack name unit' =
     (let rec1 = rec\<lparr>pr_name := name, pr_unit := unit'\<rparr>
      in bindE
           (if seq_backtrack \<noteq> 0
            then bindE (c_assert (MIN_SEQ_BACKTRACK \<le> seq_backtrack \<and> seq_backtrack \<le> MAX_SEQ_BACKTRACK)) (\<lambda>_.
                 bindE (c_assert (MIN_TIME_BACKTRACK \<le> time_backtrack \<and> time_backtrack \<le> MAX_TIME_BACKTRACK)) (\<lambda>_.
                 Inr (rec1\<lparr>pr_seq_list := Some (CIRC_LIST_ALLOC 16 8 0 seq_backtrack),
                           pr_seq_backtrack := word_of_int seq_backtrack,
                           pr_time_backtrack := time_backtrack\<rparr>)))
            else Inr rec1)
           (\<lambda>rec2. Inr (rec2\<lparr>pr_initialized := True\<rparr>)))"

definition packet_id_init :: "int \<Rightarrow> int \<Rightarrow> u8 list option \<Rightarrow> int \<Rightarrow> packet_id cres" where
  "packet_id_init seq_backtrack time_backtrack name unit' =
     bindE (packet_id_init_recv (p_rec clear_packet_id) seq_backtrack time_backtrack name unit')
       (\<lambda>r. Inr (clear_packet_id\<lparr>p_rec := r\<rparr>))"

text \<open>The new destination and the new source.\<close>

definition packet_id_move_recv ::
    "packet_id_rec \<Rightarrow> packet_id_rec \<Rightarrow> (packet_id_rec \<times> packet_id_rec) cres" where
  "packet_id_move_recv dest src =
     (let dest' = src
      in bindE (packet_id_init_recv clear_rec (c_int (uint (pr_seq_backtrack dest'))) (pr_time_backtrack dest')
                  (pr_name dest') (pr_unit dest'))
           (\<lambda>src'. Inr (dest', src')))"

definition packet_id_free :: "packet_id option \<Rightarrow> packet_id option" where
  "packet_id_free p = (case p of None \<Rightarrow> None | Some _ \<Rightarrow> Some clear_packet_id)"

definition packet_id_initialized :: "packet_id \<Rightarrow> bool" where
  "packet_id_initialized pid \<longleftrightarrow> pr_initialized (p_rec pid)"

definition reset_packet_id_send :: "packet_id_send \<Rightarrow> packet_id_send" where
  "reset_packet_id_send p = p\<lparr>ps_time := 0, ps_id := 0\<rparr>"

definition packet_id_size :: "bool \<Rightarrow> int" where
  "packet_id_size long_form = 4 + (if long_form then 4 else 0)"

definition packet_id_close_to_wrapping :: "packet_id_send \<Rightarrow> bool" where
  "packet_id_close_to_wrapping p \<longleftrightarrow> ps_id p \<ge> PACKET_ID_WRAP_TRIGGER"


section \<open>The receive window\<close>

function packet_id_add_loop :: "u64 \<Rightarrow> u64 \<Rightarrow> int circ_list \<Rightarrow> (u64 \<times> int circ_list) cres" where
  "packet_id_add_loop pin_id id' sl =
     (if id' < pin_id
      then bindE (CIRC_LIST_PUSH SEQ_UNSEEN sl) (\<lambda>sl'. packet_id_add_loop pin_id (id' + 1) sl')
      else Inr (id', sl))"
  by pat_completeness auto
termination
proof (relation "measure (\<lambda>(pin_id, id', _). unat pin_id - unat id')", goal_cases)
  case (2 pin_id id' sl sl')
  then have "unat id' < unat pin_id" by (simp add: word_less_nat_alt)
  moreover from this have "unat (id' + 1) = Suc (unat id')"
    using unat_lt [of pin_id] by (subst unat_word_ariths) simp
  ultimately show ?case by simp
qed simp

declare packet_id_add_loop.simps [simp del]

definition packet_id_add :: "int \<Rightarrow> packet_id_rec \<Rightarrow> packet_id_net \<Rightarrow> packet_id_rec cres" where
  "packet_id_add now p pin =
     (case pr_seq_list p of
        Some sl \<Rightarrow>
          (let (p1, sl1) =
             (if CIRC_LIST_SIZE sl = 0 \<or> pn_time pin > pr_time p
                 \<or> pn_id pin \<ge> pr_seq_backtrack p \<and> pn_id pin - pr_seq_backtrack p > pr_id p
              then (p\<lparr>pr_time := pn_time pin,
                      pr_id := (if pn_id pin > pr_seq_backtrack p
                                then pn_id pin - pr_seq_backtrack p else 0)\<rparr>,
                    CIRC_LIST_RESET sl)
              else (p, sl))
           in bindE (packet_id_add_loop (pn_id pin) (pr_id p1) sl1) (\<lambda>(id', sl2).
              let p2 = p1\<lparr>pr_id := id'\<rparr>; diff = sint (id' - pn_id pin)
              in bindE (if diff < CIRC_LIST_SIZE sl2 \<and> now > SEQ_EXPIRED
                        then CIRC_LIST_ITEM_set sl2 (c_int diff) now else Inr sl2)
                   (\<lambda>sl3. Inr (p2\<lparr>pr_seq_list := Some sl3\<rparr>))))
      | None \<Rightarrow> Inr (p\<lparr>pr_time := pn_time pin, pr_id := pn_id pin\<rparr>))"

lemma CIRC_LIST_ITEM_set_size: "CIRC_LIST_ITEM_set sl i v = Inr sl' \<Longrightarrow> x_size sl' = x_size sl"
  by (auto simp: CIRC_LIST_ITEM_set_def elim!: bindE_InrE)

function packet_id_reap_loop :: "int \<Rightarrow> int \<Rightarrow> int \<Rightarrow> bool \<Rightarrow> int circ_list \<Rightarrow> int circ_list cres" where
  "packet_id_reap_loop now time_backtrack i expire sl =
     (if i < CIRC_LIST_SIZE sl
      then bindE (CIRC_LIST_ITEM sl i) (\<lambda>t.
           if t = SEQ_EXPIRED then Inr sl
           else let expire' = (if \<not> expire \<and> t \<noteq> 0 \<and> t + time_backtrack < now then True else expire)
                in bindE (if expire' then CIRC_LIST_ITEM_set sl i SEQ_EXPIRED else Inr sl)
                     (\<lambda>sl'. packet_id_reap_loop now time_backtrack (i + 1) expire' sl'))
      else Inr sl)"
  by pat_completeness auto
termination
  by (relation "measure (\<lambda>(_, _, i, _, sl). nat (x_size sl - i))")
     (auto simp: CIRC_LIST_SIZE_def split: if_splits dest: CIRC_LIST_ITEM_set_size)

declare packet_id_reap_loop.simps [simp del]

definition packet_id_reap :: "int \<Rightarrow> packet_id_rec \<Rightarrow> packet_id_rec cres" where
  "packet_id_reap now p =
     bindE (if pr_time_backtrack p \<noteq> 0
            then (case pr_seq_list p of
                    None \<Rightarrow> Inl Null_deref
                  | Some sl \<Rightarrow> bindE (packet_id_reap_loop now (pr_time_backtrack p) 0 False sl)
                                (\<lambda>sl'. Inr (p\<lparr>pr_seq_list := Some sl'\<rparr>)))
            else Inr p)
       (\<lambda>p'. Inr (p'\<lparr>pr_last_reap := now\<rparr>))"

definition packet_id_reap_test :: "int \<Rightarrow> packet_id_rec \<Rightarrow> packet_id_rec cres" where
  "packet_id_reap_test now p =
     (if pr_last_reap p + SEQ_REAP_INTERVAL \<le> now then packet_id_reap now p else Inr p)"

definition packet_id_test :: "packet_id_rec \<Rightarrow> packet_id_net \<Rightarrow> (bool \<times> packet_id_rec) cres" where
  "packet_id_test p pin =
     bindE (c_assert (pr_initialized p)) (\<lambda>_.
     if pn_id pin = 0 then Inr (False, p)
     else if pr_seq_backtrack p \<noteq> 0
     then (if pn_time pin = pr_time p
           then (if pn_id pin > pr_id p then Inr (True, p)
                 else (let diff = pr_id p - pn_id pin;
                           p' = (if diff > pr_max_backtrack_stat p
                                 then p\<lparr>pr_max_backtrack_stat := diff\<rparr> else p)
                       in case pr_seq_list p' of
                            None \<Rightarrow> Inl Null_deref
                          | Some sl \<Rightarrow>
                              if diff \<ge> ucast (word_of_int (CIRC_LIST_SIZE sl) :: u32)
                              then Inr (False, p')
                              else bindE (CIRC_LIST_ITEM sl (c_int (uint diff))) (\<lambda>v.
                                   if v = 0 then Inr (True, p') else Inr (False, p'))))
           else if pn_time pin < pr_time p then Inr (False, p)
           else Inr (True, p))
     else (if pn_time pin = pr_time p
           then Inr (pr_id p = 0 \<or> pn_id pin = pr_id p + 1, p)
           else if pn_time pin < pr_time p then Inr (False, p)
           else Inr (pn_id pin = 1, p)))"

text \<open>
  The part of \<open>crypto_check_replay\<close> that decides about a packet: the three
  operations in their order on the receive state of the packet's key.
\<close>

definition check_replay :: "int \<Rightarrow> packet_id_rec \<Rightarrow> packet_id_net \<Rightarrow> (bool \<times> packet_id_rec) cres" where
  "check_replay now recv pin =
     bindE (packet_id_reap_test now recv) (\<lambda>recv1.
     bindE (packet_id_test recv1 pin) (\<lambda>(ok, recv2).
     if ok then bindE (packet_id_add now recv2 pin) (\<lambda>recv3. Inr (True, recv3))
     else Inr (False, recv2)))"


section \<open>Sending and the wire format\<close>

text \<open>The result, \<open>*pin\<close> and the buffer.\<close>

definition packet_id_read :: "buffer \<Rightarrow> bool \<Rightarrow> (bool \<times> packet_id_net \<times> buffer) cres" where
  "packet_id_read buf long_form =
     (let pin = \<lparr>pn_id = 0, pn_time = 0\<rparr>
      in bindE (buf_read buf 4) (\<lambda>(r, buf1).
         case r of
           None \<Rightarrow> Inr (False, pin, buf1)
         | Some net_id \<Rightarrow>
             (let pin1 = pin\<lparr>pn_id := ucast (un_be32 net_id)\<rparr>
              in if long_form
                 then bindE (buf_read buf1 4) (\<lambda>(r2, buf2).
                      case r2 of
                        None \<Rightarrow> Inr (False, pin1, buf2)
                      | Some net_time \<Rightarrow> Inr (True, pin1\<lparr>pn_time := uint (un_be32 net_time)\<rparr>, buf2))
                 else Inr (True, pin1, buf1))))"

definition packet_id_send_update :: "int \<Rightarrow> packet_id_send \<Rightarrow> bool \<Rightarrow> bool \<times> packet_id_send" where
  "packet_id_send_update now p long_form =
     (let p1 = (if ps_time p = 0 then p\<lparr>ps_time := now\<rparr> else p)
      in if ps_id p1 = PACKET_ID_MAX
         then (if \<not> long_form \<or> now \<le> ps_time p1 then (False, p1)
               else (let p2 = p1\<lparr>ps_time := now, ps_id := 0\<rparr> in (True, p2\<lparr>ps_id := ps_id p2 + 1\<rparr>)))
         else (True, p1\<lparr>ps_id := ps_id p1 + 1\<rparr>))"

definition packet_id_send_update_epoch :: "int \<Rightarrow> packet_id_send \<Rightarrow> bool \<times> packet_id_send" where
  "packet_id_send_update_epoch now p =
     (let p1 = (if ps_time p = 0 then p\<lparr>ps_time := now\<rparr> else p)
      in if ps_id p1 = PACKET_ID_EPOCH_MAX then (False, p1)
         else (True, p1\<lparr>ps_id := ps_id p1 + 1\<rparr>))"

definition packet_id_write ::
    "int \<Rightarrow> packet_id_send \<Rightarrow> buffer \<Rightarrow> bool \<Rightarrow> bool \<Rightarrow> (bool \<times> packet_id_send \<times> buffer) cres" where
  "packet_id_write now p buf long_form prepend =
     (case packet_id_send_update now p long_form of
        (False, p1) \<Rightarrow> Inr (False, p1, buf)
      | (True, p1) \<Rightarrow>
          (let net_id = be32 (ucast (ps_id p1)); net_time = be32 (word_of_int (ps_time p1))
           in if prepend
              then bindE (if long_form then buf_write_prepend buf net_time else Inr (True, buf)) (\<lambda>(r1, buf1).
                   if \<not> r1 then Inr (False, p1, buf1)
                   else bindE (buf_write_prepend buf1 net_id) (\<lambda>(r2, buf2). Inr (r2, p1, buf2)))
              else bindE (buf_write buf net_id) (\<lambda>(r1, buf1).
                   if \<not> r1 then Inr (False, p1, buf1)
                   else if long_form
                   then bindE (buf_write buf1 net_time) (\<lambda>(r2, buf2). Inr (r2, p1, buf2))
                   else Inr (True, p1, buf1))))"

definition packet_id_read_epoch :: "packet_id_net \<Rightarrow> buffer \<Rightarrow> (u16 \<times> packet_id_net \<times> buffer) cres" where
  "packet_id_read_epoch pin buf =
     bindE (buf_read buf 8) (\<lambda>(r, buf1).
     case r of
       None \<Rightarrow> Inr (0, pin, buf1)
     | Some bs \<Rightarrow>
         (let i = un_be64 bs; epoch = ucast (drop_bit 48 i)
          in Inr (epoch, pin\<lparr>pn_id := i AND PACKET_ID_MASK\<rparr>, buf1)))"

definition packet_id_write_epoch ::
    "int \<Rightarrow> packet_id_send \<Rightarrow> u16 \<Rightarrow> buffer \<Rightarrow> (bool \<times> packet_id_send \<times> buffer) cres" where
  "packet_id_write_epoch now p epoch buf =
     (case packet_id_send_update_epoch now p of
        (False, p1) \<Rightarrow> Inr (False, p1, buf)
      | (True, p1) \<Rightarrow>
          (let net_id = push_bit 48 (ucast epoch) OR ps_id p1
           in bindE (buf_write buf (be64 net_id)) (\<lambda>(r, buf1). Inr (r, p1, buf1))))"


section \<open>Persistence\<close>

definition packet_id_persist_enabled :: "packet_id_persist \<Rightarrow> bool" where
  "packet_id_persist_enabled p \<longleftrightarrow> pp_fd p \<ge> 0"

definition packet_id_persist_init :: packet_id_persist where
  "packet_id_persist_init =
     \<lparr>pp_filename = None, pp_fd = - 1, pp_time = 0, pp_id = 0, pp_time_last_written = 0,
      pp_id_last_written = 0\<rparr>"

definition packet_id_persist_close :: "packet_id_persist \<Rightarrow> packet_id_persist" where
  "packet_id_persist_close p = (if packet_id_persist_enabled p then packet_id_persist_init else p)"

text \<open>
  \<open>fd\<close> is what \<open>platform_open\<close> returned, \<open>locked\<close> whether \<open>flock\<close> succeeded and
  \<open>img\<close> what \<open>read\<close> delivered if it delivered a whole image.
\<close>

definition packet_id_persist_load ::
    "int \<Rightarrow> bool \<Rightarrow> packet_id_persist_file_image option \<Rightarrow> packet_id_persist \<Rightarrow> u8 list \<Rightarrow> packet_id_persist cres" where
  "packet_id_persist_load fd locked img p filename =
     (if \<not> packet_id_persist_enabled p
      then (let p1 = p\<lparr>pp_fd := fd\<rparr>
            in if fd = - 1 then Inr p1
               else if \<not> locked then Inl Fatal
               else (let p2 = p1\<lparr>pp_filename := Some filename\<rparr>
                     in case img of
                          None \<Rightarrow> Inr p2
                        | Some im \<Rightarrow> Inr (p2\<lparr>pp_time := im_time im, pp_time_last_written := im_time im,
                                            pp_id := im_id im, pp_id_last_written := im_id im\<rparr>)))
      else Inr p)"

text \<open>
  \<open>seek_ok\<close> and \<open>write_ok\<close> say whether \<open>lseek\<close> and \<open>write\<close> succeeded.  The second
  component is the image that was written to the file, if any.
\<close>

definition packet_id_persist_save ::
    "bool \<Rightarrow> bool \<Rightarrow> packet_id_persist \<Rightarrow> packet_id_persist \<times> packet_id_persist_file_image option" where
  "packet_id_persist_save seek_ok write_ok p =
     (if packet_id_persist_enabled p \<and> pp_time p \<noteq> 0
         \<and> (pp_time p \<noteq> pp_time_last_written p \<or> pp_id p \<noteq> pp_id_last_written p)
      then (let img = \<lparr>im_time = pp_time p, im_id = pp_id p\<rparr>
            in if seek_ok \<and> write_ok
               then (p\<lparr>pp_time_last_written := pp_time p, pp_id_last_written := pp_id p\<rparr>, Some img)
               else (p, None))
      else (p, None))"

definition packet_id_persist_load_obj ::
    "packet_id_persist option \<Rightarrow> packet_id option \<Rightarrow> packet_id option" where
  "packet_id_persist_load_obj p pid =
     (case (p, pid) of
        (Some p', Some pid') \<Rightarrow>
          if packet_id_persist_enabled p' \<and> pp_time p' \<noteq> 0
          then Some (pid'\<lparr>p_rec := (p_rec pid')\<lparr>pr_time := pp_time p', pr_id := ucast (pp_id p')\<rparr>\<rparr>)
          else pid
      | _ \<Rightarrow> pid)"

definition packet_id_persist_save_obj :: "packet_id_persist \<Rightarrow> packet_id \<Rightarrow> packet_id_persist" where
  "packet_id_persist_save_obj p pid =
     (if packet_id_persist_enabled p \<and> pr_time (p_rec pid) \<noteq> 0
      then p\<lparr>pp_time := pr_time (p_rec pid), pp_id := ucast (pr_id (p_rec pid))\<rparr> else p)"


section \<open>Printing\<close>

text \<open>
  \<open>time_string\<close> is the text \<open>otime.c\<close> makes of a time; the result is the text of
  the buffer, up to its null.
\<close>

definition packet_id_net_print ::
    "(nat \<Rightarrow> u8 list) \<Rightarrow> (int \<Rightarrow> u8 list) \<Rightarrow> packet_id_net \<Rightarrow> bool \<Rightarrow> buffer cres" where
  "packet_id_net_print junk time_string pin print_timestamp =
     bindE (alloc_buf_gc junk 256) (\<lambda>out0.
     bindE (buf_printf out0 (cstr ''[ #'' @ dec_digits (unat (pn_id pin)))) (\<lambda>(_, out1).
     bindE (if print_timestamp \<and> pn_time pin \<noteq> 0
            then buf_printf out1 (cstr '' / time = ('' @ dec_digits (unat (word_of_int (pn_time pin) :: u64))
                   @ cstr '') '' @ time_string (pn_time pin))
            else Inr (True, out1)) (\<lambda>(_, out2).
     bindE (buf_printf out2 (cstr '' ]'')) (\<lambda>(_, out3). Inr out3))))"

definition packet_id_persist_print ::
    "(nat \<Rightarrow> u8 list) \<Rightarrow> (int \<Rightarrow> u8 list) \<Rightarrow> packet_id_persist \<Rightarrow> buffer cres" where
  "packet_id_persist_print junk time_string p =
     bindE (alloc_buf_gc junk 256) (\<lambda>out0.
     bindE (buf_printf out0 (cstr ''['')) (\<lambda>(_, out1).
     bindE (if packet_id_persist_enabled p
            then bindE (buf_printf out1 (cstr '' #'' @ dec_digits (unat (pp_id p)))) (\<lambda>(_, out2).
                 if pp_time p \<noteq> 0
                 then buf_printf out2 (cstr '' / time = ('' @ dec_digits (unat (word_of_int (pp_time p) :: u64))
                        @ cstr '') '' @ time_string (pp_time p))
                 else Inr (True, out2))
            else Inr (True, out1)) (\<lambda>(_, out3).
     bindE (buf_printf out3 (cstr '' ]'')) (\<lambda>(_, out4). Inr out4))))"



section \<open>The wire format: correctness\<close>

definition pid_header :: "packet_id_send \<Rightarrow> bool \<Rightarrow> u8 list" where
  "pid_header p long_form =
     be32 (ucast (ps_id p)) @ (if long_form then be32 (word_of_int (ps_time p)) else [])"

lemma ucast_u64_u32: "(x :: u64) \<le> PACKET_ID_MAX \<Longrightarrow> ucast (ucast x :: u32) = x"
proof -
  assume "x \<le> PACKET_ID_MAX"
  then have "uint x \<le> 0xFFFFFFFF" by (simp add: word_le_def)
  then have "take_bit 32 (uint x) = uint x" by (intro take_bit_int_eq_self) simp_all
  then show ?thesis by (intro word_uint_eqI) (simp add: unsigned_ucast_eq unsigned_take_bit_eq)
qed

lemma send_update_id:
  assumes "packet_id_send_update now p long_form = (True, p')" "ps_id p \<le> PACKET_ID_MAX"
  shows "ps_id p' \<le> PACKET_ID_MAX \<and> ps_id p' \<noteq> 0"
proof (cases "ps_id p = PACKET_ID_MAX")
  case True
  then show ?thesis using assms by (auto simp: packet_id_send_update_def Let_def split: if_splits)
next
  case False
  then have lt: "unat (ps_id p) < 0xFFFFFFFF"
    using assms(2) by (auto simp: word_le_nat_alt word_unat_eq_iff)
  then have "unat (ps_id p + 1) = Suc (unat (ps_id p))" by (subst unat_word_ariths) simp
  then have "ps_id p + 1 \<le> PACKET_ID_MAX \<and> ps_id p + 1 \<noteq> 0"
    using lt by (auto simp: word_le_nat_alt word_unat_eq_iff)
  then show ?thesis using False assms(1)
    by (auto simp: packet_id_send_update_def Let_def split: if_splits)
qed

lemma packet_id_write_content:
  assumes wf: "buf_wf buf" and w: "packet_id_write now p buf long_form prepend = Inr (True, p', buf')"
  shows "packet_id_send_update now p long_form = (True, p') \<and> buf_wf buf'
     \<and> content buf' = (if prepend then pid_header p' long_form @ content buf
                       else content buf @ pid_header p' long_form)"
proof -
  obtain p1 where u: "packet_id_send_update now p long_form = (True, p1)"
    using w by (auto simp: packet_id_write_def split: prod.splits bool.splits)
  then have p1: "p1 = p'"
    using w by (auto simp: packet_id_write_def Let_def split: if_splits elim!: bindE_InrE)
  show ?thesis
  proof (cases prepend)
    case True
    then obtain b1 where b1: "(if long_form then buf_write_prepend buf (be32 (word_of_int (ps_time p'))) else Inr (True, buf)) = Inr (True, b1)"
      "buf_write_prepend b1 (be32 (ucast (ps_id p'))) = Inr (True, buf')"
      using w u p1 by (auto simp: packet_id_write_def Let_def elim!: bindE_InrE split: if_splits)
    have "buf_wf b1 \<and> content b1 = (if long_form then be32 (word_of_int (ps_time p')) else []) @ content buf"
      using b1(1) wf bb.pre_D [of buf "be32 (word_of_int (ps_time p'))" b1] by (auto split: if_splits)
    then show ?thesis using bb.pre_D [OF _ b1(2)] u p1 True by (simp add: pid_header_def)
  next
    case False
    then obtain b1 where b1: "buf_write buf (be32 (ucast (ps_id p'))) = Inr (True, b1)"
      "(if long_form then buf_write b1 (be32 (word_of_int (ps_time p'))) else Inr (True, b1)) = Inr (True, buf')"
      using w u p1 by (auto simp: packet_id_write_def Let_def elim!: bindE_InrE split: if_splits)
    have "buf_wf b1 \<and> content b1 = content buf @ be32 (ucast (ps_id p'))"
      using bb.wr_D [OF wf b1(1)] .
    then show ?thesis using b1(2) bb.wr_D [of b1 "be32 (word_of_int (ps_time p'))" buf'] u p1 False
      by (auto simp: pid_header_def split: if_splits)
  qed
qed

lemma packet_id_read_header:
  assumes wf: "buf_wf buf" and c: "content buf = pid_header p long_form @ rest"
    and i: "ps_id p \<le> PACKET_ID_MAX"
  shows "\<exists>buf'. packet_id_read buf long_form =
           Inr (True, \<lparr>pn_id = ps_id p, pn_time = (if long_form then ps_time p mod 2 ^ 32 else 0)\<rparr>, buf')
         \<and> buf_wf buf' \<and> content buf' = rest"
proof -
  have c1: "content buf = be32 (ucast (ps_id p)) @ (if long_form then be32 (word_of_int (ps_time p)) else []) @ rest"
    using c by (simp add: pid_header_def)
  from bb.rd_prefix [OF wf c1, of 4] obtain b1 where b1: "buf_read buf 4 = Inr (Some (be32 (ucast (ps_id p))), b1)"
    "buf_wf b1" "content b1 = (if long_form then be32 (word_of_int (ps_time p)) else []) @ rest" by auto
  have t: "uint (word_of_int (ps_time p) :: u32) = ps_time p mod 2 ^ 32"
    by (simp add: uint_word_of_int)
  show ?thesis
  proof (cases long_form)
    case True
    with b1(3) have "content b1 = be32 (word_of_int (ps_time p)) @ rest" by simp
    from bb.rd_prefix [OF b1(2) this, of 4] obtain b2 where
      "buf_read b1 4 = Inr (Some (be32 (word_of_int (ps_time p))), b2)" "buf_wf b2" "content b2 = rest" by auto
    with True b1 t i show ?thesis by (simp add: packet_id_read_def ucast_u64_u32)
  next
    case False
    with b1 i show ?thesis by (simp add: packet_id_read_def ucast_u64_u32)
  qed
qed

text \<open>An epoch and a counter of 48 bits share one word without loss.\<close>

lemma epoch_word:
  assumes i: "(i :: u64) \<le> PACKET_ID_EPOCH_MAX"
  shows "(push_bit 48 (ucast (e :: u16)) OR i) AND PACKET_ID_MASK = i"
    and "ucast (drop_bit 48 (push_bit 48 (ucast e) OR i)) = e"
proof -
  have hi: "\<not> bit i n" if "48 \<le> n" for n
  proof -
    have "uint i < 2 ^ 48" using i by (simp add: word_le_def)
    then have "take_bit 48 (uint i) = uint i" by (intro take_bit_int_eq_self) simp_all
    then have "take_bit 48 i = i" by (intro word_uint_eqI) (simp add: unsigned_take_bit_eq)
    then show ?thesis using that by (metis bit_take_bit_iff not_less)
  qed
  have mask: "PACKET_ID_MASK = (mask 48 :: u64)" by (simp add: mask_eq_exp_minus_1)
  show "(push_bit 48 (ucast e) OR i) AND PACKET_ID_MASK = i"
    unfolding mask
  proof (rule bit_word_eqI)
    fix n
    show "bit ((push_bit 48 (ucast e) OR i) AND mask 48) n \<longleftrightarrow> bit i n" if "n < LENGTH(64)"
      using hi [of n] that by (cases "n < 48") (auto simp: bit_simps)
  qed
  show "ucast (drop_bit 48 (push_bit 48 (ucast e) OR i)) = e"
    using hi by (intro bit_word_eqI) (auto simp: bit_simps)
qed


lemma send_update_epoch_id:
  assumes "packet_id_send_update_epoch now p = (True, p')" "ps_id p \<le> PACKET_ID_EPOCH_MAX"
  shows "ps_id p' \<le> PACKET_ID_EPOCH_MAX"
proof -
  have ne: "ps_id p \<noteq> PACKET_ID_EPOCH_MAX" and p': "ps_id p' = ps_id p + 1"
    using assms(1) by (auto simp: packet_id_send_update_epoch_def Let_def split: if_splits)
  have lt: "unat (ps_id p) < 0x0000FFFFFFFFFFFF"
    using assms(2) ne by (auto simp: word_le_nat_alt word_unat_eq_iff)
  then have "unat (ps_id p + 1) = Suc (unat (ps_id p))" by (subst unat_word_ariths) simp
  then show ?thesis using lt p' by (simp add: word_le_nat_alt)
qed

text \<open>A run of the sender: the time and sequence number of every packet it could stamp.\<close>

fun send_run :: "bool \<Rightarrow> int list \<Rightarrow> packet_id_send \<Rightarrow> (int \<times> u64) list" where
  "send_run long_form [] p = []"
| "send_run long_form (now # nows) p =
     (case packet_id_send_update now p long_form of
        (True, p') \<Rightarrow> (ps_time p', ps_id p') # send_run long_form nows p'
      | (False, p') \<Rightarrow> send_run long_form nows p')"

definition stamp_less :: "int \<times> u64 \<Rightarrow> int \<times> u64 \<Rightarrow> bool" where
  "stamp_less a b \<longleftrightarrow> fst a < fst b \<or> fst a = fst b \<and> snd a < snd b"

lemma send_update_less:
  assumes u: "packet_id_send_update now p long_form = (r, p')" and i: "ps_id p \<le> PACKET_ID_MAX" and now: "0 < now"
    and t: "0 < ps_time p \<or> ps_time p = 0 \<and> ps_id p = 0"
  shows "ps_id p' \<le> PACKET_ID_MAX \<and> 0 < ps_time p'
           \<and> (if r then stamp_less (ps_time p, ps_id p) (ps_time p', ps_id p')
              else ps_id p' = ps_id p \<and> ps_time p \<le> ps_time p' \<and> (0 < ps_time p \<longrightarrow> ps_time p' = ps_time p))"
proof (cases "ps_id p = PACKET_ID_MAX")
  case True
  then show ?thesis using u now t
    by (auto simp: packet_id_send_update_def Let_def stamp_less_def split: if_splits)
next
  case False
  then have lt: "unat (ps_id p) < 0xFFFFFFFF"
    using i by (auto simp: word_le_nat_alt word_unat_eq_iff)
  then have "unat (ps_id p + 1) = Suc (unat (ps_id p))" by (subst unat_word_ariths) simp
  then have "ps_id p < ps_id p + 1" "ps_id p + 1 \<le> PACKET_ID_MAX"
    using lt by (simp_all add: word_less_nat_alt word_le_nat_alt)
  then show ?thesis using False u now t
    by (auto simp: packet_id_send_update_def Let_def stamp_less_def split: if_splits)
qed

lemma send_run_less:
  assumes "ps_id p \<le> PACKET_ID_MAX" "\<forall>now\<in>set nows. 0 < now"
    and "0 < ps_time p \<or> ps_time p = 0 \<and> ps_id p = 0"
  shows "sorted_wrt stamp_less (send_run long_form nows p)
           \<and> (\<forall>s\<in>set (send_run long_form nows p). stamp_less (ps_time p, ps_id p) s)"
  using assms
proof (induction nows arbitrary: p)
  case Nil
  then show ?case by simp
next
  case (Cons now nows)
  obtain r p' where u: "packet_id_send_update now p long_form = (r, p')"
    by (cases "packet_id_send_update now p long_form")
  have now: "0 < now" using Cons.prems by simp
  note less = send_update_less [OF u Cons.prems(1) now Cons.prems(3)]
  have IH: "sorted_wrt stamp_less (send_run long_form nows p')"
    "\<forall>s\<in>set (send_run long_form nows p'). stamp_less (ps_time p', ps_id p') s"
    using Cons.IH [of p'] Cons.prems less by auto
  have trans: "stamp_less a c" if "stamp_less a b" "stamp_less b c" for a b c
    using that by (auto simp: stamp_less_def)
  show ?case
  proof (cases r)
    case True
    then have "stamp_less (ps_time p, ps_id p) (ps_time p', ps_id p')" using less by simp
    then show ?thesis using IH u True trans by auto
  next
    case False
    then have "stamp_less (ps_time p, ps_id p) s" if "stamp_less (ps_time p', ps_id p') s" for s
      using that less by (auto simp: stamp_less_def)
    then show ?thesis using IH u False by auto
  qed
qed


section \<open>Properties\<close>

text \<open>
  C12: Packet id round trip.  Whatever \<open>packet_id_write\<close> puts into a buffer, in short or
  long form, in front of the payload or at the end of an empty buffer,
  \<open>packet_id_read\<close> reads back: the sender's sequence number and, in long form, its time
  modulo 2^32; the rest of the buffer is the payload.  The sequence number is never 0.
\<close>

theorem packet_id_roundtrip:
  assumes "buf_wf buf" and "ps_id p \<le> PACKET_ID_MAX" and "prepend \<or> content buf = []"
    and "packet_id_write now p buf long_form prepend = Inr (True, p', buf')"
  shows "ps_id p' \<noteq> 0 \<and> (\<exists>buf''. packet_id_read buf' long_form =
           Inr (True, \<lparr>pn_id = ps_id p', pn_time = (if long_form then ps_time p' mod 2 ^ 32 else 0)\<rparr>, buf'')
         \<and> buf_wf buf'' \<and> content buf'' = content buf)"
proof -
  note w = packet_id_write_content [OF assms(1,4)]
  have c: "content buf' = pid_header p' long_form @ content buf" using w assms(3) by auto
  have i: "ps_id p' \<le> PACKET_ID_MAX" "ps_id p' \<noteq> 0" using w send_update_id [OF _ assms(2)] by auto
  show ?thesis using packet_id_read_header [OF _ c i(1)] w i(2) by auto
qed

theorem packet_id_roundtrip_witness:
  "\<exists>buf p' buf' buf''. alloc_buf 16 = Inr buf
     \<and> packet_id_write 1000 \<lparr>ps_id = 41, ps_time = 0\<rparr> buf True False = Inr (True, p', buf')
     \<and> packet_id_read buf' True = Inr (True, \<lparr>pn_id = ps_id p', pn_time = ps_time p' mod 2 ^ 32\<rparr>, buf'')"
proof -
  obtain buf where b: "alloc_buf 16 = Inr buf" "buf_wf buf" "content buf = []" "tailroom buf = 16"
    using alloc_buf_ok [of 16] by auto
  obtain b1 where b1: "buf_write buf (be32 42) = Inr (True, b1)" "buf_wf b1" "tailroom b1 = 12"
    using buf_write_ok [OF b(2), of "be32 42"] b(4) by auto
  obtain b2 where b2: "buf_write b1 (be32 1000) = Inr (True, b2)"
    using buf_write_ok [OF b1(2), of "be32 1000"] b1(3) by auto
  have w: "packet_id_write 1000 \<lparr>ps_id = 41, ps_time = 0\<rparr> buf True False =
      Inr (True, \<lparr>ps_id = 42, ps_time = 1000\<rparr>, b2)"
    using b1 b2 by (simp add: packet_id_write_def packet_id_send_update_def)
  from packet_id_roundtrip [OF b(2) _ _ w] b(3) w b(1) show ?thesis by auto
qed

text \<open>
  C13: Epoch packet id round trip.  The 16-bit epoch and the 48-bit counter that
  \<open>packet_id_write_epoch\<close> packs into one 64-bit word are read back unchanged.
\<close>

theorem packet_id_epoch_roundtrip:
  assumes "buf_wf buf" and "content buf = []" and "ps_id p \<le> PACKET_ID_EPOCH_MAX"
    and "packet_id_write_epoch now p epoch buf = Inr (True, p', buf')"
  shows "\<exists>buf''. packet_id_read_epoch pin buf' = Inr (epoch, pin\<lparr>pn_id := ps_id p'\<rparr>, buf'')
           \<and> buf_wf buf'' \<and> content buf'' = []"
proof -
  let ?w = "push_bit 48 (ucast epoch) OR ps_id p'"
  have u: "packet_id_send_update_epoch now p = (True, p')" and wr: "buf_write buf (be64 ?w) = Inr (True, buf')"
    using assms(4) by (auto simp: packet_id_write_epoch_def Let_def elim!: bindE_InrE split: prod.splits bool.splits)
  have i: "ps_id p' \<le> PACKET_ID_EPOCH_MAX" using send_update_epoch_id [OF u assms(3)] .
  from bb.rd_wr [OF assms(1,2) wr] obtain b2 where "buf_read buf' 8 = Inr (Some (be64 ?w), b2)" "buf_wf b2"
    "content b2 = []" by auto
  then show ?thesis
    unfolding packet_id_read_epoch_def Let_def
    by (simp only: bindE_Inr prod.case option.case un_be64_be64 epoch_word [OF i]) blast
qed

theorem packet_id_epoch_roundtrip_witness:
  "\<exists>buf p' buf' buf''. alloc_buf 16 = Inr buf
     \<and> packet_id_write_epoch 1000 \<lparr>ps_id = 41, ps_time = 0\<rparr> 7 buf = Inr (True, p', buf')
     \<and> packet_id_read_epoch \<lparr>pn_id = 0, pn_time = 0\<rparr> buf' = Inr (7, \<lparr>pn_id = ps_id p', pn_time = 0\<rparr>, buf'')"
proof -
  obtain buf where b: "alloc_buf 16 = Inr buf" "buf_wf buf" "content buf = []" "tailroom buf = 16"
    using alloc_buf_ok [of 16] by auto
  obtain b1 where b1: "buf_write buf (be64 (push_bit 48 (ucast (7 :: u16)) OR 42)) = Inr (True, b1)"
    using buf_write_ok [OF b(2), of "be64 (push_bit 48 (ucast (7 :: u16)) OR 42)"] b(4) by auto
  have w: "packet_id_write_epoch 1000 \<lparr>ps_id = 41, ps_time = 0\<rparr> 7 buf = Inr (True, \<lparr>ps_id = 42, ps_time = 1000\<rparr>, b1)"
    using b1 by (simp add: packet_id_write_epoch_def packet_id_send_update_epoch_def)
  from packet_id_epoch_roundtrip [OF b(2,3) _ w, of "\<lparr>pn_id = 0, pn_time = 0\<rparr>"] w b(1) show ?thesis by auto
qed

text \<open>
  C14: The sender never reuses a packet id.  From its initial state, whatever the clock
  shows (as long as it is positive; it may even go backwards) and however many
  packets are sent, the pairs of time and sequence number it stamps are strictly
  increasing; when the 32-bit sequence numbers are used up it refuses to send
  (short form) or waits for a later time (long form).
\<close>

theorem send_ids_strictly_increase:
  assumes "\<forall>now\<in>set nows. 0 < now"
  shows "sorted_wrt stamp_less (send_run long_form nows (reset_packet_id_send p))
           \<and> distinct (send_run long_form nows (reset_packet_id_send p))"
proof -
  have s: "sorted_wrt stamp_less (send_run long_form nows (reset_packet_id_send p))"
    using send_run_less [of "reset_packet_id_send p" nows long_form] assms
    by (simp add: reset_packet_id_send_def)
  have "distinct xs" if "sorted_wrt stamp_less xs" for xs
    using that by (induction xs) (auto simp: stamp_less_def)
  with s show ?thesis by blast
qed

theorem send_ids_strictly_increase_witness:
  "sorted_wrt stamp_less (send_run True [5, 3, 9] (reset_packet_id_send \<lparr>ps_id = 4, ps_time = 0\<rparr>))
     \<and> distinct (send_run True [5, 3, 9] (reset_packet_id_send \<lparr>ps_id = 4, ps_time = 0\<rparr>))"
  by (rule send_ids_strictly_increase) simp

end
