(* ===== verification/ReplayWindow.thy ===== *)
theory ReplayWindow
  imports PacketId
begin

text \<open>
  Replay protection.  The receive window of \<open>packet_id.c\<close> is abstracted to the
  highest time and sequence number and the list of time stamps of the most recent
  sequence numbers, newest first (\<open>win\<close>); \<open>win_add\<close>, \<open>win_test\<close> and \<open>win_reap\<close>
  say what the operations do to it, and the refinement lemmas show
  that the code does exactly that without a fault.  The locale
  \<open>once_only\<close> lifts the invariant of one step to whole runs; it is
  interpreted on \<open>check_replay\<close>.
\<close>

section \<open>The abstract window\<close>

record win =
  w_time :: int
  w_id :: nat
  w_items :: "int list"

definition win_restart :: "nat \<Rightarrow> int \<Rightarrow> nat \<Rightarrow> win \<Rightarrow> bool" where
  "win_restart cap t n w \<longleftrightarrow> w_items w = [] \<or> w_time w < t \<or> w_id w + cap < n"

definition win_add :: "nat \<Rightarrow> int \<Rightarrow> int \<Rightarrow> nat \<Rightarrow> win \<Rightarrow> win" where
  "win_add cap now t n w =
     (let w1 = (if win_restart cap t n w then \<lparr>w_time = t, w_id = n - cap, w_items = []\<rparr> else w);
          xs = take cap (replicate (n - w_id w1) 0 @ w_items w1);
          i = max n (w_id w1)
      in \<lparr>w_time = w_time w1, w_id = i, w_items = (if now > 1 then xs[i - n := now] else xs)\<rparr>)"

definition win_test :: "int \<Rightarrow> nat \<Rightarrow> win \<Rightarrow> bool" where
  "win_test t n w \<longleftrightarrow>
     n \<noteq> 0 \<and> (if t = w_time w
              then w_id w < n \<or> w_id w - n < length (w_items w) \<and> w_items w ! (w_id w - n) = 0
              else w_time w < t)"

fun reap_items :: "int \<Rightarrow> int \<Rightarrow> bool \<Rightarrow> int list \<Rightarrow> int list" where
  "reap_items now tb e [] = []"
| "reap_items now tb e (t # ts) =
     (if t = SEQ_EXPIRED then t # ts
      else let e' = (e \<or> t \<noteq> 0 \<and> t + tb < now)
           in (if e' then SEQ_EXPIRED else t) # reap_items now tb e' ts)"

definition win_reap :: "int \<Rightarrow> int \<Rightarrow> win \<Rightarrow> win" where
  "win_reap now tb w = (if tb = 0 then w else w\<lparr>w_items := reap_items now tb False (w_items w)\<rparr>)"

text \<open>The abstraction, and the invariant of the receive state in window mode.\<close>

definition win_of :: "packet_id_rec \<Rightarrow> win" where
  "win_of p = \<lparr>w_time = pr_time p, w_id = unat (pr_id p),
     w_items = (case pr_seq_list p of None \<Rightarrow> [] | Some sl \<Rightarrow> circ_items sl)\<rparr>"

definition rec_wf :: "packet_id_rec \<Rightarrow> bool" where
  "rec_wf p \<longleftrightarrow> pr_initialized p \<and>
     (case pr_seq_list p of
        None \<Rightarrow> pr_seq_backtrack p = 0 \<and> pr_time_backtrack p = 0
      | Some sl \<Rightarrow> circ_wf sl \<and> circ_cap sl = unat (pr_seq_backtrack p)
                   \<and> 0 < circ_cap sl \<and> circ_cap sl \<le> 65536)"

definition win_cap :: "packet_id_rec \<Rightarrow> nat" where
  "win_cap p = unat (pr_seq_backtrack p)"

lemma length_reap_items [simp]: "length (reap_items now tb e xs) = length xs"
  by (induction xs arbitrary: e) (auto simp: Let_def)

lemma reap_items_nth:
  "k < length xs \<Longrightarrow> reap_items now tb e xs ! k = xs ! k \<or> reap_items now tb e xs ! k = SEQ_EXPIRED"
proof (induction xs arbitrary: e k)
  case Nil
  then show ?case by simp
next
  case (Cons t ts)
  then show ?case by (cases k) (auto simp: Let_def)
qed


section \<open>The code refines the abstract window\<close>

lemma add_loop_push_n:
  "packet_id_add_loop n i sl =
     (if i < n then bindE (circ.push_n (unat n - unat i) SEQ_UNSEEN sl) (\<lambda>sl'. Inr (n, sl')) else Inr (i, sl))"
proof (induction n i sl rule: packet_id_add_loop.induct)
  case (1 n i sl)
  show ?case
  proof (cases "i < n")
    case True
    then have lt: "unat i < unat n" by (simp add: word_less_nat_alt)
    then have suc: "unat (i + 1) = Suc (unat i)"
      using unat_lt [of n] by (subst unat_word_ariths) simp
    have d: "unat n - unat i = Suc (unat n - unat (i + 1))" using lt suc by simp
    show ?thesis
    proof (cases "CIRC_LIST_PUSH SEQ_UNSEEN sl")
      case (Inl e)
      then show ?thesis using True d by (simp add: packet_id_add_loop.simps)
    next
      case (Inr sl1)
      have eq: "i + 1 = n" if "\<not> i + 1 < n"
        using that suc lt by (simp add: word_unat_eq_iff word_less_nat_alt)
      have "packet_id_add_loop n i sl = packet_id_add_loop n (i + 1) sl1"
        using True Inr by (subst packet_id_add_loop.simps) simp
      also have "\<dots> = bindE (circ.push_n (unat n - unat (i + 1)) SEQ_UNSEEN sl1) (\<lambda>sl'. Inr (n, sl'))"
        using 1 [OF True Inr] eq by (cases "i + 1 < n") auto
      finally show ?thesis using True Inr d by simp
    qed
  next
    case False
    then show ?thesis by (simp add: packet_id_add_loop.simps)
  qed
qed

lemma add_loop_ok:
  assumes "circ_wf sl"
  shows "\<exists>sl'. packet_id_add_loop n i sl = Inr (max n i, sl') \<and> circ_wf sl' \<and> circ_cap sl' = circ_cap sl
           \<and> circ_items sl' = take (circ_cap sl) (replicate (unat n - unat i) 0 @ circ_items sl)"
proof (cases "i < n")
  case True
  then show ?thesis
    using circ.push_n_law [OF assms, of "unat n - unat i" SEQ_UNSEEN]
    by (auto simp: add_loop_push_n max_def)
next
  case False
  then show ?thesis
    using circ.size_law [OF assms] assms
    by (auto simp: add_loop_push_n max_def word_less_nat_alt word_le_nat_alt)
qed

lemma reap_loop_ok:
  assumes "circ_wf sl" "k \<le> length (circ_items sl)"
  shows "\<exists>sl'. packet_id_reap_loop now tb (int k) e sl = Inr sl' \<and> circ_wf sl' \<and> circ_cap sl' = circ_cap sl
           \<and> circ_items sl' = take k (circ_items sl) @ reap_items now tb e (drop k (circ_items sl))"
  using assms
proof (induction "length (circ_items sl) - k" arbitrary: k e sl)
  case 0
  then show ?case
    by (subst packet_id_reap_loop.simps) (auto simp: CIRC_LIST_SIZE_def)
next
  case (Suc d)
  then have k: "k < length (circ_items sl)" by simp
  let ?t = "circ_items sl ! k"
  let ?e = "e \<or> ?t \<noteq> 0 \<and> ?t + tb < now"
  have dr: "drop k (circ_items sl) = ?t # drop (Suc k) (circ_items sl)"
    using k by (simp only: Cons_nth_drop_Suc)
  have sz: "int k < CIRC_LIST_SIZE sl" using k by (simp add: CIRC_LIST_SIZE_def)
  have it: "CIRC_LIST_ITEM sl (int k) = Inr ?t" using circ_item [OF Suc.prems(1) k] .
  show ?case
  proof (cases "?t = SEQ_EXPIRED")
    case True
    have "take k (circ_items sl) @ SEQ_EXPIRED # drop (Suc k) (circ_items sl) = circ_items sl"
      using dr True append_take_drop_id [of k "circ_items sl"] by simp
    with True show ?thesis
      using Suc.prems sz it dr by (subst packet_id_reap_loop.simps) simp
  next
    case False
    define v where "v = (if ?e then SEQ_EXPIRED else ?t)"
    obtain sl1 where sl1: "(if ?e then CIRC_LIST_ITEM_set sl (int k) SEQ_EXPIRED else Inr sl) = Inr sl1"
      "circ_wf sl1" "circ_cap sl1 = circ_cap sl" "circ_items sl1 = (circ_items sl)[k := v]"
      using circ_item_set [OF Suc.prems(1) k, of SEQ_EXPIRED] Suc.prems(1) that by (cases ?e) (auto simp: v_def)
    have len: "length (circ_items sl1) = length (circ_items sl)" using sl1(4) by simp
    have "\<exists>sl'. packet_id_reap_loop now tb (int (Suc k)) ?e sl1 = Inr sl' \<and> circ_wf sl' \<and> circ_cap sl' = circ_cap sl1
           \<and> circ_items sl' = take (Suc k) (circ_items sl1) @ reap_items now tb ?e (drop (Suc k) (circ_items sl1))"
      using Suc.hyps(2) k len sl1 by (intro Suc.hyps(1)) auto
    moreover have "packet_id_reap_loop now tb (int k) e sl = packet_id_reap_loop now tb (int (Suc k)) ?e sl1"
    proof -
      have e: "(if \<not> e \<and> ?t \<noteq> 0 \<and> ?t + tb < now then True else e) = ?e" by auto
      have "packet_id_reap_loop now tb (int k) e sl =
          bindE (if ?e then CIRC_LIST_ITEM_set sl (int k) SEQ_EXPIRED else Inr sl)
            (\<lambda>sl'. packet_id_reap_loop now tb (int k + 1) ?e sl')"
        using sz it False unfolding packet_id_reap_loop.simps [of now tb "int k" e sl] Let_def
        by (simp only: e if_True if_False bindE_Inr)
      then show ?thesis unfolding sl1(1) by (simp add: add.commute)
    qed
    moreover have "take (Suc k) ((circ_items sl)[k := v]) = take k (circ_items sl) @ [v]"
      using k by (simp add: take_Suc_conv_app_nth)
    moreover have "reap_items now tb e (drop k (circ_items sl)) = v # reap_items now tb ?e (drop (Suc k) (circ_items sl))"
      using False by (simp add: dr v_def Let_def)
    ultimately show ?thesis using sl1 by auto
  qed
qed

lemma unat_sub_le: "y \<le> x \<Longrightarrow> unat (x - y) = unat x - unat (y :: 'a::len word)"
  by (rule unat_sub)

lemma sint_small: "unat (x :: u64) < 2 ^ 63 \<Longrightarrow> sint x = int (unat x)"
proof -
  assume "unat x < 2 ^ 63"
  then have "int (unat x) < int (2 ^ 63)" by (simp only: of_nat_less_iff)
  then have "uint x < 2 ^ 63" by simp
  moreover have "- (2 ^ 63) \<le> uint x" by (rule order_trans [OF _ uint_nonnegative]) simp
  ultimately have "signed_take_bit 63 (uint x) = uint x" by (rule signed_take_bit_int_eq_self [rotated])
  then show ?thesis by (simp add: sint_uint)
qed

lemma reap_refines:
  assumes wf: "rec_wf p"
  shows "\<exists>p'. packet_id_reap now p = Inr p' \<and> rec_wf p' \<and> win_of p' = win_reap now (pr_time_backtrack p) (win_of p)
           \<and> pr_seq_backtrack p' = pr_seq_backtrack p \<and> pr_time_backtrack p' = pr_time_backtrack p
           \<and> (pr_seq_list p' = None) = (pr_seq_list p = None)"
proof (cases "pr_time_backtrack p = 0")
  case True
  then show ?thesis
    using wf by (auto simp: packet_id_reap_def rec_wf_def win_of_def win_reap_def split: option.splits)
next
  case False
  with wf obtain sl where sl: "pr_seq_list p = Some sl" "circ_wf sl"
    by (auto simp: rec_wf_def split: option.splits)
  from reap_loop_ok [OF sl(2), of 0 now "pr_time_backtrack p" False] obtain sl' where
    "packet_id_reap_loop now (pr_time_backtrack p) 0 False sl = Inr sl'" "circ_wf sl'"
    "circ_cap sl' = circ_cap sl" "circ_items sl' = reap_items now (pr_time_backtrack p) False (circ_items sl)"
    by auto
  with False wf sl show ?thesis
    by (auto simp: packet_id_reap_def rec_wf_def win_of_def win_reap_def)
qed

lemma test_refines:
  assumes wf: "rec_wf p" and sl: "pr_seq_list p = Some sl"
  shows "\<exists>p'. packet_id_test p pin = Inr (win_test (pn_time pin) (unat (pn_id pin)) (win_of p), p')
           \<and> (\<exists>m. p' = p\<lparr>pr_max_backtrack_stat := m\<rparr>)"
proof -
  let ?n = "unat (pn_id pin)"
  let ?d = "pr_id p - pn_id pin"
  from wf sl have w: "pr_initialized p" "circ_wf sl" "circ_cap sl = unat (pr_seq_backtrack p)"
    "0 < circ_cap sl" "circ_cap sl \<le> 65536" by (auto simp: rec_wf_def)
  have sb: "pr_seq_backtrack p \<noteq> 0" using w by auto
  have n0: "?n = 0 \<longleftrightarrow> pn_id pin = 0" by (simp add: unat_eq_0)
  have sz: "0 \<le> x_size sl" "x_size sl \<le> 65536" using w by (auto simp: circ_wf_def circ_cap_def)
  have uz: "uint (word_of_int (x_size sl) :: u32) = x_size sl"
    using sz by (subst uint_word_of_int_eq) (simp add: take_bit_int_eq_self)
  have ge: "ucast (word_of_int (CIRC_LIST_SIZE sl) :: u32) \<le> ?d \<longleftrightarrow> x_size sl \<le> uint ?d"
    using uz sz by (simp add: CIRC_LIST_SIZE_def word_le_def unsigned_ucast_eq take_bit_int_eq_self)
  have same: "p = p\<lparr>pr_max_backtrack_stat := pr_max_backtrack_stat p\<rparr>" by simp
  show ?thesis
  proof (cases "pn_id pin \<noteq> 0 \<and> pn_time pin = pr_time p \<and> \<not> pr_id p < pn_id pin")
    case False
    then have "packet_id_test p pin = Inr (win_test (pn_time pin) ?n (win_of p), p)"
      using w(1) sb n0
      by (cases "pn_time pin = pr_time p"; cases "pn_id pin = 0")
         (simp_all add: packet_id_test_def win_test_def win_of_def word_less_nat_alt)
    with same show ?thesis by blast
  next
    case True
    then have d: "unat ?d = unat (pr_id p) - ?n" by (intro unat_sub_le) (simp add: not_less)
    define p' where "p' = (if ?d > pr_max_backtrack_stat p then p\<lparr>pr_max_backtrack_stat := ?d\<rparr> else p)"
    have p': "\<exists>m. p' = p\<lparr>pr_max_backtrack_stat := m\<rparr>" "pr_seq_list p' = Some sl"
      unfolding p'_def using same sl by (auto intro: exI [of _ "pr_max_backtrack_stat p"])
    have step: "packet_id_test p pin =
        (if ucast (word_of_int (CIRC_LIST_SIZE sl) :: u32) \<le> ?d then Inr (False, p')
         else bindE (CIRC_LIST_ITEM sl (c_int (uint ?d))) (\<lambda>v.
              if v = 0 then Inr (True, p') else Inr (False, p')))"
      using True w(1) sb p'(2) unfolding packet_id_test_def Let_def p'_def [symmetric]
      by (simp only: option.case c_assert_True bindE_Inr if_True if_False simp_thms)
    show ?thesis
    proof (cases "x_size sl \<le> uint ?d")
      case big: True
      then have "nat (x_size sl) \<le> unat (pr_id p) - ?n"
        unfolding d [symmetric] by (simp add: nat_le_iff)
      with big step ge p' True n0 sl show ?thesis
        by (auto simp: win_test_def win_of_def word_less_nat_alt)
    next
      case small: False
      have ud: "uint ?d = int (unat (pr_id p) - ?n)" using d by (simp add: uint_nat)
      then have len: "unat (pr_id p) - ?n < length (circ_items sl)" using small by simp
      have "c_int (uint ?d) = uint ?d" using small sz uint_nonnegative [of ?d] by (intro c_int_id) linarith+
      then have "packet_id_test p pin = Inr (circ_items sl ! (unat (pr_id p) - ?n) = 0, p')"
        using step ge small circ_item [OF w(2) len] ud by simp
      with p' True n0 sl len show ?thesis
        by (auto simp: win_test_def win_of_def word_less_nat_alt)
    qed
  qed
qed

lemma add_refines:
  assumes wf: "rec_wf p" and sl: "pr_seq_list p = Some sl"
    and near: "win_restart (win_cap p) (pn_time pin) (unat (pn_id pin)) (win_of p)
               \<or> unat (pr_id p) - unat (pn_id pin) < 2 ^ 63"
  shows "\<exists>p'. packet_id_add now p pin = Inr p' \<and> rec_wf p'
           \<and> win_of p' = win_add (win_cap p) now (pn_time pin) (unat (pn_id pin)) (win_of p)
           \<and> pr_seq_backtrack p' = pr_seq_backtrack p \<and> pr_time_backtrack p' = pr_time_backtrack p
           \<and> pr_seq_list p' \<noteq> None"
proof -
  let ?n = "unat (pn_id pin)"
  let ?sb = "pr_seq_backtrack p"
  from wf sl have w: "pr_initialized p" "circ_wf sl" "circ_cap sl = unat ?sb"
    "0 < circ_cap sl" "circ_cap sl \<le> 65536" by (auto simp: rec_wf_def)
  define restart where "restart = (CIRC_LIST_SIZE sl = 0 \<or> pn_time pin > pr_time p
      \<or> pn_id pin \<ge> ?sb \<and> pn_id pin - ?sb > pr_id p)"
  have jump: "pn_id pin \<ge> ?sb \<and> pn_id pin - ?sb > pr_id p \<longleftrightarrow> unat (pr_id p) + unat ?sb < ?n"
    by (cases "pn_id pin \<ge> ?sb") (auto simp: word_less_nat_alt word_le_nat_alt unat_sub_le)
  have empty: "CIRC_LIST_SIZE sl = 0 \<longleftrightarrow> circ_items sl = []"
    using w(2) by (auto simp: CIRC_LIST_SIZE_def circ_wf_def simp flip: length_0_conv)
  have r: "restart \<longleftrightarrow> win_restart (win_cap p) (pn_time pin) ?n (win_of p)"
    using jump empty sl by (auto simp: restart_def win_restart_def win_of_def win_cap_def)
  define p1 where "p1 = (if restart then p\<lparr>pr_time := pn_time pin,
      pr_id := (if pn_id pin > ?sb then pn_id pin - ?sb else 0)\<rparr> else p)"
  define sl1 where "sl1 = (if restart then CIRC_LIST_RESET sl else sl)"
  define w1 where "w1 = (if restart then \<lparr>w_time = pn_time pin, w_id = ?n - unat ?sb, w_items = []\<rparr> else win_of p)"
  have id1: "unat (pr_id p1) = w_id w1"
    by (auto simp: p1_def w1_def win_of_def word_less_nat_alt unat_sub_le word_le_nat_alt)
  have wf1: "circ_wf sl1" "circ_cap sl1 = circ_cap sl" "circ_items sl1 = w_items w1"
    using circ.reset_law [OF w(2)] w(2) sl by (auto simp: sl1_def w1_def win_of_def)
  from add_loop_ok [OF wf1(1), of "pn_id pin" "pr_id p1"] obtain sl2 where
    sl2: "packet_id_add_loop (pn_id pin) (pr_id p1) sl1 = Inr (max (pn_id pin) (pr_id p1), sl2)"
    "circ_wf sl2" "circ_cap sl2 = circ_cap sl"
    "circ_items sl2 = take (circ_cap sl) (replicate (?n - w_id w1) 0 @ w_items w1)"
    using id1 wf1 by auto
  let ?i = "max (pn_id pin) (pr_id p1)"
  let ?diff = "?i - pn_id pin"
  have ui: "unat ?i = max ?n (w_id w1)"
    using id1 by (auto simp: max_def word_le_nat_alt)
  have ud: "unat ?diff = max ?n (w_id w1) - ?n"
    using unat_sub_le [of "pn_id pin" ?i] ui by simp
  have "w_id w1 - ?n < 2 ^ 63"
    using near r by (auto simp: w1_def win_of_def)
  then have sd: "sint ?diff = int (max ?n (w_id w1) - ?n)"
    using ud sint_small [of ?diff] by (simp add: max_def split: if_splits)
  define k where "k = max ?n (w_id w1) - ?n"
  have sdk: "sint ?diff = int k" using sd by (simp only: k_def)
  have sz2: "x_size sl2 \<le> 65536" using sl2(2,3) w by (auto simp: circ_wf_def circ_cap_def)
  obtain sl3 where sl3: "(if sint ?diff < CIRC_LIST_SIZE sl2 \<and> now > SEQ_EXPIRED
        then CIRC_LIST_ITEM_set sl2 (c_int (sint ?diff)) now else Inr sl2) = Inr sl3"
    "circ_wf sl3" "circ_cap sl3 = circ_cap sl"
    "circ_items sl3 = (if now > 1 then (circ_items sl2)[k := now] else circ_items sl2)"
  proof (cases "k < length (circ_items sl2) \<and> now > 1")
    case True
    then have "c_int (int k) = int k" using sz2 by (intro c_int_id) auto
    then have "c_int (sint ?diff) = int k" by (simp only: sdk)
    moreover have "int k < CIRC_LIST_SIZE sl2" using True by (auto simp: CIRC_LIST_SIZE_def)
    ultimately show ?thesis
      using that circ_item_set [OF sl2(2), of k now] True sl2(3) sdk by auto
  next
    case False
    then have "(if now > 1 then (circ_items sl2)[k := now] else circ_items sl2) = circ_items sl2"
      by (auto simp: list_update_beyond not_less)
    moreover have "\<not> (sint ?diff < CIRC_LIST_SIZE sl2 \<and> now > SEQ_EXPIRED)"
      using False sdk by (auto simp: CIRC_LIST_SIZE_def)
    ultimately show ?thesis using that sl2 by auto
  qed
  let ?p' = "p1\<lparr>pr_id := ?i, pr_seq_list := Some sl3\<rparr>"
  have "packet_id_add now p pin = Inr ?p'"
  proof -
    have "packet_id_add now p pin =
      (let (p1, sl1) = (p1, sl1)
       in bindE (packet_id_add_loop (pn_id pin) (pr_id p1) sl1) (\<lambda>(id', sl2).
              let p2 = p1\<lparr>pr_id := id'\<rparr>; diff = sint (id' - pn_id pin)
              in bindE (if diff < CIRC_LIST_SIZE sl2 \<and> now > SEQ_EXPIRED
                        then CIRC_LIST_ITEM_set sl2 (c_int diff) now else Inr sl2)
                   (\<lambda>sl3. Inr (p2\<lparr>pr_seq_list := Some sl3\<rparr>))))"
      unfolding packet_id_add_def sl option.case p1_def sl1_def restart_def [symmetric]
      by (cases restart) (simp_all only: if_True if_False)
    also have "\<dots> = Inr ?p'"
      using sl2(1) sl3(1) by (simp add: Let_def)
    finally show ?thesis .
  qed
  moreover have "rec_wf ?p'"
    using w sl3 by (simp add: rec_wf_def p1_def)
  moreover have "win_of ?p' = win_add (win_cap p) now (pn_time pin) ?n (win_of p)"
  proof -
    have t1: "pr_time p1 = w_time w1" by (simp add: p1_def w1_def win_of_def)
    have w1': "(if win_restart (win_cap p) (pn_time pin) ?n (win_of p)
        then \<lparr>w_time = pn_time pin, w_id = ?n - win_cap p, w_items = []\<rparr> else win_of p) = w1"
      using r by (simp add: w1_def win_cap_def)
    show ?thesis
      unfolding win_add_def w1' Let_def
      using sl2(4) sl3(4) ui t1 w(3) by (simp add: win_of_def k_def win_cap_def)
  qed
  ultimately show ?thesis by (intro exI [of _ ?p']) (simp add: p1_def)
qed



section \<open>Safety of the abstract window\<close>

text \<open>
  \<open>H\<close> is the set of the pairs of time and sequence number accepted so far: none of
  them is ahead of the window, and those inside of it are marked.
\<close>

definition win_seen :: "(int \<times> nat) set \<Rightarrow> win \<Rightarrow> bool" where
  "win_seen H w \<longleftrightarrow>
     (H \<noteq> {} \<longrightarrow> w_items w \<noteq> []) \<and>
     (\<forall>(t, n)\<in>H. t < w_time w
        \<or> t = w_time w \<and> n \<le> w_id w
          \<and> (w_id w - n < length (w_items w) \<longrightarrow> w_items w ! (w_id w - n) \<noteq> 0))"

lemma win_seenI:
  assumes "H \<noteq> {} \<Longrightarrow> w_items w \<noteq> []"
    and "\<And>t n. (t, n) \<in> H \<Longrightarrow> t < w_time w \<or> t = w_time w \<and> n \<le> w_id w
           \<and> (w_id w - n < length (w_items w) \<longrightarrow> w_items w ! (w_id w - n) \<noteq> 0)"
  shows "win_seen H w"
  using assms by (auto simp: win_seen_def)

lemma win_seenD:
  assumes "win_seen H w" "(t, n) \<in> H"
  shows "t < w_time w \<or> t = w_time w \<and> n \<le> w_id w
           \<and> (w_id w - n < length (w_items w) \<longrightarrow> w_items w ! (w_id w - n) \<noteq> 0)"
    and "w_items w \<noteq> []"
  using assms by (auto simp: win_seen_def)

lemma win_test_fresh: "win_seen H w \<Longrightarrow> win_test t n w \<Longrightarrow> (t, n) \<notin> H"
  using win_seenD(1) [of H w t n] by (auto simp: win_test_def split: if_splits)

lemma reap_items_nonzero:
  "k < length xs \<Longrightarrow> xs ! k \<noteq> 0 \<Longrightarrow> reap_items now tb e xs ! k \<noteq> 0"
  using reap_items_nth [of k xs now tb e] by auto

lemma win_seen_reap: "win_seen H w \<Longrightarrow> win_seen H (win_reap now tb w)"
proof (cases "tb = 0")
  case False
  assume seen: "win_seen H w"
  let ?xs = "reap_items now tb False (w_items w)"
  have len: "length ?xs = length (w_items w)" by simp
  have ne: "?xs \<noteq> []" if "w_items w \<noteq> []" using that len by (metis length_0_conv)
  show ?thesis
  proof (rule win_seenI)
    show "w_items (win_reap now tb w) \<noteq> []" if "H \<noteq> {}"
      using seen that ne False by (auto simp: win_seen_def win_reap_def)
    show "t < w_time (win_reap now tb w) \<or> t = w_time (win_reap now tb w) \<and> n \<le> w_id (win_reap now tb w)
        \<and> (w_id (win_reap now tb w) - n < length (w_items (win_reap now tb w)) \<longrightarrow>
           w_items (win_reap now tb w) ! (w_id (win_reap now tb w) - n) \<noteq> 0)" if "(t, n) \<in> H" for t n
      using win_seenD(1) [OF seen that] False by (auto simp: win_reap_def reap_items_nonzero)
  qed
qed (simp add: win_reap_def)

lemma win_seen_restart:
  assumes seen: "win_seen H w" and test: "win_test t n w" and now: "now > 1" and cap: "0 < cap"
    and restart: "win_restart cap t n w"
  shows "win_seen (insert (t, n) H) (win_add cap now t n w)"
proof -
  let ?w = "win_add cap now t n w"
  have n: "n \<noteq> 0" "w_time w \<le> t" using test by (auto simp: win_test_def split: if_splits)
  have xs: "take cap (replicate (n - (n - cap)) (0 :: int)) = replicate (min n cap) 0"
    by (cases "cap \<le> n") auto
  have w: "w_time ?w = t" "w_id ?w = n" "w_items ?w = (replicate (min n cap) 0)[0 := now]"
    using restart now xs by (auto simp: win_add_def Let_def)
  have ne: "w_items ?w \<noteq> []" "w_items ?w ! 0 = now" "length (w_items ?w) \<le> cap"
    using n cap w(3) by auto
  have "t' < t \<or> t' = t \<and> n' \<le> n \<and> \<not> n - n' < length (w_items ?w)" if "(t', n') \<in> H" for t' n'
  proof -
    have "t' < w_time w \<or> t' = w_time w \<and> n' \<le> w_id w" "w_items w \<noteq> []"
      using seen that by (auto simp: win_seen_def)
    then show ?thesis using n(2) restart ne(3) by (auto simp: win_restart_def)
  qed
  with ne w now show ?thesis by (fastforce simp: win_seen_def)
qed

lemma win_seen_advance:
  assumes seen: "win_seen H w" and test: "win_test t n w" and now: "now > 1"
    and restart: "\<not> win_restart cap t n w" and cap: "0 < cap"
  shows "win_seen (insert (t, n) H) (win_add cap now t n w)"
proof -
  let ?w = "win_add cap now t n w"
  let ?xs = "take cap (replicate (n - w_id w) 0 @ w_items w)"
  let ?i = "max n (w_id w)"
  have t: "t = w_time w" using test restart by (auto simp: win_test_def win_restart_def split: if_splits)
  have w: "w_time ?w = t" "w_id ?w = ?i" "w_items ?w = ?xs[?i - n := now]"
    using restart now t by (simp_all add: win_add_def Let_def)
  have ne: "w_items ?w \<noteq> []" using restart cap w(3) by (auto simp: win_restart_def)
  have new: "?i - n < length ?xs \<longrightarrow> ?xs[?i - n := now] ! (?i - n) \<noteq> 0" using now by simp
  have old: "?xs[?i - n := now] ! (?i - n') \<noteq> 0"
    if "(t, n') \<in> H" "?i - n' < length ?xs" for n'
  proof -
    have n': "n' \<le> w_id w" "w_id w - n' < length (w_items w) \<longrightarrow> w_items w ! (w_id w - n') \<noteq> 0"
      using seen that t by (auto simp: win_seen_def)
    have i: "?i - n' = (n - w_id w) + (w_id w - n')" using n' by auto
    have "?i - n' < cap" using that(2) by simp
    then have "?xs ! (?i - n') = (replicate (n - w_id w) 0 @ w_items w) ! (?i - n')" by (rule nth_take)
    also have "\<dots> = w_items w ! (w_id w - n')" unfolding i by (simp add: nth_append)
    finally have "?xs ! (?i - n') = w_items w ! (w_id w - n')" .
    moreover have "w_id w - n' < length (w_items w)" using that(2) unfolding i by (auto simp: min_def split: if_splits)
    ultimately have "?xs ! (?i - n') \<noteq> 0" using n' by simp
    then show ?thesis using now that(2) by (cases "?i - n' = ?i - n") auto
  qed
  have "t' < t \<or> t' = t \<and> n' \<le> ?i" if "(t', n') \<in> H" for t' n'
    using seen that t by (fastforce simp: win_seen_def)
  note all = this
  show ?thesis
  proof (rule win_seenI)
    show "w_items ?w \<noteq> []" by (rule ne)
    show "t' < w_time ?w \<or> t' = w_time ?w \<and> n' \<le> w_id ?w
        \<and> (w_id ?w - n' < length (w_items ?w) \<longrightarrow> w_items ?w ! (w_id ?w - n') \<noteq> 0)"
      if "(t', n') \<in> insert (t, n) H" for t' n'
    proof (cases "(t', n') = (t, n)")
      case True
      then show ?thesis using new unfolding w by simp
    next
      case False
      then have "(t', n') \<in> H" using that by blast
      then show ?thesis using all [of t' n'] old [of n'] unfolding w length_list_update by blast
    qed
  qed
qed

lemma win_seen_add:
  assumes "win_seen H w" "win_test t n w" "now > 1" "0 < cap"
  shows "win_seen (insert (t, n) H) (win_add cap now t n w)"
  using assms win_seen_restart win_seen_advance by blast


text \<open>
  Once an entry has expired, all older ones have: entries are marked expired from
  some position on, new entries come in front and an expired entry is never reused.
\<close>

definition expired_tail :: "int list \<Rightarrow> bool" where
  "expired_tail xs \<longleftrightarrow> (\<forall>i j. i \<le> j \<longrightarrow> j < length xs \<longrightarrow> xs ! i = SEQ_EXPIRED \<longrightarrow> xs ! j = SEQ_EXPIRED)"

lemma expired_tail_Nil [simp]: "expired_tail []"
  by (simp add: expired_tail_def)

lemma expired_tail_Cons:
  "expired_tail (x # xs) \<longleftrightarrow> expired_tail xs \<and> (x = SEQ_EXPIRED \<longrightarrow> (\<forall>y\<in>set xs. y = SEQ_EXPIRED))"
proof
  assume l: "expired_tail (x # xs)"
  have "xs ! j = SEQ_EXPIRED" if "i \<le> j" "j < length xs" "xs ! i = SEQ_EXPIRED" for i j
    using l [unfolded expired_tail_def, rule_format, of "Suc i" "Suc j"] that by simp
  moreover have "xs ! j = SEQ_EXPIRED" if "x = SEQ_EXPIRED" "j < length xs" for j
    using l [unfolded expired_tail_def, rule_format, of 0 "Suc j"] that by simp
  ultimately show "expired_tail xs \<and> (x = SEQ_EXPIRED \<longrightarrow> (\<forall>y\<in>set xs. y = SEQ_EXPIRED))"
    by (auto simp: expired_tail_def in_set_conv_nth)
next
  assume r: "expired_tail xs \<and> (x = SEQ_EXPIRED \<longrightarrow> (\<forall>y\<in>set xs. y = SEQ_EXPIRED))"
  show "expired_tail (x # xs)"
    unfolding expired_tail_def
  proof (intro allI impI)
    fix i j assume "i \<le> j" "j < length (x # xs)" "(x # xs) ! i = SEQ_EXPIRED"
    with r show "(x # xs) ! j = SEQ_EXPIRED"
      by (cases i; cases j) (auto simp: expired_tail_def)
  qed
qed

text \<open>
  What one pass of \<open>packet_id_reap\<close> does to the window: from the first entry on that was
  received too long ago, every entry is expired.
\<close>

lemma reap_items_expired: "\<forall>y\<in>set xs. y = SEQ_EXPIRED \<Longrightarrow> reap_items now tb e xs = xs"
  by (cases xs) auto

lemma reap_items_all: "expired_tail xs \<Longrightarrow> \<forall>y\<in>set (reap_items now tb True xs). y = SEQ_EXPIRED"
  by (induction xs) (auto simp: expired_tail_Cons)

lemma reap_items_old:
  assumes "expired_tail xs" "i \<le> j" "j < length xs" "xs ! i \<noteq> 0" "xs ! i + tb < now"
  shows "reap_items now tb e xs ! j = SEQ_EXPIRED"
  using assms
proof (induction xs arbitrary: i j e)
  case Nil
  then show ?case by simp
next
  case (Cons x xs)
  show ?case
  proof (cases "x = SEQ_EXPIRED")
    case True
    then show ?thesis using Cons.prems by (cases j) (auto simp: expired_tail_Cons)
  next
    case False
    let ?e = "e \<or> x \<noteq> 0 \<and> x + tb < now"
    show ?thesis
    proof (cases i)
      case 0
      then have ?e using Cons.prems by auto
      then show ?thesis
        using False Cons.prems reap_items_all [of xs now tb]
        by (cases j) (auto simp: expired_tail_Cons Let_def)
    next
      case (Suc i')
      then obtain j' where "j = Suc j'" using Cons.prems by (cases j) auto
      then show ?thesis
        using Suc False Cons.prems Cons.IH [of i' j' ?e] by (auto simp: expired_tail_Cons Let_def)
    qed
  qed
qed

lemma expired_tail_reap: "expired_tail xs \<Longrightarrow> expired_tail (reap_items now tb e xs)"
proof (induction xs arbitrary: e)
  case Nil
  then show ?case by simp
next
  case (Cons x xs)
  let ?e = "e \<or> x \<noteq> 0 \<and> x + tb < now"
  have xs: "expired_tail xs" using Cons.prems by (simp add: expired_tail_Cons)
  show ?case
  proof (cases "x \<noteq> SEQ_EXPIRED \<and> ?e")
    case True
    then show ?thesis
      using Cons.IH [OF xs, of True] reap_items_all [OF xs, of now tb] by (simp add: Let_def expired_tail_Cons)
  next
    case False
    then show ?thesis
      using Cons.IH [OF xs, of False] Cons.prems by (auto simp: Let_def expired_tail_Cons)
  qed
qed

lemma expired_tail_take: "expired_tail xs \<Longrightarrow> expired_tail (take n xs)"
  by (auto simp: expired_tail_def)

lemma expired_tail_pushed: "expired_tail xs \<Longrightarrow> expired_tail (replicate n 0 @ xs)"
  by (induction n) (auto simp: expired_tail_Cons)

lemma expired_tail_update:
  assumes "expired_tail xs" "k < length xs \<longrightarrow> xs ! k = 0" "v \<noteq> SEQ_EXPIRED"
  shows "expired_tail (xs[k := v])"
  unfolding expired_tail_def
proof (intro allI impI)
  fix i j assume *: "i \<le> j" "j < length (xs[k := v])" "xs[k := v] ! i = SEQ_EXPIRED"
  then have i: "i \<noteq> k" "xs ! i = SEQ_EXPIRED" using assms(3) by (cases "i = k"; simp)+
  then have "xs ! j = SEQ_EXPIRED" using * assms(1) by (auto simp: expired_tail_def)
  moreover from this have "j \<noteq> k" using assms(2) * by auto
  ultimately show "xs[k := v] ! j = SEQ_EXPIRED" by simp
qed

lemma expired_tail_add:
  assumes "expired_tail (w_items w)" "win_test t n w" "now > 1"
  shows "expired_tail (w_items (win_add cap now t n w))"
proof -
  define w1 where "w1 = (if win_restart cap t n w then \<lparr>w_time = t, w_id = n - cap, w_items = []\<rparr> else w)"
  let ?xs = "take cap (replicate (n - w_id w1) 0 @ w_items w1)"
  let ?k = "max n (w_id w1) - n"
  have items: "w_items (win_add cap now t n w) = ?xs[?k := now]"
    using assms(3) by (simp add: win_add_def Let_def w1_def)
  have "expired_tail ?xs"
    using assms(1) by (intro expired_tail_take expired_tail_pushed) (simp add: w1_def)
  moreover have "?xs ! ?k = 0" if "?k < length ?xs"
  proof (cases "w_id w1 < n")
    case True
    then show ?thesis using that by (cases cap) (auto simp: nth_append)
  next
    case False
    then have "\<not> win_restart cap t n w"
      using assms(2) that by (auto simp: w1_def win_test_def split: if_splits)
    then have "w1 = w" "t = w_time w" using assms(2)
      by (auto simp: w1_def win_test_def win_restart_def split: if_splits)
    then show ?thesis using False that assms(2) by (simp add: win_test_def)
  qed
  ultimately show ?thesis unfolding items using assms(3) by (intro expired_tail_update) auto
qed


section \<open>The exact set of remembered packets\<close>








section \<open>The interface: every item at most once\<close>

text \<open>A run of a filter over a list of events, with the verdict on each.\<close>

fun run_steps :: "('e \<Rightarrow> 's \<Rightarrow> (bool \<times> 's) cres) \<Rightarrow> 'e list \<Rightarrow> 's \<Rightarrow> (bool list \<times> 's) cres" where
  "run_steps step [] s = Inr ([], s)"
| "run_steps step (e # es) s =
     bindE (step e s) (\<lambda>(r, s1).
     bindE (run_steps step es s1) (\<lambda>(rs, s2). Inr (r # rs, s2)))"

definition accepted :: "'e list \<Rightarrow> bool list \<Rightarrow> 'e list" where
  "accepted es rs = map fst (filter snd (zip es rs))"

lemma accepted_simps [simp]:
  "accepted [] rs = []"
  "accepted (e # es) (r # rs) = (if r then e # accepted es rs else accepted es rs)"
  by (auto simp: accepted_def)

locale once_only =
  fixes inv :: "'k set \<Rightarrow> 's \<Rightarrow> bool"
    and step :: "'e \<Rightarrow> 's \<Rightarrow> (bool \<times> 's) cres"
    and key :: "'e \<Rightarrow> 'k"
    and ok :: "'e \<Rightarrow> bool"
  assumes step_law: "inv H s \<Longrightarrow> ok e \<Longrightarrow>
     \<exists>r s'. step e s = Inr (r, s') \<and> (if r then key e \<notin> H \<and> inv (insert (key e) H) s' else inv H s')"
begin

lemma run_once:
  assumes "inv H s" "\<forall>e\<in>set es. ok e"
  shows "\<exists>rs s'. run_steps step es s = Inr (rs, s') \<and> length rs = length es
           \<and> inv (H \<union> key ` set (accepted es rs)) s'
           \<and> distinct (map key (accepted es rs)) \<and> key ` set (accepted es rs) \<inter> H = {}"
  using assms
proof (induction es arbitrary: H s)
  case Nil
  then show ?case by simp
next
  case (Cons e es)
  from step_law [of H s e] Cons.prems obtain r s1 where s1: "step e s = Inr (r, s1)"
    "if r then key e \<notin> H \<and> inv (insert (key e) H) s1 else inv H s1" by auto
  let ?H = "if r then insert (key e) H else H"
  from s1 have "inv ?H s1" by (auto split: if_splits)
  with Cons.IH [of ?H s1] Cons.prems obtain rs s2 where s2: "run_steps step es s1 = Inr (rs, s2)"
    "length rs = length es" "inv (?H \<union> key ` set (accepted es rs)) s2"
    "distinct (map key (accepted es rs))" "key ` set (accepted es rs) \<inter> ?H = {}" by auto
  from s1 s2 show ?case by (auto split: if_splits)
qed

end


section \<open>The receive state implements the interface\<close>

definition pin_key :: "packet_id_net \<Rightarrow> int \<times> nat" where
  "pin_key pin = (pn_time pin, unat (pn_id pin))"

text \<open>The invariant: in window mode the abstract one, otherwise all ids are in order.\<close>

definition replay_inv :: "(int \<times> nat) set \<Rightarrow> packet_id_rec \<Rightarrow> bool" where
  "replay_inv H p \<longleftrightarrow> rec_wf p \<and>
     (if pr_seq_list p = None
      then (H \<noteq> {} \<longrightarrow> pr_id p \<noteq> 0)
           \<and> (\<forall>(t, n)\<in>H. t < pr_time p \<or> t = pr_time p \<and> n \<le> unat (pr_id p))
      else win_seen H (win_of p) \<and> expired_tail (w_items (win_of p)))"

lemma rec_wf_items: "rec_wf p \<Longrightarrow> pr_seq_list p = Some sl \<Longrightarrow> length (circ_items sl) \<le> win_cap p \<and> 0 < win_cap p \<and> win_cap p \<le> 65536"
  using circ.size_law [of sl] by (auto simp: rec_wf_def win_cap_def)

lemma reap_test_refines:
  assumes wf: "rec_wf p"
  shows "\<exists>p'. packet_id_reap_test now p = Inr p' \<and> rec_wf p'
           \<and> win_of p' = (if pr_last_reap p + 5 \<le> now then win_reap now (pr_time_backtrack p) (win_of p) else win_of p)
           \<and> pr_seq_backtrack p' = pr_seq_backtrack p \<and> pr_time_backtrack p' = pr_time_backtrack p
           \<and> (pr_seq_list p' = None) = (pr_seq_list p = None)"
  using reap_refines [OF wf, of now] wf by (auto simp: packet_id_reap_test_def)

lemma replay_inv_reap:
  assumes "replay_inv H p"
  shows "\<exists>p'. packet_id_reap_test now p = Inr p' \<and> replay_inv H p'"
proof -
  have wf: "rec_wf p" using assms by (simp add: replay_inv_def)
  from reap_test_refines [OF wf, of now] obtain p' where p': "packet_id_reap_test now p = Inr p'" "rec_wf p'"
    "win_of p' = (if pr_last_reap p + 5 \<le> now then win_reap now (pr_time_backtrack p) (win_of p) else win_of p)"
    "(pr_seq_list p' = None) = (pr_seq_list p = None)" by (elim exE conjE) (rule that)
  let ?w = "if pr_last_reap p + 5 \<le> now then win_reap now (pr_time_backtrack p) (win_of p) else win_of p"
  have "w_time ?w = pr_time p" "w_id ?w = unat (pr_id p)"
    by (simp_all add: win_reap_def win_of_def)
  then have tm: "pr_time p' = pr_time p" "unat (pr_id p') = unat (pr_id p)"
    unfolding p'(3) [symmetric] by (simp_all add: win_of_def)
  have i: "pr_id p' = pr_id p" by (rule word_unat_eq_iff [THEN iffD2, OF tm(2)])
  have w: "win_seen H (win_of p') \<and> expired_tail (w_items (win_of p'))"
    if "win_seen H (win_of p) \<and> expired_tail (w_items (win_of p))"
    unfolding p'(3) using that win_seen_reap [of H "win_of p"]
    by (cases "pr_last_reap p + 5 \<le> now") (simp_all add: win_reap_def expired_tail_reap)
  have "replay_inv H p'"
  proof (cases "pr_seq_list p = None")
    case True
    then show ?thesis using assms p'(2,4) tm(1) i by (simp add: replay_inv_def)
  next
    case False
    then show ?thesis using assms p'(2,4) w unfolding replay_inv_def by (simp only: if_False simp_thms)
  qed
  with p'(1) show ?thesis by blast
qed

lemma test_add_window:
  assumes inv: "replay_inv H p" and sl: "pr_seq_list p = Some sl" and now: "now > 1"
  shows "\<exists>r p'. packet_id_test p pin = Inr (r, p') \<and> replay_inv H p'
           \<and> (r \<longrightarrow> pin_key pin \<notin> H
                \<and> (\<exists>p''. packet_id_add now p' pin = Inr p'' \<and> replay_inv (insert (pin_key pin) H) p''))"
proof -
  let ?t = "pn_time pin" and ?n = "unat (pn_id pin)"
  have wf: "rec_wf p" and seen: "win_seen H (win_of p)" and et: "expired_tail (w_items (win_of p))"
    using inv sl by (auto simp: replay_inv_def)
  from test_refines [OF wf sl, of pin] obtain m where
    p': "packet_id_test p pin = Inr (win_test ?t ?n (win_of p), p\<lparr>pr_max_backtrack_stat := m\<rparr>)" by blast
  let ?p = "p\<lparr>pr_max_backtrack_stat := m\<rparr>"
  have same: "rec_wf ?p" "win_of ?p = win_of p" "win_cap ?p = win_cap p" "pr_seq_list ?p = Some sl"
    using wf sl by (simp_all add: rec_wf_def win_of_def win_cap_def)
  have "pin_key pin \<notin> H \<and> (\<exists>p''. packet_id_add now ?p pin = Inr p'' \<and> replay_inv (insert (pin_key pin) H) p'')"
    if test: "win_test ?t ?n (win_of p)"
  proof -
    have items: "w_items (win_of p) = circ_items sl" "w_id (win_of p) = unat (pr_id p)"
      using sl by (simp_all add: win_of_def)
    have "win_restart (win_cap p) ?t ?n (win_of p) \<or> unat (pr_id p) - ?n < 2 ^ 63"
      using test rec_wf_items [OF wf sl] items
      by (auto simp: win_test_def win_restart_def split: if_splits)
    then obtain p'' where "packet_id_add now ?p pin = Inr p''" "rec_wf p''"
      "win_of p'' = win_add (win_cap p) now ?t ?n (win_of p)" "pr_seq_list p'' \<noteq> None"
      using add_refines [OF same(1,4), of pin now] same by auto
    then show ?thesis
      using win_seen_add [OF seen test now] rec_wf_items [OF wf sl] win_test_fresh [OF seen test]
        expired_tail_add [OF et test now]
      by (auto simp: replay_inv_def pin_key_def)
  qed
  with p' same inv sl seen et show ?thesis by (auto simp: replay_inv_def)
qed

lemma test_add_linear:
  assumes inv: "replay_inv H p" and sl: "pr_seq_list p = None"
  shows "\<exists>r. packet_id_test p pin = Inr (r, p)
           \<and> (r \<longrightarrow> pin_key pin \<notin> H
                \<and> (\<exists>p''. packet_id_add now p pin = Inr p'' \<and> replay_inv (insert (pin_key pin) H) p''))"
proof -
  have wf: "pr_initialized p" "pr_seq_backtrack p = 0" "pr_time_backtrack p = 0"
    using inv sl by (auto simp: replay_inv_def rec_wf_def)
  let ?r = "pn_id pin \<noteq> 0 \<and> (if pn_time pin = pr_time p then pr_id p = 0 \<or> pn_id pin = pr_id p + 1
      else pr_time p < pn_time pin \<and> pn_id pin = 1)"
  have "packet_id_test p pin = Inr (?r, p)"
    using wf by (auto simp: packet_id_test_def)
  moreover have "pin_key pin \<notin> H \<and> (\<exists>p''. packet_id_add now p pin = Inr p'' \<and> replay_inv (insert (pin_key pin) H) p'')"
    if r: ?r
  proof -
    have up: "unat (pr_id p) < unat (pn_id pin)" if "pn_time pin = pr_time p"
    proof (cases "pr_id p = 0")
      case True
      then show ?thesis using r by (simp add: unat_gt_0)
    next
      case False
      then have *: "pn_id pin = pr_id p + 1" using r that by simp
      then have "unat (pn_id pin) = (unat (pr_id p) + 1) mod 2 ^ 64" by (simp add: unat_word_ariths)
      moreover have "unat (pr_id p) + 1 \<noteq> 2 ^ 64"
        using calculation r by (metis mod_self unat_eq_0)
      ultimately show ?thesis using unat_lt [of "pr_id p"] by simp
    qed
    have old: "t < pr_time p \<or> t = pr_time p \<and> n \<le> unat (pr_id p)" if "(t, n) \<in> H" for t n
      using inv sl that by (auto simp: replay_inv_def)
    let ?p = "p\<lparr>pr_time := pn_time pin, pr_id := pn_id pin\<rparr>"
    have le: "pr_time p \<le> pn_time pin" using r by (auto split: if_splits)
    have "pin_key pin \<notin> H"
      using old [of "pn_time pin" "unat (pn_id pin)"] up r by (fastforce simp: pin_key_def split: if_splits)
    moreover have "t < pn_time pin \<or> t = pn_time pin \<and> n \<le> unat (pn_id pin)" if "(t, n) \<in> H" for t n
      using old [OF that] up le by fastforce
    then have "replay_inv (insert (pin_key pin) H) ?p"
      using inv sl r wf by (auto simp: replay_inv_def rec_wf_def pin_key_def)
    ultimately show ?thesis using sl by (simp add: packet_id_add_def)
  qed
  ultimately show ?thesis by blast
qed

lemma test_add_step:
  assumes inv: "replay_inv H p" and now: "now > 1"
  shows "\<exists>r p'. packet_id_test p pin = Inr (r, p') \<and> replay_inv H p'
           \<and> (r \<longrightarrow> pin_key pin \<notin> H
                \<and> (\<exists>p''. packet_id_add now p' pin = Inr p'' \<and> replay_inv (insert (pin_key pin) H) p''))"
proof (cases "pr_seq_list p")
  case None
  from test_add_linear [OF inv this, of pin now] inv show ?thesis by blast
next
  case (Some sl)
  from test_add_window [OF inv this now] show ?thesis by blast
qed

lemma check_replay_step:
  assumes inv: "replay_inv H p" and now: "now > 1"
  shows "\<exists>r p'. check_replay now p pin = Inr (r, p')
           \<and> (if r then pin_key pin \<notin> H \<and> replay_inv (insert (pin_key pin) H) p' else replay_inv H p')"
proof -
  from replay_inv_reap [OF inv, of now] obtain p1 where p1: "packet_id_reap_test now p = Inr p1"
    "replay_inv H p1" by blast
  from test_add_step [OF p1(2) now, of pin] obtain r p2 where p2: "packet_id_test p1 pin = Inr (r, p2)"
    "replay_inv H p2" and r: "r \<longrightarrow> pin_key pin \<notin> H
       \<and> (\<exists>p3. packet_id_add now p2 pin = Inr p3 \<and> replay_inv (insert (pin_key pin) H) p3)" by blast
  show ?thesis
  proof (cases r)
    case True
    with r obtain p3 where "packet_id_add now p2 pin = Inr p3" "replay_inv (insert (pin_key pin) H) p3"
      by blast
    then have "check_replay now p pin = Inr (True, p3)" using p1 p2 True by (simp add: check_replay_def)
    with \<open>replay_inv (insert (pin_key pin) H) p3\<close> r True show ?thesis by auto
  next
    case False
    then have "check_replay now p pin = Inr (False, p2)" using p1 p2 by (simp add: check_replay_def)
    with p2 show ?thesis by auto
  qed
qed

interpretation replay: once_only replay_inv "\<lambda>e p. check_replay (fst e) p (snd e)"
  "\<lambda>e. pin_key (snd e)" "\<lambda>e. fst e > 1"
  by unfold_locales (rule check_replay_step)

lemma packet_id_init_inv:
  assumes "packet_id_init sb tb name unit' = Inr pid"
  shows "replay_inv {} (p_rec pid)" "pr_time (p_rec pid) = 0" "pr_id (p_rec pid) = 0"
proof -
  have u: "unat (word_of_int sb :: u64) = nat sb" if "0 \<le> sb" "sb \<le> 65536"
    using that by (simp add: unat_eq_nat_uint uint_word_of_int_eq take_bit_int_eq_self)
  show "replay_inv {} (p_rec pid)"
    using assms u
    by (auto simp: packet_id_init_def packet_id_init_recv_def Let_def clear_packet_id_def clear_rec_def
        replay_inv_def rec_wf_def win_seen_def circ_wf_alloc circ_cap_def CIRC_LIST_ALLOC_def circ_wf_def
        win_of_def circ_items_def elim!: bindE_InrE split: if_splits)
  show "pr_time (p_rec pid) = 0" "pr_id (p_rec pid) = 0"
    using assms
    by (auto simp: packet_id_init_def packet_id_init_recv_def Let_def clear_packet_id_def clear_rec_def
        elim!: bindE_InrE split: if_splits)
qed



text \<open>One whole step of the receive path in terms of the abstract window.\<close>

lemma check_replay_window:
  assumes wf: "rec_wf p" and sl: "pr_seq_list p \<noteq> None"
  shows "\<exists>p'. check_replay now p pin =
           (let w = (if pr_last_reap p + 5 \<le> now then win_reap now (pr_time_backtrack p) (win_of p) else win_of p)
            in Inr (win_test (pn_time pin) (unat (pn_id pin)) w, p'))
         \<and> rec_wf p' \<and> pr_seq_list p' \<noteq> None \<and> win_cap p' = win_cap p \<and> pr_time_backtrack p' = pr_time_backtrack p
         \<and> win_of p' =
           (let w = (if pr_last_reap p + 5 \<le> now then win_reap now (pr_time_backtrack p) (win_of p) else win_of p)
            in if win_test (pn_time pin) (unat (pn_id pin)) w
               then win_add (win_cap p) now (pn_time pin) (unat (pn_id pin)) w else w)"
proof -
  let ?t = "pn_time pin" and ?n = "unat (pn_id pin)"
  define w where "w = (if pr_last_reap p + 5 \<le> now then win_reap now (pr_time_backtrack p) (win_of p) else win_of p)"
  from reap_test_refines [OF wf, of now, folded w_def] obtain p1 where
    p1: "packet_id_reap_test now p = Inr p1" "rec_wf p1" "win_of p1 = w" "pr_seq_backtrack p1 = pr_seq_backtrack p" "pr_time_backtrack p1 = pr_time_backtrack p"
    "(pr_seq_list p1 = None) = (pr_seq_list p = None)" by (elim exE conjE) (rule that)
  then obtain sl1 where sl1: "pr_seq_list p1 = Some sl1" using sl by auto
  from test_refines [OF p1(2) sl1, of pin] obtain m where
    t: "packet_id_test p1 pin = Inr (win_test ?t ?n w, p1\<lparr>pr_max_backtrack_stat := m\<rparr>)"
    unfolding p1(3) by blast
  let ?p = "p1\<lparr>pr_max_backtrack_stat := m\<rparr>"
  have same: "rec_wf ?p" "win_of ?p = w" "win_cap ?p = win_cap p" "pr_seq_list ?p = Some sl1"
    "pr_time_backtrack ?p = pr_time_backtrack p" "pr_id ?p = pr_id p1"
    using p1 sl1 by (simp_all add: rec_wf_def win_of_def win_cap_def)
  show ?thesis
  proof (cases "win_test ?t ?n w")
    case True
    have items: "w_items w = circ_items sl1" "w_id w = unat (pr_id p1)"
      using sl1 p1(3) by (auto simp: win_of_def)
    have "win_restart (win_cap ?p) ?t ?n (win_of ?p) \<or> unat (pr_id ?p) - ?n < 2 ^ 63"
      using True rec_wf_items [OF p1(2) sl1] items unfolding same(2,6)
      by (auto simp: win_test_def win_restart_def split: if_splits)
    from add_refines [OF same(1,4) this, of now, unfolded same(2,3,5)] obtain p' where "packet_id_add now ?p pin = Inr p'" "rec_wf p'"
      "win_of p' = win_add (win_cap p) now ?t ?n w" "pr_seq_backtrack p' = pr_seq_backtrack ?p"
      "pr_time_backtrack p' = pr_time_backtrack p" "pr_seq_list p' \<noteq> None"
      by (elim exE conjE) (rule that)
    moreover from this p1 have "check_replay now p pin = Inr (True, p')" "win_cap p' = win_cap p"
      using t True by (simp_all add: check_replay_def win_cap_def)
    ultimately show ?thesis
      using True unfolding Let_def w_def [symmetric] by (intro exI [of _ p']) simp
  next
    case False
    have "check_replay now p pin = Inr (False, ?p)"
      using p1 t False by (simp add: check_replay_def)
    then show ?thesis
      using False same unfolding Let_def w_def [symmetric] by (intro exI [of _ ?p]) simp
  qed
qed







section \<open>Properties\<close>

text \<open>
  C1: Replay protection.  A receive state is set up by \<open>packet_id_init\<close> with any
  window it accepts, including none (TCP mode), and then sees any sequence of
  packets at any times: in order, reordered, duplicated or forged, with expiry of
  old entries in between.  No step faults, and no pair of time stamp and
  sequence number is accepted twice.  The clock is past the two reserved
  time values 0 and 1.
\<close>

theorem replay_never_accepted_twice:
  assumes "packet_id_init sb tb name unit' = Inr pid" and "\<forall>e\<in>set evs. fst e > 1"
  shows "\<exists>verdicts p'. run_steps (\<lambda>e p. check_replay (fst e) p (snd e)) evs (p_rec pid) = Inr (verdicts, p')
           \<and> length verdicts = length evs
           \<and> distinct (map (\<lambda>e. (pn_time (snd e), pn_id (snd e))) (accepted evs verdicts))"
proof -
  from replay.run_once [OF packet_id_init_inv(1) [OF assms(1)] assms(2)] obtain vs p' where
    vs: "run_steps (\<lambda>e p. check_replay (fst e) p (snd e)) evs (p_rec pid) = Inr (vs, p')"
    "length vs = length evs" "distinct (map (\<lambda>e. pin_key (snd e)) (accepted evs vs))" by blast
  have "map (\<lambda>e. pin_key (snd e)) (accepted evs vs) =
      map (\<lambda>(t, i). (t, unat i)) (map (\<lambda>e. (pn_time (snd e), pn_id (snd e))) (accepted evs vs))"
    by (simp add: pin_key_def)
  with vs(3) have "distinct (map (\<lambda>e. (pn_time (snd e), pn_id (snd e))) (accepted evs vs))"
    by (simp only: distinct_map)
  with vs(1,2) show ?thesis by blast
qed


theorem replay_never_accepted_twice_witness:
  "\<exists>pid. packet_id_init 4 15 None 0 = Inr pid
     \<and> (\<exists>verdicts p'. run_steps (\<lambda>e p. check_replay (fst e) p (snd e))
            [(100, \<lparr>pn_id = 7, pn_time = 50\<rparr>), (101, \<lparr>pn_id = 7, pn_time = 50\<rparr>)] (p_rec pid) = Inr (verdicts, p')
          \<and> length verdicts = 2
          \<and> distinct (map (\<lambda>e. (pn_time (snd e), pn_id (snd e)))
               (accepted [(100 :: int, \<lparr>pn_id = 7, pn_time = 50\<rparr>), (101, \<lparr>pn_id = 7, pn_time = 50\<rparr>)] verdicts)))"
proof -
  obtain pid where pid: "packet_id_init 4 15 None 0 = Inr pid"
    by (simp add: packet_id_init_def packet_id_init_recv_def)
  have "\<forall>e\<in>set [(100 :: int, \<lparr>pn_id = 7, pn_time = 50\<rparr>), (101, \<lparr>pn_id = 7, pn_time = 50\<rparr>)]. 1 < fst e"
    by simp
  from replay_never_accepted_twice [OF pid this] pid show ?thesis by auto
qed




text \<open>
  C3: The receive path refines the abstract sliding window.  In window
  mode one call for a packet first expires old entries if the last pass is
  five seconds ago, then accepts the packet exactly if \<open>win_test\<close> does, and if so
  turns the window into what \<open>win_add\<close> says.
\<close>

theorem check_replay_refines_window:
  assumes "rec_wf p" and "pr_seq_list p \<noteq> None"
  shows "\<exists>p'. check_replay now p pin =
           (let w = (if pr_last_reap p + 5 \<le> now then win_reap now (pr_time_backtrack p) (win_of p) else win_of p)
            in Inr (win_test (pn_time pin) (unat (pn_id pin)) w, p'))
         \<and> rec_wf p' \<and> pr_seq_list p' \<noteq> None
         \<and> win_of p' =
           (let w = (if pr_last_reap p + 5 \<le> now then win_reap now (pr_time_backtrack p) (win_of p) else win_of p)
            in if win_test (pn_time pin) (unat (pn_id pin)) w
               then win_add (win_cap p) now (pn_time pin) (unat (pn_id pin)) w else w)"
  using check_replay_window [OF assms] by blast

theorem check_replay_refines_window_witness:
  "\<exists>pid p'. packet_id_init 4 15 None 0 = Inr pid \<and> check_replay 100 (p_rec pid) \<lparr>pn_id = 3, pn_time = 50\<rparr> =
     (let w = (if pr_last_reap (p_rec pid) + 5 \<le> 100
               then win_reap 100 (pr_time_backtrack (p_rec pid)) (win_of (p_rec pid)) else win_of (p_rec pid))
      in Inr (win_test 50 3 w, p'))"
proof -
  obtain pid where pid: "packet_id_init 4 15 None 0 = Inr pid" "pr_seq_list (p_rec pid) \<noteq> None"
    by (simp add: packet_id_init_def packet_id_init_recv_def)
  have "rec_wf (p_rec pid)" using packet_id_init_inv(1) [OF pid(1)] by (simp add: replay_inv_def)
  from check_replay_refines_window [OF this pid(2), of 100 "\<lparr>pn_id = 3, pn_time = 50\<rparr>"] pid(1)
  show ?thesis by auto
qed

text \<open>
  C4: The time limit of \<open>--replay-window\<close>.  After any sequence of packets, a pass of
  \<open>packet_id_reap\<close> closes the window behind every packet that was received
  more than \<open>time_backtrack\<close> seconds ago: if the entry of position \<open>k\<close> was received at
  such a time, a packet of the same time stamp with that sequence number or an
  older one is rejected, whether it was seen before or not.
\<close>

theorem reap_rejects_old:
  assumes "packet_id_init sb tb name unit' = Inr pid" and "\<forall>e\<in>set evs. fst e > 1"
    and run: "run_steps (\<lambda>e p. check_replay (fst e) p (snd e)) evs (p_rec pid) = Inr (verdicts, p)"
    and sl: "pr_seq_list p = Some sl" and k: "int k < CIRC_LIST_SIZE sl"
    and old: "CIRC_LIST_ITEM sl (int k) = Inr t" "t \<noteq> 0" "t + pr_time_backtrack p < now" "pr_time_backtrack p \<noteq> 0"
    and pin: "pn_time pin = pr_time p" "uint (pn_id pin) + int k \<le> uint (pr_id p)"
  shows "\<exists>p' p''. packet_id_reap now p = Inr p' \<and> packet_id_test p' pin = Inr (False, p'')"
proof -
  from replay.run_once [OF packet_id_init_inv(1) [OF assms(1)] assms(2)] run
  have inv: "\<exists>H. replay_inv H p" by auto
  then have wf: "rec_wf p" and et: "expired_tail (circ_items sl)"
    using sl by (auto simp: replay_inv_def win_of_def)
  have c: "circ_wf sl" using wf sl by (simp add: rec_wf_def)
  have kl: "k < length (circ_items sl)" using k by (simp add: CIRC_LIST_SIZE_def)
  have t: "circ_items sl ! k = t" using circ_item [OF c kl] old(1) by simp
  let ?n = "unat (pn_id pin)"
  have n: "?n + k \<le> unat (pr_id p)" using pin(2) unfolding uint_nat by linarith
  from reap_refines [OF wf, of now] obtain p' where p': "packet_id_reap now p = Inr p'" "rec_wf p'"
    "win_of p' = win_reap now (pr_time_backtrack p) (win_of p)" "(pr_seq_list p' = None) = (pr_seq_list p = None)"
    by (elim exE conjE) (rule that)
  obtain sl' where sl': "pr_seq_list p' = Some sl'" using p'(4) sl by auto
  let ?j = "unat (pr_id p) - ?n"
  have "\<not> win_test (pn_time pin) ?n (win_of p')"
  proof (cases "?j < length (circ_items sl)")
    case True
    have "reap_items now (pr_time_backtrack p) False (circ_items sl) ! ?j = 1"
      using n t old by (intro reap_items_old [OF et _ True, of k]) auto
    then show ?thesis using p'(3) sl pin n old(4) by (simp add: win_test_def win_reap_def win_of_def)
  next
    case False
    then show ?thesis using p'(3) sl pin n old(4) by (simp add: win_test_def win_reap_def win_of_def)
  qed
  then show ?thesis using test_refines [OF p'(2) sl', of pin] p'(1) by auto
qed

theorem reap_rejects_old_witness:
  "\<exists>p p' p''. run_steps (\<lambda>e p. check_replay (fst e) p (snd e)) [(100, \<lparr>pn_id = 7, pn_time = 50\<rparr>)]
       (case packet_id_init 4 15 None 0 of Inr pid \<Rightarrow> p_rec pid) = Inr ([True], p)
     \<and> packet_id_reap 200 p = Inr p' \<and> packet_id_test p' \<lparr>pn_id = 6, pn_time = 50\<rparr> = Inr (False, p'')"
proof -
  define sl where "sl = \<lparr>x_head = 0, x_size = 4, x_cap = 4, x_sizeof = 48, x_list = [100 :: int, 0, 0, 0]\<rparr>"
  define p where "p = \<lparr>pr_last_reap = 100, pr_time = 50, pr_id = 7, pr_seq_backtrack = 4, pr_time_backtrack = 15,
    pr_max_backtrack_stat = 0, pr_initialized = True, pr_seq_list = Some sl, pr_name = None, pr_unit = 0\<rparr>"
  obtain pid where pid: "packet_id_init 4 15 None 0 = Inr pid"
    by (simp add: packet_id_init_def packet_id_init_recv_def)
  have run: "run_steps (\<lambda>e p. check_replay (fst e) p (snd e)) [(100, \<lparr>pn_id = 7, pn_time = 50\<rparr>)]
       (case packet_id_init 4 15 None 0 of Inr pid \<Rightarrow> p_rec pid) = Inr ([True], p)"
    unfolding p_def sl_def by code_simp
  have item: "CIRC_LIST_ITEM sl (int 0) = Inr 100" "int 0 < CIRC_LIST_SIZE sl"
    unfolding sl_def by code_simp+
  have "\<exists>p' p''. packet_id_reap 200 p = Inr p' \<and> packet_id_test p' \<lparr>pn_id = 6, pn_time = 50\<rparr> = Inr (False, p'')"
    using run pid item
    by (intro reap_rejects_old [OF pid, of "[(100, \<lparr>pn_id = 7, pn_time = 50\<rparr>)]" "[True]" p sl 0 100])
       (simp_all add: p_def)
  with run show ?thesis by blast
qed



end
