(* ===== verification/Reliable.thy ===== *)
theory Reliable
  imports PacketId
begin

text \<open>
  The reliability layer of the control channel: \<open>reliable.h\<close>, \<open>reliable.c\<close>, and the
  session ids of \<open>session_id.h\<close> its acknowledgements carry.

  A pointer to an entry of \<open>rel->array\<close>, or to the buffer in it, is the index of
  the entry.  \<open>now\<close> is an argument.  The array has \<open>RELIABLE_CAPACITY\<close>
  entries, and \<open>reliable_init\<close> asserts that \<open>rel->size\<close> is not larger; the loops over
  the first \<open>size\<close> entries are recursions over that part of the list.
\<close>

section \<open>Session ids\<close>

record session_id =
  sid_id :: "u8 list"

definition x_session_id_zero :: session_id where
  "x_session_id_zero = \<lparr>sid_id = replicate 8 0\<rparr>"

abbreviation (input) SID_SIZE :: int where "SID_SIZE \<equiv> 8"

definition session_id_equal :: "session_id \<Rightarrow> session_id \<Rightarrow> bool" where
  "session_id_equal sid1 sid2 \<longleftrightarrow> sid_id sid1 = sid_id sid2"

definition session_id_defined :: "session_id \<Rightarrow> bool" where
  "session_id_defined sid1 \<longleftrightarrow> sid_id sid1 \<noteq> sid_id x_session_id_zero"

text \<open>The result, \<open>*sid\<close> and the buffer.\<close>

definition session_id_read :: "session_id \<Rightarrow> buffer \<Rightarrow> (bool \<times> session_id \<times> buffer) cres" where
  "session_id_read sid buf =
     bindE (buf_read buf SID_SIZE) (\<lambda>(r, buf').
     Inr (case r of None \<Rightarrow> (False, sid, buf') | Some bs \<Rightarrow> (True, sid\<lparr>sid_id := bs\<rparr>, buf')))"

definition session_id_write_prepend :: "session_id \<Rightarrow> buffer \<Rightarrow> (bool \<times> buffer) cres" where
  "session_id_write_prepend sid buf = buf_write_prepend buf (sid_id sid)"

definition session_id_write :: "session_id \<Rightarrow> buffer \<Rightarrow> (bool \<times> buffer) cres" where
  "session_id_write sid buf = buf_write buf (sid_id sid)"

definition session_id_print :: "(nat \<Rightarrow> u8 list) \<Rightarrow> session_id \<Rightarrow> buffer cres" where
  "session_id_print junk sid = format_hex junk (sid_id sid) 0"


section \<open>Data\<close>

abbreviation (input) RELIABLE_ACK_SIZE :: int where "RELIABLE_ACK_SIZE \<equiv> 8"
abbreviation (input) RELIABLE_CAPACITY :: int where "RELIABLE_CAPACITY \<equiv> 12"
abbreviation (input) N_ACK_RETRANSMIT :: nat where "N_ACK_RETRANSMIT \<equiv> 3"
abbreviation (input) P_ACK_V1 :: int where "P_ACK_V1 \<equiv> 5"
abbreviation (input) BIG_TIMEOUT :: int where "BIG_TIMEOUT \<equiv> 604800"

record reliable_ack =
  ra_len :: int
  ra_packet_id :: "u32 list"

definition ACK_SIZE :: "nat \<Rightarrow> int" where
  "ACK_SIZE n = 1 + (if n \<noteq> 0 then SID_SIZE else 0) + 4 * int n"

record reliable_entry =
  e_active :: bool
  e_timeout :: int
  e_next_try :: int
  e_packet_id :: u32
  e_n_acks :: nat
  e_opcode :: int
  e_buf :: buffer

record reliable =
  rl_size :: int
  rl_initial_timeout :: int
  rl_packet_id :: u32
  rl_offset :: int
  rl_hold :: bool
  rl_array :: "reliable_entry list"

definition rl_entries :: "reliable \<Rightarrow> reliable_entry list" where
  "rl_entries rel = take (nat (rl_size rel)) (rl_array rel)"

definition clear_entry :: reliable_entry where
  "clear_entry = \<lparr>e_active = False, e_timeout = 0, e_next_try = 0, e_packet_id = 0, e_n_acks = 0,
     e_opcode = 0, e_buf = clear_buf\<rparr>"


section \<open>Arithmetic on packet ids\<close>

definition subtract_pid :: "u32 \<Rightarrow> u32 \<Rightarrow> u32" where
  "subtract_pid test base = test - base"

definition reliable_pid_in_range1 :: "u32 \<Rightarrow> u32 \<Rightarrow> u32 \<Rightarrow> bool" where
  "reliable_pid_in_range1 test base extent \<longleftrightarrow> subtract_pid test base < extent"

definition reliable_pid_in_range2 :: "u32 \<Rightarrow> u32 \<Rightarrow> u32 \<Rightarrow> bool" where
  "reliable_pid_in_range2 test base extent =
     (if base + extent \<ge> base
      then (if test < base + extent then True else False)
      else (if test + 0x80000000 < (base + 0x80000000) + extent then True else False))"

definition reliable_pid_min :: "u32 \<Rightarrow> u32 \<Rightarrow> bool" where
  "reliable_pid_min p1 p2 \<longleftrightarrow> \<not> reliable_pid_in_range1 p1 p2 0x80000000"


section \<open>Acknowledgements\<close>

definition reliable_ack_empty :: "reliable_ack \<Rightarrow> bool" where
  "reliable_ack_empty ack \<longleftrightarrow> ra_len ack = 0"

definition reliable_ack_outstanding :: "reliable_ack \<Rightarrow> int" where
  "reliable_ack_outstanding ack = ra_len ack"

definition reliable_ack_packet_id_present :: "reliable_ack \<Rightarrow> u32 \<Rightarrow> bool" where
  "reliable_ack_packet_id_present ack pid \<longleftrightarrow> pid \<in> set (take (nat (ra_len ack)) (ra_packet_id ack))"

definition reliable_ack_read_packet_id :: "buffer \<Rightarrow> (u32 option \<times> buffer) cres" where
  "reliable_ack_read_packet_id buf =
     bindE (buf_read buf 4) (\<lambda>(r, buf'). Inr (map_option un_be32 r, buf'))"

definition reliable_ack_acknowledge_packet_id :: "reliable_ack \<Rightarrow> u32 \<Rightarrow> (bool \<times> reliable_ack) cres" where
  "reliable_ack_acknowledge_packet_id ack pid =
     (if \<not> reliable_ack_packet_id_present ack pid \<and> ra_len ack < RELIABLE_ACK_SIZE
      then bindE (arr_set (ra_packet_id ack) (ra_len ack) pid) (\<lambda>ids.
           Inr (True, ack\<lparr>ra_packet_id := ids, ra_len := ra_len ack + 1\<rparr>))
      else Inr (False, ack))"

fun reliable_ack_parse_loop :: "nat \<Rightarrow> reliable_ack \<Rightarrow> buffer \<Rightarrow> (bool \<times> reliable_ack \<times> buffer) cres" where
  "reliable_ack_parse_loop 0 ack buf = Inr (True, ack, buf)"
| "reliable_ack_parse_loop (Suc k) ack buf =
     bindE (buf_read buf 4) (\<lambda>(r, buf1).
     case r of
       None \<Rightarrow> Inr (False, ack, buf1)
     | Some net_pid \<Rightarrow>
         if ra_len ack \<ge> RELIABLE_ACK_SIZE then Inr (False, ack, buf1)
         else bindE (arr_set (ra_packet_id ack) (ra_len ack) (un_be32 net_pid)) (\<lambda>ids.
              reliable_ack_parse_loop k (ack\<lparr>ra_packet_id := ids, ra_len := ra_len ack + 1\<rparr>) buf1))"

text \<open>The result, \<open>*ack\<close>, \<open>*session_id_remote\<close> and the buffer.\<close>

definition reliable_ack_parse ::
    "buffer \<Rightarrow> reliable_ack \<Rightarrow> session_id \<Rightarrow> (bool \<times> reliable_ack \<times> session_id \<times> buffer) cres" where
  "reliable_ack_parse buf ack session_id_remote =
     (let ack0 = ack\<lparr>ra_len := 0\<rparr>
      in bindE (buf_read buf 1) (\<lambda>(r, buf1).
         case r of
           None \<Rightarrow> Inr (False, ack0, session_id_remote, buf1)
         | Some count \<Rightarrow>
             bindE (reliable_ack_parse_loop (unat (hd count)) ack0 buf1) (\<lambda>(ok, ack1, buf2).
             if \<not> ok then Inr (False, ack1, session_id_remote, buf2)
             else if hd count \<noteq> 0
             then bindE (session_id_read session_id_remote buf2) (\<lambda>(ok2, sid, buf3).
                  Inr (ok2, ack1, sid, buf3))
             else Inr (True, ack1, session_id_remote, buf2))))"

text \<open>\<open>session_id_remote\<close> is an uninitialised local variable of \<open>reliable_ack_read\<close>.\<close>

definition reliable_ack_read ::
    "session_id \<Rightarrow> reliable_ack \<Rightarrow> buffer \<Rightarrow> session_id \<Rightarrow> (bool \<times> reliable_ack \<times> buffer) cres" where
  "reliable_ack_read uninit ack buf sid =
     bindE (reliable_ack_parse buf ack uninit) (\<lambda>(ok, ack', session_id_remote, buf').
     if \<not> ok then Inr (False, ack', buf')
     else if ra_len ack' \<ge> 1
             \<and> (\<not> session_id_defined session_id_remote \<or> \<not> session_id_equal session_id_remote sid)
     then Inr (False, ack', buf')
     else Inr (True, ack', buf'))"

text \<open>
  The inner loop of \<open>copy_acks_to_mru\<close> shifts the entries to the right until it
  has moved \<open>id\<close> out of its old place: the array, \<open>move\<close> and \<open>idfound\<close>.
\<close>

function mru_shift_loop :: "u32 \<Rightarrow> int \<Rightarrow> int \<Rightarrow> u32 \<Rightarrow> u32 list \<Rightarrow> (u32 list \<times> u32 \<times> bool) cres" where
  "mru_shift_loop i len j move ids =
     (if j < len
      then bindE (arr_get ids j) (\<lambda>tmp.
           bindE (arr_set ids j move) (\<lambda>ids'.
           if tmp = i then Inr (ids', tmp, True) else mru_shift_loop i len (j + 1) tmp ids'))
      else Inr (ids, move, False))"
  by pat_completeness auto
termination
  by (relation "measure (\<lambda>(_, len, j, _, _). nat (len - j))") auto

declare mru_shift_loop.simps [simp del]

definition copy_one_ack :: "u32 \<Rightarrow> reliable_ack \<Rightarrow> reliable_ack cres" where
  "copy_one_ack i mru =
     bindE (if ra_len mru = 0
            then bindE (arr_set (ra_packet_id mru) 0 i) (\<lambda>ids. Inr (mru\<lparr>ra_len := 1, ra_packet_id := ids\<rparr>))
            else Inr mru) (\<lambda>mru1.
     bindE (mru_shift_loop i (ra_len mru1) 0 i (ra_packet_id mru1)) (\<lambda>(ids, move, idfound).
     let mru2 = mru1\<lparr>ra_packet_id := ids\<rparr>
     in if \<not> idfound \<and> ra_len mru2 < RELIABLE_ACK_SIZE
        then bindE (arr_set ids (ra_len mru2) move) (\<lambda>ids'.
             Inr (mru2\<lparr>ra_packet_id := ids', ra_len := ra_len mru2 + 1\<rparr>))
        else Inr mru2))"

fun copy_acks_loop :: "nat \<Rightarrow> reliable_ack \<Rightarrow> reliable_ack \<Rightarrow> reliable_ack cres" where
  "copy_acks_loop 0 ack mru = Inr mru"
| "copy_acks_loop (Suc i) ack mru =
     bindE (arr_get (ra_packet_id ack) (int i)) (\<lambda>pid.
     bindE (copy_one_ack pid mru) (copy_acks_loop i ack))"

definition copy_acks_to_mru :: "reliable_ack \<Rightarrow> reliable_ack \<Rightarrow> int \<Rightarrow> reliable_ack cres" where
  "copy_acks_to_mru ack ack_mru n =
     bindE (c_assert (ra_len ack \<ge> n)) (\<lambda>_. copy_acks_loop (nat n) ack ack_mru)"

fun ack_write_loop :: "u32 list \<Rightarrow> buffer \<Rightarrow> buffer cres" where
  "ack_write_loop [] sub = Inr sub"
| "ack_write_loop (pid # pids) sub =
     bindE (buf_write sub (be32 pid)) (\<lambda>(ok, sub').
     bindE (c_assert ok) (\<lambda>_. ack_write_loop pids sub'))"

text \<open>
  The result, \<open>*ack\<close>, \<open>*ack_mru\<close> and the buffer.  The last loop moves the remaining
  ids to the front of the array and leaves the places behind them as they are.
\<close>

definition reliable_ack_write ::
    "reliable_ack \<Rightarrow> reliable_ack \<Rightarrow> buffer \<Rightarrow> session_id \<Rightarrow> int \<Rightarrow> bool
     \<Rightarrow> (bool \<times> reliable_ack \<times> reliable_ack \<times> buffer) cres" where
  "reliable_ack_write ack ack_mru buf sid mx prepend =
     (let n = (if ra_len ack > mx then mx else ra_len ack)
      in bindE (copy_acks_to_mru ack ack_mru n) (\<lambda>mru.
         let total_acks = (word_of_int (min_int mx (ra_len mru)) :: u8); t = unat total_acks
         in bindE (buf_sub buf (ACK_SIZE t) prepend) (\<lambda>((sub, pos), buf1).
            if \<not> buf_defined sub then Inr (False, ack, mru, buf1)
            else bindE (buf_write_u8 sub total_acks) (\<lambda>(ok, sub1).
                 bindE (c_assert ok) (\<lambda>_.
                 bindE (if t \<le> length (ra_packet_id mru) then Inr () else Inl Oob) (\<lambda>_.
                 bindE (ack_write_loop (take t (ra_packet_id mru)) sub1) (\<lambda>sub2.
                 bindE (if t \<noteq> 0
                        then bindE (c_assert (session_id_defined sid)) (\<lambda>_.
                             bindE (session_id_write sid sub2) (\<lambda>(ok3, sub3).
                             bindE (c_assert ok3) (\<lambda>_. Inr sub3)))
                        else Inr sub2) (\<lambda>sub4.
                 bindE (buf_sub_commit buf1 pos sub4) (\<lambda>buf2.
                 let rest = drop (nat n) (take (nat (ra_len ack)) (ra_packet_id ack));
                     ack' = (if n \<noteq> 0
                             then ack\<lparr>ra_packet_id := patch (ra_packet_id ack) 0 rest, ra_len := ra_len ack - n\<rparr>
                             else ack)
                 in Inr (True, ack', mru, buf2))))))))))"

fun reliable_ack_print_loop :: "nat \<Rightarrow> buffer \<Rightarrow> buffer \<Rightarrow> (bool \<times> buffer \<times> buffer) cres" where
  "reliable_ack_print_loop 0 buf out = Inr (True, buf, out)"
| "reliable_ack_print_loop (Suc k) buf out =
     bindE (buf_read buf 4) (\<lambda>(r, buf1).
     case r of
       None \<Rightarrow> Inr (False, buf1, out)
     | Some pid \<Rightarrow>
         bindE (buf_printf out (cstr '' '' @ dec_digits (unat (un_be32 pid)))) (\<lambda>(_, out1).
         reliable_ack_print_loop k buf1 out1))"

text \<open>The text buffer and the buffer that was read.\<close>

definition reliable_ack_print :: "(nat \<Rightarrow> u8 list) \<Rightarrow> buffer \<Rightarrow> bool \<Rightarrow> (buffer \<times> buffer) cres" where
  "reliable_ack_print junk buf verbose =
     bindE (alloc_buf_gc junk 256) (\<lambda>out0.
     bindE (buf_printf out0 (cstr ''['')) (\<lambda>(_, out1).
     bindE (buf_read buf 1) (\<lambda>(r, buf1).
     bindE (case r of
              None \<Rightarrow> Inr (buf1, out1)
            | Some n_ack \<Rightarrow>
                bindE (reliable_ack_print_loop (unat (hd n_ack)) buf1 out1) (\<lambda>(ok, buf2, out2).
                if \<not> ok \<or> hd n_ack = 0 then Inr (buf2, out2)
                else bindE (session_id_read x_session_id_zero buf2) (\<lambda>(ok2, sid, buf3).
                     if \<not> ok2 \<or> \<not> verbose then Inr (buf3, out2)
                     else bindE (session_id_print junk sid) (\<lambda>s.
                          bindE (c_strlen (b_data s) 0) (\<lambda>n.
                          bindE (buf_printf out2 (cstr '' sid='' @ take (nat n) (the (b_data s))))
                            (\<lambda>(_, out3). Inr (buf3, out3))))))) (\<lambda>(buf4, out4).
     bindE (buf_printf out4 (cstr '' ]'')) (\<lambda>(_, out5). Inr (out5, buf4))))))"


section \<open>The structure \<open>reliable\<close>\<close>

fun reliable_init_loop :: "nat \<Rightarrow> int \<Rightarrow> int \<Rightarrow> reliable_entry list cres" where
  "reliable_init_loop 0 buf_size offset = Inr []"
| "reliable_init_loop (Suc k) buf_size offset =
     bindE (if buf_size < 0 then Inl Fatal else alloc_buf (nat buf_size)) (\<lambda>b.
     case buf_init_dowork b offset of
       (ok, b') \<Rightarrow>
         bindE (c_assert ok) (\<lambda>_.
         bindE (reliable_init_loop k buf_size offset) (\<lambda>es. Inr (clear_entry\<lparr>e_buf := b'\<rparr> # es))))"

definition reliable_init :: "int \<Rightarrow> int \<Rightarrow> int \<Rightarrow> bool \<Rightarrow> reliable cres" where
  "reliable_init buf_size offset array_size hold =
     bindE (c_assert (array_size > 0 \<and> array_size \<le> RELIABLE_CAPACITY)) (\<lambda>_.
     bindE (reliable_init_loop (nat array_size) buf_size offset) (\<lambda>es.
     Inr \<lparr>rl_size = array_size, rl_initial_timeout = 0, rl_packet_id = 0, rl_offset = offset, rl_hold = hold,
          rl_array = es @ replicate (nat (RELIABLE_CAPACITY - array_size)) clear_entry\<rparr>))"

text \<open>\<open>rel\<close> itself is freed after its buffers.\<close>

definition reliable_free :: "reliable option \<Rightarrow> reliable option" where
  "reliable_free rel = (case rel of None \<Rightarrow> None | Some _ \<Rightarrow> None)"

definition reliable_set_timeout :: "reliable \<Rightarrow> int \<Rightarrow> reliable" where
  "reliable_set_timeout rel timeout = rel\<lparr>rl_initial_timeout := timeout\<rparr>"

definition reliable_empty :: "reliable \<Rightarrow> bool" where
  "reliable_empty rel \<longleftrightarrow> list_all (\<lambda>e. \<not> e_active e) (rl_entries rel)"

definition purge_entry :: "u32 \<Rightarrow> reliable_entry \<Rightarrow> reliable_entry" where
  "purge_entry pid e =
     (if e_active e \<and> e_packet_id e = pid then e\<lparr>e_active := False\<rparr>
      else if e_active e \<and> e_packet_id e < pid then e\<lparr>e_n_acks := e_n_acks e + 1\<rparr>
      else e)"

definition reliable_send_purge :: "reliable \<Rightarrow> reliable_ack \<Rightarrow> reliable" where
  "reliable_send_purge rel ack =
     foldl (\<lambda>rel pid. rel\<lparr>rl_array := map (purge_entry pid) (rl_entries rel) @ drop (nat (rl_size rel)) (rl_array rel)\<rparr>)
       rel (take (nat (ra_len ack)) (ra_packet_id ack))"

fun reliable_print_ids_loop :: "reliable_entry list \<Rightarrow> buffer \<Rightarrow> buffer cres" where
  "reliable_print_ids_loop [] out = Inr out"
| "reliable_print_ids_loop (e # es) out =
     bindE (if e_active e then buf_printf out (cstr '' '' @ dec_digits (unat (e_packet_id e))) else Inr (True, out))
       (\<lambda>(_, out'). reliable_print_ids_loop es out')"

definition reliable_print_ids :: "(nat \<Rightarrow> u8 list) \<Rightarrow> reliable \<Rightarrow> buffer cres" where
  "reliable_print_ids junk rel =
     bindE (alloc_buf_gc junk 256) (\<lambda>out0.
     bindE (buf_printf out0 (cstr ''['' @ dec_digits (unat (rl_packet_id rel)) @ cstr '']'')) (\<lambda>(_, out1).
     reliable_print_ids_loop (rl_entries rel) out1))"

definition reliable_can_get :: "reliable \<Rightarrow> bool" where
  "reliable_can_get rel \<longleftrightarrow> list_ex (\<lambda>e. \<not> e_active e) (rl_entries rel)"

definition reliable_not_replay :: "reliable \<Rightarrow> u32 \<Rightarrow> bool" where
  "reliable_not_replay rel i =
     (if reliable_pid_min i (rl_packet_id rel) then False
      else if list_ex (\<lambda>e. e_active e \<and> e_packet_id e = i) (rl_entries rel) then False
      else True)"

definition reliable_wont_break_sequentiality :: "reliable \<Rightarrow> u32 \<Rightarrow> bool" where
  "reliable_wont_break_sequentiality rel i =
     reliable_pid_in_range2 i (rl_packet_id rel) (word_of_int (rl_size rel))"

text \<open>The index of the first entry with a property.\<close>

fun first_index :: "('a \<Rightarrow> bool) \<Rightarrow> 'a list \<Rightarrow> nat \<Rightarrow> nat option" where
  "first_index P [] i = None"
| "first_index P (x # xs) i = (if P x then Some i else first_index P xs (Suc i))"

definition upd_entry :: "reliable \<Rightarrow> nat \<Rightarrow> reliable_entry \<Rightarrow> reliable" where
  "upd_entry rel i e = rel\<lparr>rl_array := (rl_array rel)[i := e]\<rparr>"

definition reliable_get_buf :: "reliable \<Rightarrow> (nat option \<times> reliable) cres" where
  "reliable_get_buf rel =
     (case first_index (\<lambda>e. \<not> e_active e) (rl_entries rel) 0 of
        None \<Rightarrow> Inr (None, rel)
      | Some i \<Rightarrow>
          (let e = rl_array rel ! i
           in case buf_init_dowork (e_buf e) (rl_offset rel) of
                (ok, b) \<Rightarrow> bindE (c_assert ok) (\<lambda>_. Inr (Some i, upd_entry rel i (e\<lparr>e_buf := b\<rparr>)))))"

text \<open>The minimum active packet id, as two functions compute it.\<close>

fun min_id_loop :: "reliable_entry list \<Rightarrow> u32 option \<Rightarrow> u32 option" where
  "min_id_loop [] m = m"
| "min_id_loop (e # es) m =
     min_id_loop es
       (if e_active e
        then (case m of
                None \<Rightarrow> Some (e_packet_id e)
              | Some min_id \<Rightarrow> if reliable_pid_min (e_packet_id e) min_id then Some (e_packet_id e) else m)
        else m)"

definition reliable_get_num_output_sequenced_available :: "reliable \<Rightarrow> int" where
  "reliable_get_num_output_sequenced_available rel =
     (case min_id_loop (rl_entries rel) None of
        None \<Rightarrow> rl_size rel
      | Some min_id \<Rightarrow> sint ((word_of_int (rl_size rel) :: u32) - subtract_pid (rl_packet_id rel) min_id))"

definition reliable_get_buf_output_sequenced :: "reliable \<Rightarrow> (nat option \<times> reliable) cres" where
  "reliable_get_buf_output_sequenced rel =
     (let m = min_id_loop (rl_entries rel) None
      in if (case m of None \<Rightarrow> True
             | Some min_id \<Rightarrow> reliable_pid_in_range1 (rl_packet_id rel) min_id (word_of_int (rl_size rel)))
         then reliable_get_buf rel
         else Inr (None, rel))"

definition reliable_get_entry_sequenced :: "reliable \<Rightarrow> nat option" where
  "reliable_get_entry_sequenced rel =
     first_index (\<lambda>e. e_active e \<and> e_packet_id e = rl_packet_id rel) (rl_entries rel) 0"

definition reliable_can_send :: "int \<Rightarrow> reliable \<Rightarrow> bool" where
  "reliable_can_send now rel \<longleftrightarrow>
     (let n_current = length (filter (\<lambda>e. e_active e \<and> (now \<ge> e_next_try e \<or> e_n_acks e \<ge> N_ACK_RETRANSMIT)) (rl_entries rel))
      in n_current > 0 \<and> \<not> rl_hold rel)"

fun best_loop :: "int \<Rightarrow> reliable_entry list \<Rightarrow> nat \<Rightarrow> (nat \<times> u32) option \<Rightarrow> (nat \<times> u32) option" where
  "best_loop now [] i best = best"
| "best_loop now (e # es) i best =
     best_loop now es (Suc i)
       (if e_active e \<and> (e_n_acks e \<ge> N_ACK_RETRANSMIT \<or> now \<ge> e_next_try e)
        then (case best of
                None \<Rightarrow> Some (i, e_packet_id e)
              | Some (_, b) \<Rightarrow> if reliable_pid_min (e_packet_id e) b then Some (i, e_packet_id e) else best)
        else best)"

text \<open>The index of the entry whose buffer is to be sent, with its opcode.\<close>

definition reliable_send :: "int \<Rightarrow> reliable \<Rightarrow> ((nat \<times> int) option \<times> reliable) cres" where
  "reliable_send now rel =
     (case best_loop now (rl_entries rel) 0 None of
        None \<Rightarrow> Inr (None, rel)
      | Some (i, _) \<Rightarrow>
          (let e = rl_array rel ! i
           in bindE (i32 (e_timeout e * 2)) (\<lambda>t.
              Inr (Some (i, e_opcode e),
                   upd_entry rel i (e\<lparr>e_next_try := now + e_timeout e, e_timeout := t, e_n_acks := 0\<rparr>)))))"

definition reliable_schedule_now :: "int \<Rightarrow> reliable \<Rightarrow> reliable" where
  "reliable_schedule_now now rel =
     rel\<lparr>rl_hold := False,
         rl_array := map (\<lambda>e. if e_active e then e\<lparr>e_next_try := now, e_timeout := rl_initial_timeout rel\<rparr> else e)
                       (rl_entries rel) @ drop (nat (rl_size rel)) (rl_array rel)\<rparr>"

text \<open>\<open>e->next_try - local_now\<close> is converted to \<open>int\<close> for \<open>min_int\<close>.\<close>

fun send_timeout_loop :: "int \<Rightarrow> reliable_entry list \<Rightarrow> int \<Rightarrow> int" where
  "send_timeout_loop now [] ret = ret"
| "send_timeout_loop now (e # es) ret =
     (if e_active e
      then (if e_next_try e \<le> now then 0
            else send_timeout_loop now es (min_int ret (c_int (e_next_try e - now))))
      else send_timeout_loop now es ret)"

definition reliable_send_timeout :: "int \<Rightarrow> reliable \<Rightarrow> int" where
  "reliable_send_timeout now rel = send_timeout_loop now (rl_entries rel) BIG_TIMEOUT"

definition reliable_mark_active_incoming :: "reliable \<Rightarrow> nat \<Rightarrow> u32 \<Rightarrow> int \<Rightarrow> reliable cres" where
  "reliable_mark_active_incoming rel i pid opcode =
     (if i < length (rl_entries rel)
      then bindE (c_assert (\<not> reliable_pid_min pid (rl_packet_id rel))) (\<lambda>_.
           Inr (upd_entry rel i ((rl_array rel ! i)\<lparr>e_active := True, e_packet_id := pid, e_opcode := opcode,
                  e_next_try := 0, e_timeout := 0, e_n_acks := 0\<rparr>)))
      else Inl Assert_fail)"

definition reliable_mark_active_outgoing :: "reliable \<Rightarrow> nat \<Rightarrow> int \<Rightarrow> reliable cres" where
  "reliable_mark_active_outgoing rel i opcode =
     (if i < length (rl_entries rel)
      then (let e = rl_array rel ! i; pid = rl_packet_id rel
            in bindE (buf_write_prepend (e_buf e) (be32 pid)) (\<lambda>(ok, b).
               bindE (c_assert ok) (\<lambda>_.
               Inr (upd_entry (rel\<lparr>rl_packet_id := pid + 1\<rparr>) i
                      (e\<lparr>e_packet_id := pid, e_buf := b, e_active := True, e_opcode := opcode,
                         e_next_try := 0, e_timeout := rl_initial_timeout rel\<rparr>)))))
      else Inl Assert_fail)"

definition reliable_mark_deleted :: "reliable \<Rightarrow> nat \<Rightarrow> reliable cres" where
  "reliable_mark_deleted rel i =
     (if i < length (rl_entries rel)
      then (let e = rl_array rel ! i
            in Inr ((upd_entry rel i (e\<lparr>e_active := False\<rparr>))\<lparr>rl_packet_id := e_packet_id e + 1\<rparr>))
      else Inl Assert_fail)"

text \<open>
  The use of the receive side in \<open>tls_pre_decrypt\<close> of \<open>ssl.c\<close>: a control packet whose
  acknowledgements have been processed is stored, and acknowledged even if it
  is a replay.  The result is whether no error occurred.
\<close>

definition store_control_packet ::
    "reliable \<Rightarrow> reliable_ack \<Rightarrow> buffer \<Rightarrow> int \<Rightarrow> (bool \<times> reliable \<times> reliable_ack) cres" where
  "store_control_packet rel ack buf opcode =
     (if opcode \<noteq> P_ACK_V1 \<and> reliable_can_get rel
      then bindE (reliable_ack_read_packet_id buf) (\<lambda>(r, buf1).
           case r of
             None \<Rightarrow> Inr (True, rel, ack)
           | Some pid \<Rightarrow>
               if reliable_wont_break_sequentiality rel pid
               then bindE (if reliable_not_replay rel pid
                           then bindE (reliable_get_buf rel) (\<lambda>(inb, rel1).
                                case inb of
                                  None \<Rightarrow> Inl Assert_fail
                                | Some i \<Rightarrow>
                                    (let e = rl_array rel1 ! i
                                     in bindE (buf_copy (e_buf e) buf1) (\<lambda>(ok, b).
                                        let rel2 = upd_entry rel1 i (e\<lparr>e_buf := b\<rparr>)
                                        in if \<not> ok then Inr (False, rel2)
                                           else bindE (reliable_mark_active_incoming rel2 i pid opcode)
                                                  (\<lambda>rel3. Inr (True, rel3)))))
                           else Inr (True, rel)) (\<lambda>(ok, rel4).
                    if \<not> ok then Inr (False, rel4, ack)
                    else bindE (reliable_ack_acknowledge_packet_id ack pid) (\<lambda>(_, ack').
                         Inr (True, rel4, ack')))
               else Inr (True, rel, ack))
      else Inr (True, rel, ack))"

end
