(* ===== verification/ReliableAck.thy ===== *)
theory ReliableAck
  imports Reliable
begin

text \<open>
  Acknowledgements of the reliability layer: the list of recently sent
  acknowledgements has a closed form, and an acknowledgement record that is
  written is read back by the peer.
\<close>

section \<open>Acknowledgement lists\<close>

definition ack_wf :: "reliable_ack \<Rightarrow> bool" where
  "ack_wf ack \<longleftrightarrow> length (ra_packet_id ack) = 8 \<and> 0 \<le> ra_len ack \<and> ra_len ack \<le> 8
     \<and> distinct (take (nat (ra_len ack)) (ra_packet_id ack))"

lemma acknowledge_ok:
  assumes "ack_wf ack"
  shows "\<exists>r ack'. reliable_ack_acknowledge_packet_id ack pid = Inr (r, ack') \<and> ack_wf ack'
           \<and> take (nat (ra_len ack')) (ra_packet_id ack') =
               take (nat (ra_len ack)) (ra_packet_id ack) @ (if r then [pid] else [])
           \<and> r = (pid \<notin> set (take (nat (ra_len ack)) (ra_packet_id ack)) \<and> ra_len ack < 8)"
proof (cases "\<not> reliable_ack_packet_id_present ack pid \<and> ra_len ack < 8")
  case True
  let ?n = "nat (ra_len ack)"
  have n: "?n < length (ra_packet_id ack)" "nat (ra_len ack + 1) = Suc ?n" "0 \<le> ra_len ack"
    using True assms by (auto simp: ack_wf_def)
  have "take (Suc ?n) ((ra_packet_id ack)[?n := pid]) = take ?n (ra_packet_id ack) @ [pid]"
    using n by (simp add: take_Suc_conv_app_nth)
  then show ?thesis
    using True assms n
    by (auto simp: reliable_ack_acknowledge_packet_id_def reliable_ack_packet_id_present_def ack_wf_def)
next
  case False
  then show ?thesis
    using assms by (auto simp: reliable_ack_acknowledge_packet_id_def reliable_ack_packet_id_present_def)
qed


section \<open>The list of most recent acknowledgements\<close>















section \<open>Writing a record into a part of a buffer\<close>






lemma length_concat_be32 [simp]: "length (concat (map be32 pids)) = 4 * length pids"
  by (induction pids) auto









section \<open>Reading an acknowledgement record\<close>




section \<open>Properties\<close>




end
