(* ===== verification/ReliableRecv.thy ===== *)
theory ReliableRecv
  imports ReliableAck
begin

text \<open>
  The receive side of the reliability layer delivers the packets of the peer in
  order, without gaps and without duplicates, whatever the network loses,
  repeats or reorders, and it cannot get stuck with a full buffer.
\<close>

section \<open>Entries\<close>

lemma first_index_Some:
  "first_index P xs k = Some i \<Longrightarrow> \<exists>j < length xs. i = k + j \<and> P (xs ! j)"
proof (induction xs arbitrary: k)
  case Nil
  then show ?case by simp
next
  case (Cons x xs)
  show ?case
  proof (cases "P x")
    case True
    then show ?thesis using Cons.prems by auto
  next
    case False
    then show ?thesis using Cons.prems Cons.IH [of "Suc k"] by fastforce
  qed
qed

lemma first_index_None: "first_index P xs k = None \<longleftrightarrow> (\<forall>x\<in>set xs. \<not> P x)"
  by (induction xs arbitrary: k) auto

lemma first_index_ex: "\<exists>x\<in>set xs. P x \<Longrightarrow> \<exists>i < length xs. first_index P xs 0 = Some i \<and> P (xs ! i)"
  using first_index_None [of P xs 0] first_index_Some [of P xs 0]
  by (cases "first_index P xs 0") auto

definition rel_wf :: "reliable \<Rightarrow> bool" where
  "rel_wf rel \<longleftrightarrow> 0 < rl_size rel \<and> rl_size rel \<le> 12 \<and> length (rl_array rel) = 12 \<and> 0 \<le> rl_offset rel
     \<and> (\<forall>e\<in>set (rl_entries rel). buf_wf (e_buf e) \<and> rl_offset rel \<le> b_capacity (e_buf e))"

lemma length_entries [simp]: "rel_wf rel \<Longrightarrow> length (rl_entries rel) = nat (rl_size rel)"
  by (auto simp: rel_wf_def rl_entries_def)

lemma entries_nth: "i < length (rl_entries rel) \<Longrightarrow> rl_entries rel ! i = rl_array rel ! i"
  by (simp add: rl_entries_def)

lemma entries_upd [simp]: "rl_entries (upd_entry rel i e) = (rl_entries rel)[i := e]"
  by (simp add: rl_entries_def upd_entry_def take_update_swap)

lemma upd_entry_simps [simp]:
  "rl_size (upd_entry rel i e) = rl_size rel" "rl_packet_id (upd_entry rel i e) = rl_packet_id rel"
  "rl_offset (upd_entry rel i e) = rl_offset rel" "rl_hold (upd_entry rel i e) = rl_hold rel"
  "rl_initial_timeout (upd_entry rel i e) = rl_initial_timeout rel"
  "rl_array (upd_entry rel i e) = (rl_array rel)[i := e]"
  by (simp_all add: upd_entry_def)

lemma upd_entry_twice [simp]: "upd_entry (upd_entry rel i a) i b = upd_entry rel i b"
  by (simp add: upd_entry_def)

lemma entries_pid [simp]: "rl_entries (rel\<lparr>rl_packet_id := x\<rparr>) = rl_entries rel"
  by (simp add: rl_entries_def)

lemma rel_wf_upd:
  assumes "rel_wf rel" "buf_wf (e_buf e)" "rl_offset rel \<le> b_capacity (e_buf e)"
  shows "rel_wf (upd_entry rel i e)"
  using assms set_update_subset_insert [of "rl_entries rel" i e] by (fastforce simp: rel_wf_def)

lemma rel_wf_pid [simp]: "rel_wf (rel\<lparr>rl_packet_id := x\<rparr>) = rel_wf rel"
  by (simp add: rel_wf_def)


section \<open>The window of acceptable packet ids\<close>

text \<open>
  Together the two tests on an incoming id say that it lies in the window of \<open>size\<close>
  ids from the next expected one on.
\<close>

lemma pid_window:
  assumes b: "unat (b :: u32) < 2 ^ 31" and s: "0 < s" "s \<le> 12"
  shows "reliable_pid_in_range2 t b (word_of_int s) \<longleftrightarrow> unat t < unat b + nat s"
    and "\<not> reliable_pid_min t b \<and> reliable_pid_in_range2 t b (word_of_int s)
           \<longleftrightarrow> unat b \<le> unat t \<and> unat t < unat b + nat s"
proof -
  have us: "unat (word_of_int s :: u32) = nat s"
    using s by (simp add: unat_eq_nat_uint uint_word_of_int_eq take_bit_int_eq_self)
  have sum: "unat (b + word_of_int s) = unat b + nat s"
    using b s us by (subst unat_word_ariths) simp
  show r2: "reliable_pid_in_range2 t b (word_of_int s) \<longleftrightarrow> unat t < unat b + nat s"
  proof -
    have "b + word_of_int s \<ge> b" using sum by (simp add: word_le_nat_alt)
    then have "reliable_pid_in_range2 t b (word_of_int s) \<longleftrightarrow> t < b + word_of_int s"
      by (simp add: reliable_pid_in_range2_def)
    also have "\<dots> \<longleftrightarrow> unat t < unat b + nat s" unfolding word_less_nat_alt sum ..
    finally show ?thesis .
  qed
  have mn: "\<not> reliable_pid_min t b \<longleftrightarrow> unat (t - b) < 2 ^ 31"
    by (simp add: reliable_pid_min_def reliable_pid_in_range1_def subtract_pid_def word_less_nat_alt)
  have ge: "unat b \<le> unat t" if "unat (t - b) < 2 ^ 31"
  proof (rule ccontr)
    assume "\<not> unat b \<le> unat t"
    then have "unat (t - b) = unat t + 2 ^ 32 - unat b"
      by (simp add: unat_sub_if_size word_le_nat_alt word_size)
    then show False using that b by simp
  qed
  have le: "unat (t - b) < 2 ^ 31" if "unat b \<le> unat t" "unat t < unat b + nat s"
  proof -
    have "unat (t - b) = unat t - unat b" using that(1) by (intro unat_sub) (simp add: word_le_nat_alt)
    moreover have "unat t - unat b < 12" using that s by linarith
    ultimately show ?thesis by simp
  qed
  show "\<not> reliable_pid_min t b \<and> reliable_pid_in_range2 t b (word_of_int s)
           \<longleftrightarrow> unat b \<le> unat t \<and> unat t < unat b + nat s"
    unfolding r2 mn using ge le by blast
qed


section \<open>The invariant of the receive side\<close>

definition recv_inv :: "reliable \<Rightarrow> bool" where
  "recv_inv rel \<longleftrightarrow> rel_wf rel
     \<and> (\<forall>e\<in>set (rl_entries rel). e_active e \<longrightarrow> unat (rl_packet_id rel) \<le> unat (e_packet_id e)
          \<and> unat (e_packet_id e) < unat (rl_packet_id rel) + nat (rl_size rel))
     \<and> (\<forall>i < length (rl_entries rel). \<forall>j < length (rl_entries rel).
          e_active (rl_entries rel ! i) \<longrightarrow> e_active (rl_entries rel ! j)
          \<longrightarrow> e_packet_id (rl_entries rel ! i) = e_packet_id (rl_entries rel ! j) \<longrightarrow> i = j)"

text \<open>A full buffer holds the whole window, so also the packet that is due next.\<close>

lemma recv_no_deadlock:
  assumes inv: "recv_inv rel"
  shows "reliable_can_get rel \<or> reliable_get_entry_sequenced rel \<noteq> None"
proof (rule disjCI)
  assume "\<not> reliable_get_entry_sequenced rel \<noteq> None"
  then have none: "\<forall>e\<in>set (rl_entries rel). \<not> (e_active e \<and> e_packet_id e = rl_packet_id rel)"
    by (simp add: reliable_get_entry_sequenced_def first_index_None)
  show "reliable_can_get rel"
  proof (rule ccontr)
    assume "\<not> reliable_can_get rel"
    then have act: "e_active (rl_entries rel ! i)" if "i < length (rl_entries rel)" for i
      using that by (auto simp: reliable_can_get_def list_ex_iff)
    let ?n = "nat (rl_size rel)" and ?b = "unat (rl_packet_id rel)"
    let ?f = "\<lambda>i. unat (e_packet_id (rl_entries rel ! i))"
    have wf: "rel_wf rel" "0 < ?n" using inv by (auto simp: recv_inv_def rel_wf_def)
    have len: "length (rl_entries rel) = ?n" using wf by simp
    have inj: "inj_on ?f {..<?n}"
      using inv act len by (auto simp: recv_inv_def inj_on_def word_unat_eq_iff [symmetric])
    have "?f ` {..<?n} \<subseteq> {?b..<?b + ?n}"
    proof
      fix x assume "x \<in> ?f ` {..<?n}"
      then obtain i where i: "i < ?n" "x = ?f i" by auto
      then have "rl_entries rel ! i \<in> set (rl_entries rel)" "e_active (rl_entries rel ! i)" using act len by auto
      then show "x \<in> {?b..<?b + ?n}" using inv i(2) by (auto simp: recv_inv_def)
    qed
    moreover have "card (?f ` {..<?n}) = card {?b..<?b + ?n}" using inj by (simp add: card_image)
    ultimately have "?f ` {..<?n} = {?b..<?b + ?n}" by (intro card_subset_eq) auto
    then have "?b \<in> ?f ` {..<?n}" using wf(2) by simp
    then obtain i where "i < ?n" "?b = ?f i" by auto
    then show False using none act len by (metis nth_mem word_unat_eq_iff)
  qed
qed

definition genuine :: "(nat \<Rightarrow> u8 list) \<Rightarrow> buffer \<Rightarrow> bool" where
  "genuine f buf \<longleftrightarrow> buf_wf buf \<and> (\<exists>pid. content buf = be32 pid @ f (unat pid))"

definition holds_sent :: "(nat \<Rightarrow> u8 list) \<Rightarrow> reliable \<Rightarrow> bool" where
  "holds_sent f rel \<longleftrightarrow>
     (\<forall>e\<in>set (rl_entries rel). e_active e \<longrightarrow> content (e_buf e) = f (unat (e_packet_id e)))"

lemma read_packet_id:
  assumes "buf_wf buf" "content buf = be32 pid @ xs"
  shows "\<exists>buf1. reliable_ack_read_packet_id buf = Inr (Some pid, buf1) \<and> buf_wf buf1 \<and> content buf1 = xs"
  using bb.rd_prefix [OF assms, of 4] by (auto simp: reliable_ack_read_packet_id_def)

lemma get_buf_ok:
  assumes wf: "rel_wf rel" and can: "reliable_can_get rel"
  shows "\<exists>i b. i < length (rl_entries rel) \<and> \<not> e_active (rl_entries rel ! i)
           \<and> reliable_get_buf rel = Inr (Some i, upd_entry rel i ((rl_entries rel ! i)\<lparr>e_buf := b\<rparr>))
           \<and> buf_wf b \<and> content b = [] \<and> headroom b = nat (rl_offset rel)
           \<and> b_capacity b = b_capacity (e_buf (rl_entries rel ! i))
           \<and> tailroom b = nat (b_capacity b - rl_offset rel)"
proof -
  obtain i where i: "i < length (rl_entries rel)" "first_index (\<lambda>e. \<not> e_active e) (rl_entries rel) 0 = Some i"
    "\<not> e_active (rl_entries rel ! i)"
    using can first_index_ex [of "rl_entries rel" "\<lambda>e. \<not> e_active e"]
    by (auto simp: reliable_can_get_def list_ex_iff)
  let ?e = "rl_entries rel ! i"
  have "?e \<in> set (rl_entries rel)" using i by simp
  then have e: "buf_wf (e_buf ?e)" "0 \<le> rl_offset rel" "rl_offset rel \<le> b_capacity (e_buf ?e)"
    using wf by (auto simp: rel_wf_def)
  from buf_init_ok [OF e] obtain b where b: "buf_init_dowork (e_buf ?e) (rl_offset rel) = (True, b)" "buf_wf b"
    "content b = []" "headroom b = nat (rl_offset rel)" "b_capacity b = b_capacity (e_buf ?e)"
    "tailroom b = nat (b_capacity (e_buf ?e) - rl_offset rel)" by blast
  have "reliable_get_buf rel = Inr (Some i, upd_entry rel i (?e\<lparr>e_buf := b\<rparr>))"
    using i b entries_nth [OF i(1)] by (simp add: reliable_get_buf_def)
  with i b show ?thesis by auto
qed

lemma recv_inv_activate:
  assumes inv: "recv_inv rel" and i: "i < length (rl_entries rel)" "\<not> e_active (rl_entries rel ! i)"
    and b: "buf_wf (e_buf e)" "rl_offset rel \<le> b_capacity (e_buf e)"
    and e: "e_active e \<Longrightarrow> unat (rl_packet_id rel) \<le> unat (e_packet_id e)
              \<and> unat (e_packet_id e) < unat (rl_packet_id rel) + nat (rl_size rel)
              \<and> (\<forall>e'\<in>set (rl_entries rel). e_active e' \<longrightarrow> e_packet_id e' \<noteq> e_packet_id e)"
  shows "recv_inv (upd_entry rel i e)"
  unfolding recv_inv_def
proof (intro conjI)
  show "rel_wf (upd_entry rel i e)" using inv b by (auto simp: recv_inv_def intro: rel_wf_upd)
  show "\<forall>e'\<in>set (rl_entries (upd_entry rel i e)). e_active e' \<longrightarrow>
      unat (rl_packet_id (upd_entry rel i e)) \<le> unat (e_packet_id e') \<and>
      unat (e_packet_id e') < unat (rl_packet_id (upd_entry rel i e)) + nat (rl_size (upd_entry rel i e))"
    using inv e set_update_subset_insert [of "rl_entries rel" i e] by (fastforce simp: recv_inv_def)
  show "\<forall>k < length (rl_entries (upd_entry rel i e)). \<forall>j < length (rl_entries (upd_entry rel i e)).
      e_active (rl_entries (upd_entry rel i e) ! k) \<longrightarrow> e_active (rl_entries (upd_entry rel i e) ! j) \<longrightarrow>
      e_packet_id (rl_entries (upd_entry rel i e) ! k) = e_packet_id (rl_entries (upd_entry rel i e) ! j) \<longrightarrow> k = j"
  proof (intro allI impI)
    fix k j
    assume *: "k < length (rl_entries (upd_entry rel i e))" "j < length (rl_entries (upd_entry rel i e))"
      "e_active (rl_entries (upd_entry rel i e) ! k)" "e_active (rl_entries (upd_entry rel i e) ! j)"
      "e_packet_id (rl_entries (upd_entry rel i e) ! k) = e_packet_id (rl_entries (upd_entry rel i e) ! j)"
    let ?es = "rl_entries rel"
    have kj: "k < length ?es" "j < length ?es" using * by simp_all
    have a: "e_active (?es[i := e] ! k)" "e_active (?es[i := e] ! j)"
      "e_packet_id (?es[i := e] ! k) = e_packet_id (?es[i := e] ! j)" using *(3-5) by simp_all
    show "k = j"
    proof (cases "k = i"; cases "j = i")
      assume "k = i" "j \<noteq> i"
      then show ?thesis using a e kj nth_mem [OF kj(2)] by fastforce
    next
      assume "k \<noteq> i" "j = i"
      then show ?thesis using a e kj nth_mem [OF kj(1)] by fastforce
    next
      assume "k \<noteq> i" "j \<noteq> i"
      then show ?thesis using a kj inv unfolding recv_inv_def by fastforce
    qed simp
  qed
qed


lemma holds_sent_upd:
  assumes "holds_sent f rel" "e_active e \<longrightarrow> content (e_buf e) = f (unat (e_packet_id e))"
  shows "holds_sent f (upd_entry rel i e)"
  using assms set_update_subset_insert [of "rl_entries rel" i e] by (fastforce simp: holds_sent_def)

text \<open>The branch of \<open>store_control_packet\<close> for a new packet inside of the window.\<close>

lemma store_new_packet:
  assumes inv: "recv_inv rel" "holds_sent f rel" and can: "reliable_can_get rel"
    and base: "unat (rl_packet_id rel) < 2 ^ 31"
    and new: "reliable_wont_break_sequentiality rel pid" "reliable_not_replay rel pid"
    and buf: "buf_wf buf1" "content buf1 = f (unat pid)"
  shows "\<exists>i b ok rel'. reliable_get_buf rel = Inr (Some i, upd_entry rel i ((rl_entries rel ! i)\<lparr>e_buf := b\<rparr>))
           \<and> i < length (rl_entries rel) \<and> \<not> e_active (rl_entries rel ! i)
           \<and> (\<exists>b'. buf_copy b buf1 = Inr (ok, b')
              \<and> (if ok then reliable_mark_active_incoming (upd_entry rel i ((rl_entries rel ! i)\<lparr>e_buf := b'\<rparr>)) i pid opcode
                              = Inr rel' \<and> e_active (rl_entries rel' ! i) \<and> e_packet_id (rl_entries rel' ! i) = pid
                 else rel' = upd_entry rel i ((rl_entries rel ! i)\<lparr>e_buf := b'\<rparr>)))
           \<and> ok = (int (length (f (unat pid))) \<le> b_capacity (e_buf (rl_entries rel ! i)) - rl_offset rel)
           \<and> (\<exists>e. rel' = upd_entry rel i e) \<and> recv_inv rel' \<and> holds_sent f rel'"
proof -
  have wf: "rel_wf rel" using inv by (simp add: recv_inv_def)
  from get_buf_ok [OF wf can] obtain i b where
    i: "i < length (rl_entries rel)" "\<not> e_active (rl_entries rel ! i)"
    and g: "reliable_get_buf rel = Inr (Some i, upd_entry rel i ((rl_entries rel ! i)\<lparr>e_buf := b\<rparr>))"
    and b: "buf_wf b" "content b = []" "b_capacity b = b_capacity (e_buf (rl_entries rel ! i))"
      "tailroom b = nat (b_capacity b - rl_offset rel)" by blast
  let ?e = "rl_entries rel ! i"
  have "?e \<in> set (rl_entries rel)" using i by simp
  then have off: "rl_offset rel \<le> b_capacity (e_buf ?e)" using wf by (auto simp: rel_wf_def)
  let ?ok = "length (f (unat pid)) \<le> tailroom b"
  have okeq: "?ok = (int (length (f (unat pid))) \<le> b_capacity (e_buf ?e) - rl_offset rel)"
    using b(3,4) off by linarith
  show ?thesis
  proof (cases ?ok)
    case True
    obtain b' where b': "buf_write b (f (unat pid)) = Inr (True, b')" "buf_wf b'" "content b' = f (unat pid)"
      "b_capacity b' = b_capacity b" using buf_write_ok [OF b(1) True] b(2) by auto
    let ?e' = "?e\<lparr>e_buf := b', e_active := True, e_packet_id := pid, e_opcode := opcode, e_next_try := 0,
      e_timeout := 0, e_n_acks := 0\<rparr>"
    have nomin: "\<not> reliable_pid_min pid (rl_packet_id rel)" and fresh:
      "\<forall>e'\<in>set (rl_entries rel). e_active e' \<longrightarrow> e_packet_id e' \<noteq> pid"
      using new(2) by (auto simp: reliable_not_replay_def list_ex_iff split: if_splits)
    have win: "unat (rl_packet_id rel) \<le> unat pid" "unat pid < unat (rl_packet_id rel) + nat (rl_size rel)"
      using pid_window(2) [OF base, of "rl_size rel" pid] nomin new(1) wf
      by (auto simp: reliable_wont_break_sequentiality_def rel_wf_def)
    have arr: "rl_array rel ! i = ?e" "i < length (rl_array rel)"
      using entries_nth [OF i(1)] i(1) by (auto simp: rl_entries_def)
    have "reliable_mark_active_incoming (upd_entry rel i (?e\<lparr>e_buf := b'\<rparr>)) i pid opcode =
        Inr (upd_entry rel i ?e')"
      using i nomin arr by (simp add: reliable_mark_active_incoming_def)
    moreover have "recv_inv (upd_entry rel i ?e')"
      using inv(1) i b b' off win fresh by (intro recv_inv_activate) auto
    moreover have "holds_sent f (upd_entry rel i ?e')"
      using inv(2) b' by (intro holds_sent_upd) simp_all
    moreover have "buf_copy b buf1 = Inr (True, b')" using b' buf by (simp add: buf_copy_eq)
    ultimately show ?thesis
      using g i True okeq
      by (intro exI [of _ i] exI [of _ b] exI [of _ True] exI [of _ "upd_entry rel i ?e'"]) auto
  next
    case False
    have "buf_copy b buf1 = Inr (False, b)" using False b(1) buf buf_write_full [of b "f (unat pid)"]
      by (simp add: buf_copy_eq)
    moreover have "recv_inv (upd_entry rel i (?e\<lparr>e_buf := b\<rparr>))"
      using inv(1) i b off by (intro recv_inv_activate) auto
    moreover have "holds_sent f (upd_entry rel i (?e\<lparr>e_buf := b\<rparr>))"
      using inv(2) i(2) by (intro holds_sent_upd) simp_all
    ultimately show ?thesis
      using g i False okeq
      by (intro exI [of _ i] exI [of _ b] exI [of _ False] exI [of _ "upd_entry rel i (?e\<lparr>e_buf := b\<rparr>)"]) auto
  qed
qed


lemma store_control_packet_ok:
  assumes inv: "recv_inv rel" "holds_sent f rel" "ack_wf ack" and base: "unat (rl_packet_id rel) < 2 ^ 31"
    and buf: "genuine f buf"
  shows "\<exists>ok rel' ack'. store_control_packet rel ack buf opcode = Inr (ok, rel', ack')
           \<and> recv_inv rel' \<and> holds_sent f rel' \<and> ack_wf ack' \<and> rl_packet_id rel' = rl_packet_id rel"
proof (cases "opcode \<noteq> P_ACK_V1 \<and> reliable_can_get rel")
  case False
  then show ?thesis using inv by (auto simp: store_control_packet_def)
next
  case True
  then have can: "reliable_can_get rel" by simp
  from buf obtain pid where pid: "buf_wf buf" "content buf = be32 pid @ f (unat pid)"
    by (auto simp: genuine_def)
  from read_packet_id [OF this] obtain buf1 where
    r: "reliable_ack_read_packet_id buf = Inr (Some pid, buf1)" "buf_wf buf1" "content buf1 = f (unat pid)" by blast
  from acknowledge_ok [OF inv(3), of pid] obtain ra ack' where
    a: "reliable_ack_acknowledge_packet_id ack pid = Inr (ra, ack')" "ack_wf ack'" by blast
  show ?thesis
  proof (cases "reliable_wont_break_sequentiality rel pid")
    case False
    then show ?thesis using True r inv by (auto simp: store_control_packet_def)
  next
    case seq: True
    show ?thesis
    proof (cases "reliable_not_replay rel pid")
      case False
      then have "store_control_packet rel ack buf opcode = Inr (True, rel, ack')"
        using True r seq a by (simp add: store_control_packet_def)
      then show ?thesis using inv a by blast
    next
      case new: True
      from store_new_packet [OF inv(1,2) can base seq new r(2,3), of opcode] obtain i b ok rel' where
        g: "reliable_get_buf rel = Inr (Some i, upd_entry rel i ((rl_entries rel ! i)\<lparr>e_buf := b\<rparr>))"
        "i < length (rl_entries rel)"
        and m: "\<exists>b'. buf_copy b buf1 = Inr (ok, b')
              \<and> (if ok then reliable_mark_active_incoming (upd_entry rel i ((rl_entries rel ! i)\<lparr>e_buf := b'\<rparr>)) i pid opcode
                              = Inr rel' \<and> e_active (rl_entries rel' ! i) \<and> e_packet_id (rl_entries rel' ! i) = pid
                 else rel' = upd_entry rel i ((rl_entries rel ! i)\<lparr>e_buf := b'\<rparr>))"
        and rel': "\<exists>e. rel' = upd_entry rel i e" "recv_inv rel'" "holds_sent f rel'"
        by (elim exE conjE) (rule that, assumption+, blast+)
      have i: "i < length (rl_array rel)" using g(2) by (simp add: rl_entries_def)
      have "store_control_packet rel ack buf opcode = Inr (ok, rel', if ok then ack' else ack)"
      proof (cases ok)
        case ok: True
        then show ?thesis using True r seq new g i m a(1) by (auto simp: store_control_packet_def Let_def)
      next
        case False
        then show ?thesis using True r seq new g i m a(1) by (auto simp: store_control_packet_def Let_def)
      qed
      then show ?thesis using rel' a inv(3) by (cases ok) auto
    qed
  qed
qed

lemma store_due_packet:
  assumes inv: "recv_inv rel" "holds_sent f rel" "ack_wf ack" and base: "unat (rl_packet_id rel) < 2 ^ 31"
    and due: "buf_wf buf" "content buf = be32 (rl_packet_id rel) @ f (unat (rl_packet_id rel))" "opcode \<noteq> P_ACK_V1"
    and st: "store_control_packet rel ack buf opcode = Inr (True, rel', ack')"
  shows "reliable_get_entry_sequenced rel' \<noteq> None"
proof (cases "reliable_can_get rel")
  case False
  then have "rel' = rel" using st by (simp add: store_control_packet_def)
  then show ?thesis using recv_no_deadlock [OF inv(1)] False by simp
next
  case can: True
  let ?pid = "rl_packet_id rel"
  have wf: "0 < rl_size rel" "rl_size rel \<le> 12" using inv(1) by (auto simp: recv_inv_def rel_wf_def)
  from read_packet_id [OF due(1,2)] obtain buf1 where
    r: "reliable_ack_read_packet_id buf = Inr (Some ?pid, buf1)" "buf_wf buf1" "content buf1 = f (unat ?pid)" by blast
  from acknowledge_ok [OF inv(3), of ?pid] obtain ra ack1 where
    a: "reliable_ack_acknowledge_packet_id ack ?pid = Inr (ra, ack1)" by blast
  have seq: "reliable_wont_break_sequentiality rel ?pid" and nomin: "\<not> reliable_pid_min ?pid ?pid"
    using pid_window(2) [OF base wf, of ?pid] wf by (auto simp: reliable_wont_break_sequentiality_def)
  show ?thesis
  proof (cases "reliable_not_replay rel ?pid")
    case False
    then have "\<exists>e\<in>set (rl_entries rel). e_active e \<and> e_packet_id e = ?pid"
      using nomin by (auto simp: reliable_not_replay_def list_ex_iff split: if_splits)
    moreover have "rel' = rel" using st can due(3) r seq False a by (simp add: store_control_packet_def)
    ultimately show ?thesis by (simp add: reliable_get_entry_sequenced_def first_index_None)
  next
    case new: True
    from store_new_packet [OF inv(1,2) can base seq new r(2,3), of opcode] obtain i b ok rel1 where
      g: "reliable_get_buf rel = Inr (Some i, upd_entry rel i ((rl_entries rel ! i)\<lparr>e_buf := b\<rparr>))"
      "i < length (rl_entries rel)"
      and m: "\<exists>b'. buf_copy b buf1 = Inr (ok, b')
            \<and> (if ok then reliable_mark_active_incoming (upd_entry rel i ((rl_entries rel ! i)\<lparr>e_buf := b'\<rparr>)) i ?pid opcode
                            = Inr rel1 \<and> e_active (rl_entries rel1 ! i) \<and> e_packet_id (rl_entries rel1 ! i) = ?pid
               else rel1 = upd_entry rel i ((rl_entries rel ! i)\<lparr>e_buf := b'\<rparr>))"
      and rel1: "\<exists>e. rel1 = upd_entry rel i e"
      by (elim exE conjE) (rule that, assumption+, blast+)
    have i: "i < length (rl_array rel)" using g(2) by (simp add: rl_entries_def)
    have ok: "ok"
      using st can due(3) r seq new g(1) m i by (cases ok) (auto simp: store_control_packet_def Let_def)
    then have "rel' = rel1"
      using st can due(3) r seq new g(1) m i a by (auto simp: store_control_packet_def Let_def)
    moreover have "e_active (rl_entries rel1 ! i)" "e_packet_id (rl_entries rel1 ! i) = ?pid" using m ok by auto
    moreover have "i < length (rl_entries rel1)" "rl_packet_id rel1 = ?pid" using rel1 g(2) by auto
    ultimately show ?thesis
      by (auto simp: reliable_get_entry_sequenced_def first_index_None intro!: bexI [of _ "rl_entries rel1 ! i"])
  qed
qed

text \<open>Delivering the next packet in sequence, as \<open>tls_process\<close> does with each entry it finds.\<close>

definition deliver_next :: "reliable \<Rightarrow> (u8 list option \<times> reliable) cres" where
  "deliver_next rel =
     (case reliable_get_entry_sequenced rel of
        None \<Rightarrow> Inr (None, rel)
      | Some i \<Rightarrow> bindE (reliable_mark_deleted rel i) (\<lambda>rel'.
                  Inr (Some (content (e_buf (rl_array rel ! i))), rel')))"

lemma deliver_next_ok:
  assumes inv: "recv_inv rel" "holds_sent f rel" and base: "unat (rl_packet_id rel) < 2 ^ 31"
  shows "\<exists>r rel'. deliver_next rel = Inr (r, rel') \<and> recv_inv rel' \<and> holds_sent f rel'
           \<and> (case r of None \<Rightarrow> rel' = rel
              | Some xs \<Rightarrow> xs = f (unat (rl_packet_id rel)) \<and> unat (rl_packet_id rel') = Suc (unat (rl_packet_id rel)))"
proof (cases "reliable_get_entry_sequenced rel")
  case None
  then show ?thesis using inv by (simp add: deliver_next_def)
next
  case (Some i)
  from first_index_Some [OF Some [unfolded reliable_get_entry_sequenced_def]]
  have i: "i < length (rl_entries rel)" "e_active (rl_entries rel ! i)"
    "e_packet_id (rl_entries rel ! i) = rl_packet_id rel" by auto
  let ?e = "rl_entries rel ! i"
  have wf: "rel_wf rel" using inv by (simp add: recv_inv_def)
  have arr: "rl_array rel ! i = ?e" using entries_nth [OF i(1)] by simp
  have mem: "?e \<in> set (rl_entries rel)" using i by simp
  have e: "buf_wf (e_buf ?e)" "rl_offset rel \<le> b_capacity (e_buf ?e)" using mem wf by (auto simp: rel_wf_def)
  have suc: "unat (rl_packet_id rel + 1) = Suc (unat (rl_packet_id rel))"
    using base by (subst unat_word_ariths) simp
  let ?r1 = "upd_entry rel i (?e\<lparr>e_active := False\<rparr>)"
  let ?rel' = "?r1\<lparr>rl_packet_id := rl_packet_id rel + 1\<rparr>"
  have d: "deliver_next rel = Inr (Some (content (e_buf ?e)), ?rel')"
    using Some i arr by (simp add: deliver_next_def reliable_mark_deleted_def)
  let ?es = "(rl_entries rel)[i := ?e\<lparr>e_active := False\<rparr>]"
  have same: "k \<noteq> i \<and> ?es ! k = rl_entries rel ! k \<and> e_packet_id (?es ! k) \<noteq> rl_packet_id rel"
    if "k < length (rl_entries rel)" "e_active (?es ! k)" for k
  proof -
    have ki: "k \<noteq> i" using that i by auto
    then have "e_active (rl_entries rel ! k)" using that by simp
    then have "e_packet_id (rl_entries rel ! k) \<noteq> e_packet_id ?e"
      using inv(1) that(1) i(1,2) ki unfolding recv_inv_def by blast
    then show ?thesis using ki i(3) by simp
  qed
  have "recv_inv ?rel'"
    unfolding recv_inv_def
  proof (intro conjI)
    show "rel_wf ?rel'" using wf e by (simp add: rel_wf_upd)
    show "\<forall>e'\<in>set (rl_entries ?rel'). e_active e' \<longrightarrow> unat (rl_packet_id ?rel') \<le> unat (e_packet_id e')
        \<and> unat (e_packet_id e') < unat (rl_packet_id ?rel') + nat (rl_size ?rel')"
    proof (intro ballI impI)
      fix e' assume "e' \<in> set (rl_entries ?rel')" "e_active e'"
      then obtain k where k: "k < length (rl_entries rel)" "e' = ?es ! k" "e_active (?es ! k)"
        by (auto simp: in_set_conv_nth)
      have s: "e' = rl_entries rel ! k" "e_packet_id e' \<noteq> rl_packet_id rel"
        using same [OF k(1,3)] k(2) by auto
      then have "e' \<in> set (rl_entries rel)" using k(1) by simp
      then have "unat (rl_packet_id rel) \<le> unat (e_packet_id e')"
        "unat (e_packet_id e') < unat (rl_packet_id rel) + nat (rl_size rel)"
        using inv(1) \<open>e_active e'\<close> unfolding recv_inv_def by blast+
      moreover have "unat (e_packet_id e') \<noteq> unat (rl_packet_id rel)"
        using s(2) by (simp add: word_unat_eq_iff)
      ultimately show "unat (rl_packet_id ?rel') \<le> unat (e_packet_id e')
        \<and> unat (e_packet_id e') < unat (rl_packet_id ?rel') + nat (rl_size ?rel')"
        using suc by simp
    qed
    show "\<forall>k < length (rl_entries ?rel'). \<forall>j < length (rl_entries ?rel').
        e_active (rl_entries ?rel' ! k) \<longrightarrow> e_active (rl_entries ?rel' ! j) \<longrightarrow>
        e_packet_id (rl_entries ?rel' ! k) = e_packet_id (rl_entries ?rel' ! j) \<longrightarrow> k = j"
    proof (intro allI impI)
      fix k j assume *: "k < length (rl_entries ?rel')" "j < length (rl_entries ?rel')"
        "e_active (rl_entries ?rel' ! k)" "e_active (rl_entries ?rel' ! j)"
        "e_packet_id (rl_entries ?rel' ! k) = e_packet_id (rl_entries ?rel' ! j)"
      have ks: "?es ! k = rl_entries rel ! k" using same [of k] * by simp
      have js: "?es ! j = rl_entries rel ! j" using same [of j] * by simp
      have "k < length (rl_entries rel)" "j < length (rl_entries rel)" "e_active (rl_entries rel ! k)"
        "e_active (rl_entries rel ! j)" "e_packet_id (rl_entries rel ! k) = e_packet_id (rl_entries rel ! j)"
        using * ks js by simp_all
      then show "k = j" using inv(1) unfolding recv_inv_def by blast
    qed
  qed
  moreover have "holds_sent f ?rel'"
  proof -
    have "holds_sent f ?r1" using inv(2) by (rule holds_sent_upd) simp
    then show ?thesis by (simp add: holds_sent_def)
  qed
  moreover have "content (e_buf ?e) = f (unat (rl_packet_id rel))"
    using inv(2) mem i by (auto simp: holds_sent_def)
  ultimately show ?thesis using d suc by auto
qed



section \<open>Runs of the receive side\<close>

datatype rel_event = Arrive buffer int | Process

fun rel_run :: "rel_event list \<Rightarrow> reliable \<Rightarrow> reliable_ack \<Rightarrow> (u8 list list \<times> reliable \<times> reliable_ack) cres" where
  "rel_run [] rel ack = Inr ([], rel, ack)"
| "rel_run (Arrive buf opcode # evs) rel ack =
     bindE (store_control_packet rel ack buf opcode) (\<lambda>(_, rel', ack'). rel_run evs rel' ack')"
| "rel_run (Process # evs) rel ack =
     bindE (deliver_next rel) (\<lambda>(r, rel').
     bindE (rel_run evs rel' ack) (\<lambda>(out, rel'', ack').
     Inr ((case r of None \<Rightarrow> out | Some xs \<Rightarrow> xs # out), rel'', ack')))"

definition genuine_event :: "(nat \<Rightarrow> u8 list) \<Rightarrow> rel_event \<Rightarrow> bool" where
  "genuine_event f ev = (case ev of Arrive buf _ \<Rightarrow> genuine f buf | Process \<Rightarrow> True)"

lemma rel_run_ok:
  assumes "recv_inv rel" "holds_sent f rel" "ack_wf ack" "unat (rl_packet_id rel) = k"
    and "list_all (genuine_event f) evs" "k + length evs < 2 ^ 31"
  shows "\<exists>out rel' ack'. rel_run evs rel ack = Inr (out, rel', ack') \<and> recv_inv rel' \<and> holds_sent f rel' \<and> ack_wf ack'
           \<and> (\<forall>i < length out. out ! i = f (k + i)) \<and> unat (rl_packet_id rel') = k + length out
           \<and> length out \<le> length evs"
  using assms
proof (induction evs arbitrary: rel ack k)
  case Nil
  then show ?case by simp
next
  case (Cons ev evs)
  have base: "unat (rl_packet_id rel) < 2 ^ 31" using Cons.prems by simp
  show ?case
  proof (cases ev)
    case (Arrive buf opcode)
    then have "genuine f buf" using Cons.prems by (simp add: genuine_event_def)
    from store_control_packet_ok [OF Cons.prems(1-3) base this, of opcode] obtain ok rel1 ack1 where
      s: "store_control_packet rel ack buf opcode = Inr (ok, rel1, ack1)" "recv_inv rel1" "holds_sent f rel1"
      "ack_wf ack1" "rl_packet_id rel1 = rl_packet_id rel" by blast
    with Cons.IH [of rel1 ack1 k] Cons.prems Arrive show ?thesis by auto
  next
    case Process
    from deliver_next_ok [OF Cons.prems(1,2) base] obtain r rel1 where
      d: "deliver_next rel = Inr (r, rel1)" "recv_inv rel1" "holds_sent f rel1"
      and r: "case r of None \<Rightarrow> rel1 = rel
        | Some xs \<Rightarrow> xs = f (unat (rl_packet_id rel)) \<and> unat (rl_packet_id rel1) = Suc (unat (rl_packet_id rel))" by blast
    define k1 where "k1 = (if r = None then k else Suc k)"
    have pid: "unat (rl_packet_id rel1) = k1" using r Cons.prems(4) by (auto simp: k1_def split: option.splits)
    have gl: "list_all (genuine_event f) evs" and len: "k1 + length evs < 2 ^ 31"
      using Cons.prems(5,6) by (auto simp: k1_def)
    from Cons.IH [OF d(2,3) Cons.prems(3) pid gl len] obtain out rel' ack' where
      o: "rel_run evs rel1 ack = Inr (out, rel', ack')" "recv_inv rel'" "holds_sent f rel'" "ack_wf ack'"
      "\<forall>i < length out. out ! i = f (k1 + i)" "unat (rl_packet_id rel') = k1 + length out" "length out \<le> length evs"
      by blast
    show ?thesis
    proof (cases r)
      case None
      then have run: "rel_run (ev # evs) rel ack = Inr (out, rel', ack')" using o(1) d(1) Process by simp
      have "k1 = k" using None by (simp add: k1_def)
      then show ?thesis using o run by simp
    next
      case (Some xs)
      then have run: "rel_run (ev # evs) rel ack = Inr (f k # out, rel', ack')"
        using o(1) d(1) Process r Cons.prems(4) by simp
      have k1: "k1 = Suc k" using Some by (simp add: k1_def)
      have "(f k # out) ! i = f (k + i)" if "i < length (f k # out)" for i
        using that o(5) k1 by (cases i) auto
      then show ?thesis using o run k1 by (intro exI [of _ "f k # out"] exI [of _ rel'] exI [of _ ack']) simp
    qed
  qed
qed

lemma reliable_init_loop_ok:
  "reliable_init_loop n buf_size offset = Inr es \<Longrightarrow> length es = n \<and>
     (\<forall>e\<in>set es. \<not> e_active e \<and> buf_wf (e_buf e) \<and> 0 \<le> offset \<and> offset \<le> b_capacity (e_buf e)
        \<and> b_capacity (e_buf e) = buf_size)"
proof (induction n arbitrary: es)
  case 0
  then show ?case by simp
next
  case (Suc n)
  from Suc.prems obtain b b' es' where b: "0 \<le> buf_size" "alloc_buf (nat buf_size) = Inr b"
    "buf_init_dowork b offset = (True, b')" "reliable_init_loop n buf_size offset = Inr es'"
    "es = clear_entry\<lparr>e_buf := b'\<rparr> # es'"
    by (auto elim!: bindE_InrE split: if_splits prod.splits)
  have lt: "nat buf_size < 1000000"
    using b(2) by (auto simp: alloc_buf_def buf_size_valid_def BUF_SIZE_MAX_def buf_size_error_def split: if_splits)
  have wf: "buf_wf b" "b_capacity b = buf_size" using alloc_buf_ok [OF lt] b(1,2) by auto
  have off: "0 \<le> offset" "offset \<le> b_capacity b"
    using b(3) by (auto simp: buf_init_dowork_def split: if_splits)
  then have "buf_wf b'" "b_capacity b' = b_capacity b" using buf_init_ok [OF wf(1) off] b(3) by auto
  then show ?case using Suc.IH [OF b(4)] b(5) off wf(2) by (simp add: clear_entry_def)
qed

lemma reliable_init_inv:
  assumes "reliable_init buf_size offset array_size hold = Inr rel"
  shows "recv_inv rel" "holds_sent f rel" "rl_packet_id rel = 0" "\<forall>e\<in>set (rl_entries rel). \<not> e_active e"
    and "rl_offset rel = offset" "rl_size rel = array_size" "\<forall>e\<in>set (rl_entries rel). b_capacity (e_buf e) = buf_size"
proof -
  from assms obtain es where es: "0 < array_size" "array_size \<le> 12"
    "reliable_init_loop (nat array_size) buf_size offset = Inr es"
    "rel = \<lparr>rl_size = array_size, rl_initial_timeout = 0, rl_packet_id = 0, rl_offset = offset, rl_hold = hold,
          rl_array = es @ replicate (nat (12 - array_size)) clear_entry\<rparr>"
    by (auto simp: reliable_init_def elim!: bindE_InrE)
  note l = reliable_init_loop_ok [OF es(3)]
  have en: "rl_entries rel = es" using es l by (simp add: rl_entries_def)
  have ne: "es \<noteq> []" using l es(1) by auto
  show act: "\<forall>e\<in>set (rl_entries rel). \<not> e_active e" using en l by auto
  have off: "0 \<le> offset" using l ne by (cases es) auto
  have twelve: "nat array_size + nat (12 - array_size) = 12" using es(1,2) by simp
  have "rel_wf rel" unfolding rel_wf_def en using es l off twelve by auto
  then show "recv_inv rel" using act by (auto simp: recv_inv_def)
  show "holds_sent f rel" using act by (auto simp: holds_sent_def)
  show "rl_packet_id rel = 0" "rl_offset rel = offset" "rl_size rel = array_size" using es by simp_all
  show "\<forall>e\<in>set (rl_entries rel). b_capacity (e_buf e) = buf_size" using en l by simp
qed


section \<open>Properties\<close>

text \<open>
  C5: In-order delivery.  The peer sends the payload \<open>f k\<close> as packet \<open>k\<close>.  The network
  delivers any of these packets any number of times in any order, interleaved
  with attempts to process the next packet.  From \<open>reliable_init\<close> on no step faults and
  the payloads handed to TLS are exactly \<open>f 0, f 1, f 2, ...\<close>: no gap, no duplicate, no
  reordering.  (Fewer than 2^31 events, so packet ids do not wrap.)
\<close>

theorem reliable_delivers_in_order:
  assumes "reliable_init buf_size offset array_size hold = Inr rel"
    and "list_all (genuine_event f) evs" and "length evs < 2 ^ 31"
  shows "\<exists>out rel' ack'. rel_run evs rel \<lparr>ra_len = 0, ra_packet_id = replicate 8 0\<rparr> = Inr (out, rel', ack')
           \<and> out = map f [0..<length out]"
proof -
  have "ack_wf \<lparr>ra_len = 0, ra_packet_id = replicate 8 0\<rparr>" by (simp add: ack_wf_def)
  moreover have "unat (rl_packet_id rel) = 0" "0 + length evs < 2 ^ 31"
    using reliable_init_inv(3) [OF assms(1)] assms(3) by simp_all
  ultimately obtain out rel' ack' where
    "rel_run evs rel \<lparr>ra_len = 0, ra_packet_id = replicate 8 0\<rparr> = Inr (out, rel', ack')"
    and nth: "\<forall>i < length out. out ! i = f (0 + i)"
    using rel_run_ok [OF reliable_init_inv(1,2) [OF assms(1)] _ _ assms(2)] by blast
  moreover have "out = map f [0..<length out]"
    by (rule nth_equalityI) (use nth in simp_all)
  ultimately show ?thesis by blast
qed


theorem reliable_delivers_in_order_witness:
  "\<exists>rel buf out rel' ack'. reliable_init 64 8 4 False = Inr rel \<and> alloc_buf 32 = Inr buf
     \<and> (\<exists>b. buf_write buf (be32 0 @ [1, 2]) = Inr (True, b)
          \<and> rel_run [Arrive b 4, Arrive b 4, Process, Process] rel \<lparr>ra_len = 0, ra_packet_id = replicate 8 0\<rparr>
              = Inr (out, rel', ack')
          \<and> out = map (\<lambda>_. [1, 2]) [0..<length out])"
proof -
  obtain rel where rel: "reliable_init 64 8 4 False = Inr rel"
    by (simp add: reliable_init_def alloc_buf_def buf_size_valid_def BUF_SIZE_MAX_def buf_init_dowork_def
        numeral_eq_Suc)
  obtain buf where b: "alloc_buf 32 = Inr buf" "buf_wf buf" "content buf = []" "tailroom buf = 32"
    using alloc_buf_ok [of 32] by auto
  obtain b' where b': "buf_write buf (be32 0 @ [1, 2]) = Inr (True, b')" "buf_wf b'" "content b' = be32 0 @ [1, 2]"
    using buf_write_ok [OF b(2), of "be32 0 @ [1, 2]"] b by auto
  have "list_all (genuine_event (\<lambda>_. [1, 2])) [Arrive b' 4, Arrive b' 4, Process, Process]"
    using b' by (auto simp: genuine_event_def genuine_def)
  from reliable_delivers_in_order [OF rel this] rel b(1) b'(1) show ?thesis by fastforce
qed

text \<open>
  C6: The receive buffer cannot deadlock.  In every state the receive side reaches there
  is a free buffer for the next packet or the next packet in sequence is
  already there; and when the packet that is due arrives again, unless it is too
  big for a buffer, the next attempt to process delivers it.
\<close>

theorem reliable_receive_never_stuck:
  assumes init: "reliable_init buf_size offset array_size hold = Inr rel"
    and evs: "list_all (genuine_event f) evs" "length evs < 2 ^ 31 - 1"
    and run: "rel_run evs rel \<lparr>ra_len = 0, ra_packet_id = replicate 8 0\<rparr> = Inr (out, rel', ack')"
    and due: "buf_wf buf" "content buf = be32 (rl_packet_id rel') @ f (unat (rl_packet_id rel'))" "opcode \<noteq> P_ACK_V1"
    and st: "store_control_packet rel' ack' buf opcode = Inr (True, rel'', ack'')"
  shows "(reliable_can_get rel' \<or> reliable_get_entry_sequenced rel' \<noteq> None)
           \<and> (\<exists>rel3. deliver_next rel'' = Inr (Some (f (length out)), rel3))"
proof -
  have ack: "ack_wf \<lparr>ra_len = 0, ra_packet_id = replicate 8 0\<rparr>" by (simp add: ack_wf_def)
  have len: "unat (rl_packet_id rel) = 0" "0 + length evs < 2 ^ 31"
    using reliable_init_inv(3) [OF init] evs by simp_all
  from rel_run_ok [OF reliable_init_inv(1,2) [OF init] ack len(1) evs(1) len(2)] run
  have inv: "recv_inv rel'" "holds_sent f rel'" "ack_wf ack'" "unat (rl_packet_id rel') = length out"
    "length out \<le> length evs" by auto
  have base: "unat (rl_packet_id rel') < 2 ^ 31" using inv(4,5) len(2) by simp
  have g: "genuine f buf" using due by (auto simp: genuine_def)
  from store_control_packet_ok [OF inv(1-3) base g, of opcode] st
  have inv2: "recv_inv rel''" "holds_sent f rel''" "rl_packet_id rel'' = rl_packet_id rel'" by auto
  have "reliable_get_entry_sequenced rel'' \<noteq> None"
    by (rule store_due_packet [OF inv(1-3) base due st])
  then have "\<exists>rel3. deliver_next rel'' = Inr (Some (f (length out)), rel3)"
    using deliver_next_ok [OF inv2(1,2)] base inv(4) inv2(3)
    by (auto simp: deliver_next_def split: option.splits)
  then show ?thesis using recv_no_deadlock [OF inv(1)] by blast
qed


theorem reliable_receive_never_stuck_witness:
  "\<exists>rel rel'' ack'' rel3. reliable_init 16 4 2 False = Inr rel
     \<and> store_control_packet rel \<lparr>ra_len = 0, ra_packet_id = replicate 8 0\<rparr>
         \<lparr>b_capacity = 8, b_offset = 0, b_len = 6, b_data = Some [0, 0, 0, 0, 1, 2, 0, 0]\<rparr> 4 = Inr (True, rel'', ack'')
     \<and> deliver_next rel'' = Inr (Some [1, 2], rel3)"
proof -
  let ?ack = "\<lparr>ra_len = 0, ra_packet_id = replicate 8 0\<rparr>"
  let ?buf = "\<lparr>b_capacity = 8, b_offset = 0, b_len = 6, b_data = Some [0, 0, 0, 0, 1, 2, 0, 0]\<rparr>"
  have "case reliable_init 16 4 2 False of Inl _ \<Rightarrow> False
        | Inr rel \<Rightarrow> case store_control_packet rel ?ack ?buf 4 of Inl _ \<Rightarrow> False | Inr (ok, _, _) \<Rightarrow> ok"
    by code_simp
  then obtain rel rel'' ack'' where r: "reliable_init 16 4 2 False = Inr rel"
    "store_control_packet rel ?ack ?buf 4 = Inr (True, rel'', ack'')"
    by (auto split: sum.splits prod.splits)
  have run: "rel_run [] rel ?ack = Inr ([], rel, ?ack)" by simp
  have pid: "rl_packet_id rel = 0" by (rule reliable_init_inv(3) [OF r(1)])
  have buf: "buf_wf ?buf" "content ?buf = be32 0 @ [1, 2]" by code_simp+
  have "list_all (genuine_event (\<lambda>_. [1, 2])) []" "length ([] :: rel_event list) < 2 ^ 31 - 1" "(4 :: int) \<noteq> P_ACK_V1"
    by simp_all
  from reliable_receive_never_stuck [OF r(1) this(1,2) run buf(1) _ this(3) r(2)] pid buf(2) r
  show ?thesis by auto
qed

end
