(* ===== verification/ReliableSend.thy ===== *)
theory ReliableSend
  imports ReliableRecv "HOL-Library.Multiset"
begin

text \<open>
  The send side of the reliability layer: the ids that wait for an
  acknowledgement stay within one window, so the count of available slots tells
  exactly whether a buffer can be had, and no packet leaves its slot before it
  is acknowledged.
\<close>

section \<open>Distances from the next id\<close>

definition pid_dist :: "u32 \<Rightarrow> u32 \<Rightarrow> nat" where
  "pid_dist p a = unat (p - a)"

lemma word_less_31:
  fixes u v :: u32
  assumes "unat u \<le> 12" "unat v \<le> 12"
  shows "v - u < 0x80000000 \<longleftrightarrow> unat u \<le> unat v"
proof (cases "u \<le> v")
  case True
  then show ?thesis using assms by (simp add: word_less_nat_alt word_le_nat_alt unat_sub)
next
  case False
  then have "unat (v - u) = 2 ^ 32 + unat v - unat u"
    using unat_sub_if_size [of v u] by (simp add: word_le_nat_alt word_size)
  then show ?thesis using False assms by (simp add: word_less_nat_alt word_le_nat_alt)
qed

lemma sint_word_of_int_eq: "- (2 ^ 31) \<le> k \<Longrightarrow> k < 2 ^ 31 \<Longrightarrow> sint (word_of_int k :: u32) = k"
  using c_int_id [of k] by (simp add: c_int_def)

lemma unat_word_of_int_eq:
  assumes "0 \<le> k" "k < 2 ^ 32"
  shows "unat (word_of_int k :: u32) = nat k"
proof -
  have "(word_of_int k :: u32) = word_of_nat (nat k)" using assms(1) by simp
  moreover have "nat k < 2 ^ 32" using assms by (simp add: nat_less_iff)
  ultimately show ?thesis by (simp only: unat_of_nat) simp
qed

lemma pid_min_dist:
  assumes "pid_dist p a \<le> 12" "pid_dist p b \<le> 12"
  shows "reliable_pid_min a b \<longleftrightarrow> pid_dist p b < pid_dist p a"
proof -
  have "a - b = (p - b) - (p - a)" by simp
  then show ?thesis
    using word_less_31 [of "p - a" "p - b"] assms
    by (auto simp: reliable_pid_min_def reliable_pid_in_range1_def subtract_pid_def pid_dist_def)
qed

lemma pid_dist_inj: "pid_dist p a = pid_dist p b \<longleftrightarrow> a = b"
  by (auto simp: pid_dist_def word_unat_eq_iff [symmetric])

lemma pid_dist_Suc: "pid_dist p a < 2 ^ 32 - 1 \<Longrightarrow> pid_dist (p + 1) a = Suc (pid_dist p a)"
proof -
  assume "pid_dist p a < 2 ^ 32 - 1"
  then have "unat ((p - a) + 1) = Suc (unat (p - a))" by (simp add: pid_dist_def unat_word_ariths del: diff_add_eq)
  then show ?thesis by (simp add: pid_dist_def algebra_simps)
qed

definition active_ids :: "reliable_entry list \<Rightarrow> u32 list" where
  "active_ids es = map e_packet_id (filter e_active es)"

lemma active_ids_simps [simp]:
  "active_ids [] = []"
  "active_ids (e # es) = (if e_active e then [e_packet_id e] else []) @ active_ids es"
  "active_ids (es @ es') = active_ids es @ active_ids es'"
  by (simp_all add: active_ids_def)

lemma active_ids_Nil: "active_ids es = [] \<longleftrightarrow> (\<forall>e\<in>set es. \<not> e_active e)"
  by (auto simp: active_ids_def filter_empty_conv)

lemma set_active_ids: "a \<in> set (active_ids es) \<longleftrightarrow> (\<exists>e\<in>set es. e_active e \<and> e_packet_id e = a)"
  by (auto simp: active_ids_def)

lemma min_id_loop_spec:
  assumes "\<forall>a\<in>set (active_ids es) \<union> set_option m. pid_dist p a \<le> 12"
  shows "case min_id_loop es m of
           None \<Rightarrow> active_ids es = [] \<and> m = None
         | Some x \<Rightarrow> x \<in> set (active_ids es) \<union> set_option m
             \<and> (\<forall>a\<in>set (active_ids es) \<union> set_option m. pid_dist p a \<le> pid_dist p x)"
  using assms
proof (induction es arbitrary: m)
  case Nil
  then show ?case by (cases m) auto
next
  case (Cons e es)
  show ?case
  proof (cases "e_active e")
    case False
    then show ?thesis using Cons.IH [of m] Cons.prems by (cases "min_id_loop es m") simp_all
  next
    case True
    let ?m = "case m of None \<Rightarrow> Some (e_packet_id e)
      | Some y \<Rightarrow> if reliable_pid_min (e_packet_id e) y then Some (e_packet_id e) else m"
    have step: "min_id_loop (e # es) m = min_id_loop es ?m" using True by simp
    obtain y where y: "?m = Some y" by (cases m; cases "reliable_pid_min (e_packet_id e) (the m)") auto
    have y2: "y = e_packet_id e \<or> m = Some y" using y by (cases m) (auto split: if_splits)
    have y3: "pid_dist p (e_packet_id e) \<le> pid_dist p y" "\<forall>a\<in>set_option m. pid_dist p a \<le> pid_dist p y"
      using y Cons.prems True pid_min_dist [of p "e_packet_id e"] by (cases m; auto split: if_splits)+
    have "\<forall>a\<in>set (active_ids es) \<union> set_option (Some y). pid_dist p a \<le> 12"
      using Cons.prems True y2 by auto
    from Cons.IH [OF this] show ?thesis
      unfolding step y using True y2 y3
      by (cases "min_id_loop es (Some y)") (auto intro: le_trans)
  qed
qed


section \<open>The invariant of the send side\<close>

definition send_inv :: "reliable \<Rightarrow> bool" where
  "send_inv rel \<longleftrightarrow> rel_wf rel \<and> distinct (active_ids (rl_entries rel))
     \<and> (\<forall>a\<in>set (active_ids (rl_entries rel)). 1 \<le> pid_dist (rl_packet_id rel) a
          \<and> pid_dist (rl_packet_id rel) a \<le> nat (rl_size rel))"

text \<open>The oldest id that waits, and the number of ids from there on.\<close>

definition in_flight :: "reliable \<Rightarrow> nat" where
  "in_flight rel = Max (insert 0 (pid_dist (rl_packet_id rel) ` set (active_ids (rl_entries rel))))"

lemma in_flight_None:
  "min_id_loop (rl_entries rel) None = None \<Longrightarrow> send_inv rel \<Longrightarrow> in_flight rel = 0"
  using min_id_loop_spec [of "rl_entries rel" None "rl_packet_id rel"]
  by (fastforce simp: send_inv_def rel_wf_def in_flight_def)

lemma in_flight_Some:
  assumes "min_id_loop (rl_entries rel) None = Some x" "send_inv rel"
  shows "in_flight rel = pid_dist (rl_packet_id rel) x" "x \<in> set (active_ids (rl_entries rel))"
proof -
  have "\<forall>a\<in>set (active_ids (rl_entries rel)) \<union> set_option None. pid_dist (rl_packet_id rel) a \<le> 12"
    using assms(2) by (fastforce simp: send_inv_def rel_wf_def)
  from min_id_loop_spec [OF this] assms(1)
  have x: "x \<in> set (active_ids (rl_entries rel))"
    "\<forall>a\<in>set (active_ids (rl_entries rel)). pid_dist (rl_packet_id rel) a \<le> pid_dist (rl_packet_id rel) x" by auto
  then show "x \<in> set (active_ids (rl_entries rel))" by simp
  show "in_flight rel = pid_dist (rl_packet_id rel) x"
    unfolding in_flight_def using x by (intro Max_eqI) auto
qed

lemma in_flight_le: "send_inv rel \<Longrightarrow> in_flight rel \<le> nat (rl_size rel)"
  by (auto simp: in_flight_def send_inv_def)

lemma available_eq:
  assumes "send_inv rel"
  shows "reliable_get_num_output_sequenced_available rel = rl_size rel - int (in_flight rel)"
proof (cases "min_id_loop (rl_entries rel) None")
  case None
  then show ?thesis using in_flight_None [OF None assms]
    by (simp add: reliable_get_num_output_sequenced_available_def)
next
  case (Some x)
  let ?d = "rl_packet_id rel - x"
  have d: "in_flight rel = unat ?d" using in_flight_Some(1) [OF Some assms] by (simp add: pid_dist_def)
  have sz: "0 < rl_size rel" "rl_size rel \<le> 12" using assms by (auto simp: send_inv_def rel_wf_def)
  have le: "unat ?d \<le> nat (rl_size rel)" using in_flight_le [OF assms] d by simp
  have b: "0 \<le> rl_size rel - int (unat ?d)" "rl_size rel - int (unat ?d) \<le> 12" using le sz by linarith+
  have eq: "(word_of_int (rl_size rel) :: u32) - ?d = word_of_int (rl_size rel - int (unat ?d))"
    by simp
  have "sint ((word_of_int (rl_size rel) :: u32) - ?d) = rl_size rel - int (unat ?d)"
    unfolding eq using b by (intro sint_word_of_int_eq) simp_all
  then show ?thesis
    using Some d by (simp add: reliable_get_num_output_sequenced_available_def subtract_pid_def)
qed


text \<open>The ids that wait have different distances, so a window that is not used up leaves a free slot.\<close>

lemma length_active_ids: "length (active_ids es) = length (filter e_active es)"
  by (simp add: active_ids_def)

lemma free_slot:
  assumes inv: "send_inv rel" and free: "in_flight rel < nat (rl_size rel)"
  shows "reliable_can_get rel"
proof (rule ccontr)
  assume "\<not> reliable_can_get rel"
  then have "filter e_active (rl_entries rel) = rl_entries rel"
    by (auto simp: reliable_can_get_def list_ex_iff filter_id_conv)
  then have len: "length (active_ids (rl_entries rel)) = nat (rl_size rel)"
    using inv by (simp add: length_active_ids send_inv_def)
  let ?D = "pid_dist (rl_packet_id rel) ` set (active_ids (rl_entries rel))"
  have "inj_on (pid_dist (rl_packet_id rel)) (set (active_ids (rl_entries rel)))"
    by (auto simp: inj_on_def pid_dist_inj)
  then have "card ?D = nat (rl_size rel)"
    using inv len by (simp add: card_image distinct_card send_inv_def)
  moreover have "?D \<subseteq> {1..in_flight rel}"
    using inv by (auto simp: send_inv_def in_flight_def)
  ultimately have "nat (rl_size rel) \<le> in_flight rel"
    using card_mono [of "{1..in_flight rel}" ?D] by simp
  then show False using free by simp
qed

lemma get_buf_output_sequenced_eq:
  assumes "send_inv rel"
  shows "reliable_get_buf_output_sequenced rel =
           (if in_flight rel < nat (rl_size rel) then reliable_get_buf rel else Inr (None, rel))"
proof -
  have sz: "0 < rl_size rel" "rl_size rel \<le> 12" using assms by (auto simp: send_inv_def rel_wf_def)
  show ?thesis
  proof (cases "min_id_loop (rl_entries rel) None")
    case None
    then show ?thesis using in_flight_None [OF None assms] sz
      by (simp add: reliable_get_buf_output_sequenced_def)
  next
    case (Some x)
    have "unat (word_of_int (rl_size rel) :: u32) = nat (rl_size rel)"
      using sz by (intro unat_word_of_int_eq) simp_all
    then have "reliable_pid_in_range1 (rl_packet_id rel) x (word_of_int (rl_size rel)) \<longleftrightarrow> in_flight rel < nat (rl_size rel)"
      using in_flight_Some(1) [OF Some assms]
      by (simp add: reliable_pid_in_range1_def subtract_pid_def pid_dist_def word_less_nat_alt)
    then show ?thesis using Some by (simp add: reliable_get_buf_output_sequenced_def)
  qed
qed


section \<open>Operations keep the invariant\<close>

lemma mset_active_ids_upd:
  assumes "i < length es" "\<not> e_active (es ! i)"
  shows "mset (active_ids (es[i := e])) = mset ((if e_active e then [e_packet_id e] else []) @ active_ids es)"
proof -
  have es: "es = take i es @ es ! i # drop (Suc i) es" using assms(1) by (rule id_take_nth_drop)
  have "mset (active_ids es) = mset (active_ids (take i es)) + mset (active_ids (drop (Suc i) es))"
    by (subst es) (simp add: assms(2))
  then show ?thesis using assms(1) by (simp add: upd_conv_take_nth_drop)
qed

lemma active_ids_activate:
  assumes "i < length es" "\<not> e_active (es ! i)" "e_active e"
  shows "set (active_ids (es[i := e])) = insert (e_packet_id e) (set (active_ids es))"
    and "distinct (active_ids (es[i := e])) \<longleftrightarrow> e_packet_id e \<notin> set (active_ids es) \<and> distinct (active_ids es)"
proof -
  have m: "mset (active_ids (es[i := e])) = mset (e_packet_id e # active_ids es)"
    using mset_active_ids_upd [OF assms(1,2), of e] assms(3) by simp
  show "set (active_ids (es[i := e])) = insert (e_packet_id e) (set (active_ids es))"
    using mset_eq_setD [OF m] by simp
  show "distinct (active_ids (es[i := e])) \<longleftrightarrow> e_packet_id e \<notin> set (active_ids es) \<and> distinct (active_ids es)"
    using mset_eq_imp_distinct_iff [OF m] by simp
qed

lemma send_inv_dist: "send_inv rel \<Longrightarrow> a \<in> set (active_ids (rl_entries rel)) \<Longrightarrow> pid_dist (rl_packet_id rel) a \<le> in_flight rel"
  by (simp add: in_flight_def)

text \<open>A free entry whose buffer was filled is activated under the next id.\<close>

lemma mark_active_outgoing_ok:
  assumes inv: "send_inv rel" and free: "in_flight rel < nat (rl_size rel)"
    and i: "i < length (rl_entries rel)" "\<not> e_active (rl_entries rel ! i)" "\<not> e_active e"
    and b: "buf_wf (e_buf e)" "rl_offset rel \<le> b_capacity (e_buf e)" "4 \<le> headroom (e_buf e)"
  shows "\<exists>rel' e'. reliable_mark_active_outgoing (upd_entry rel i e) i opcode = Inr rel'
           \<and> rl_entries rel' = (rl_entries rel)[i := e'] \<and> rl_packet_id rel' = rl_packet_id rel + 1
           \<and> rl_size rel' = rl_size rel \<and> rl_offset rel' = rl_offset rel
           \<and> e_active e' \<and> e_packet_id e' = rl_packet_id rel \<and> e_opcode e' = opcode
           \<and> content (e_buf e') = be32 (rl_packet_id rel) @ content (e_buf e)
           \<and> b_capacity (e_buf e') = b_capacity (e_buf e)
           \<and> send_inv rel' \<and> in_flight rel' = Suc (in_flight rel)"
proof -
  from buf_prepend_ok [OF b(1), of "be32 (rl_packet_id rel)"] b(3) obtain b' where
    b': "buf_write_prepend (e_buf e) (be32 (rl_packet_id rel)) = Inr (True, b')" "buf_wf b'"
    "content b' = be32 (rl_packet_id rel) @ content (e_buf e)" "b_capacity b' = b_capacity (e_buf e)" by auto
  define e' where "e' = e\<lparr>e_packet_id := rl_packet_id rel, e_buf := b', e_active := True, e_opcode := opcode,
      e_next_try := 0, e_timeout := rl_initial_timeout rel\<rparr>"
  define rel' where "rel' = upd_entry (rel\<lparr>rl_packet_id := rl_packet_id rel + 1\<rparr>) i e'"
  have wf: "rel_wf rel" using inv by (simp add: send_inv_def)
  have la: "i < length (rl_array rel)" using i(1) by (simp add: rl_entries_def)
  have eq: "reliable_mark_active_outgoing (upd_entry rel i e) i opcode = Inr rel'"
    using i(1) la b'(1) by (simp add: reliable_mark_active_outgoing_def Let_def rel'_def e'_def upd_entry_def rl_entries_def)
  have ent: "rl_entries rel' = (rl_entries rel)[i := e']" "rl_packet_id rel' = rl_packet_id rel + 1" "rl_size rel' = rl_size rel"
    by (simp_all add: rel'_def)
  have act: "e_active e'" "e_packet_id e' = rl_packet_id rel" by (simp_all add: e'_def)
  note ids = active_ids_activate [OF i(1,2) act(1), unfolded act(2)]
  have sz: "rl_size rel \<le> 12" using wf by (simp add: rel_wf_def)
  have dists: "pid_dist (rl_packet_id rel + 1) a = Suc (pid_dist (rl_packet_id rel) a)"
    if "a \<in> insert (rl_packet_id rel) (set (active_ids (rl_entries rel)))" for a
  proof (rule pid_dist_Suc)
    have "pid_dist (rl_packet_id rel) a \<le> in_flight rel"
      using that send_inv_dist [OF inv] by (auto simp: pid_dist_def)
    then have "pid_dist (rl_packet_id rel) a \<le> 12" using in_flight_le [OF inv] sz by linarith
    then show "pid_dist (rl_packet_id rel) a < 2 ^ 32 - 1" by simp
  qed
  have flight: "in_flight rel' = Suc (in_flight rel)"
  proof -
    have "pid_dist (rl_packet_id rel + 1) ` insert (rl_packet_id rel) (set (active_ids (rl_entries rel)))
        = Suc ` pid_dist (rl_packet_id rel) ` insert (rl_packet_id rel) (set (active_ids (rl_entries rel)))"
      using dists by (auto simp: image_image)
    also have "pid_dist (rl_packet_id rel) ` insert (rl_packet_id rel) (set (active_ids (rl_entries rel)))
        = insert 0 (pid_dist (rl_packet_id rel) ` set (active_ids (rl_entries rel)))" by (simp add: pid_dist_def)
    finally have "in_flight rel' = Max (insert 0 (Suc ` insert 0 (pid_dist (rl_packet_id rel) ` set (active_ids (rl_entries rel)))))"
      using ent ids(1) by (simp add: in_flight_def)
    also have "\<dots> = Max (Suc ` insert 0 (pid_dist (rl_packet_id rel) ` set (active_ids (rl_entries rel))))"
      by (subst Max_insert) auto
    also have "\<dots> = Suc (in_flight rel)"
      unfolding in_flight_def by (subst hom_Max_commute [of Suc]) auto
    finally show ?thesis .
  qed
  have "send_inv rel'"
    unfolding send_inv_def
  proof (intro conjI ballI)
    show "rel_wf rel'" unfolding rel'_def using wf b' b(2) by (intro rel_wf_upd) (auto simp: e'_def)
    have "rl_packet_id rel \<notin> set (active_ids (rl_entries rel))"
      using inv by (auto simp: send_inv_def pid_dist_def)
    then show "distinct (active_ids (rl_entries rel'))" using ent ids(2) inv by (simp add: send_inv_def)
    fix a assume "a \<in> set (active_ids (rl_entries rel'))"
    then have a: "a \<in> insert (rl_packet_id rel) (set (active_ids (rl_entries rel)))" using ent ids(1) by simp
    then have "pid_dist (rl_packet_id rel) a \<le> in_flight rel"
      using send_inv_dist [OF inv] by (auto simp: pid_dist_def)
    then show "1 \<le> pid_dist (rl_packet_id rel') a" "pid_dist (rl_packet_id rel') a \<le> nat (rl_size rel')"
      using dists [OF a] ent free by simp_all
  qed
  moreover have "rl_offset rel' = rl_offset rel" "e_opcode e' = opcode" "e_buf e' = b'" by (simp_all add: rel'_def e'_def)
  ultimately show ?thesis
    using eq ent act flight b'(3,4) by (intro exI [of _ rel'] exI [of _ e'] conjI) simp_all
qed


text \<open>Operations that only let entries go, or only change when they are sent.\<close>

definition entry_le :: "reliable_entry \<Rightarrow> reliable_entry \<Rightarrow> bool" where
  "entry_le e e' \<longleftrightarrow> e_buf e' = e_buf e \<and> e_packet_id e' = e_packet_id e \<and> (e_active e' \<longrightarrow> e_active e)"

definition send_le :: "reliable \<Rightarrow> reliable \<Rightarrow> bool" where
  "send_le rel rel' \<longleftrightarrow> rl_size rel' = rl_size rel \<and> rl_packet_id rel' = rl_packet_id rel
     \<and> rl_offset rel' = rl_offset rel \<and> length (rl_array rel') = length (rl_array rel)
     \<and> list_all2 entry_le (rl_entries rel) (rl_entries rel')"

lemma entry_le_refl [simp]: "entry_le e e"
  by (simp add: entry_le_def)

lemma send_le_refl [simp]: "send_le rel rel"
  by (simp add: send_le_def list_all2_refl)

lemma send_le_trans: "send_le a b \<Longrightarrow> send_le b c \<Longrightarrow> send_le a c"
  unfolding send_le_def
  using list_all2_trans [of entry_le entry_le entry_le "rl_entries a" "rl_entries b" "rl_entries c"]
  by (auto simp: entry_le_def)

lemma entry_le_ids:
  "list_all2 entry_le es es' \<Longrightarrow> set (active_ids es') \<subseteq> set (active_ids es)
     \<and> (distinct (active_ids es) \<longrightarrow> distinct (active_ids es'))"
  by (induction rule: list_all2_induct) (auto simp: entry_le_def)

lemma send_le_inv:
  assumes "send_le rel rel'" "send_inv rel"
  shows "send_inv rel'"
proof -
  have l: "list_all2 entry_le (rl_entries rel) (rl_entries rel')" using assms(1) by (simp add: send_le_def)
  have "\<forall>e'\<in>set (rl_entries rel'). \<exists>e\<in>set (rl_entries rel). e_buf e' = e_buf e"
    using l by (fastforce simp: list_all2_conv_all_nth in_set_conv_nth entry_le_def)
  then have "rel_wf rel'" using assms by (fastforce simp: send_inv_def rel_wf_def send_le_def)
  then show ?thesis using entry_le_ids [OF l] assms by (auto simp: send_inv_def send_le_def)
qed

lemma entries_map [simp]:
  "rl_entries (rel\<lparr>rl_array := map f (rl_entries rel) @ drop (nat (rl_size rel)) (rl_array rel)\<rparr>) = map f (rl_entries rel)"
  by (simp add: rl_entries_def take_map) linarith

lemma send_le_map:
  assumes "\<And>e. entry_le e (f e)"
  shows "send_le rel (rel\<lparr>rl_array := map f (rl_entries rel) @ drop (nat (rl_size rel)) (rl_array rel)\<rparr>)"
  unfolding send_le_def
  using assms by (auto simp: list_all2_conv_all_nth) (auto simp: rl_entries_def min_def)

lemma entry_le_purge: "entry_le e (purge_entry pid e)"
  by (simp add: entry_le_def purge_entry_def)

lemma send_purge_le: "send_le rel (reliable_send_purge rel ack)"
proof -
  have "send_le rel (foldl (\<lambda>rel pid. rel\<lparr>rl_array := map (purge_entry pid) (rl_entries rel) @ drop (nat (rl_size rel)) (rl_array rel)\<rparr>)
      rel pids)" for pids
    by (induction pids arbitrary: rel) (simp, simp, rule send_le_trans [OF send_le_map [OF entry_le_purge]])
  then show ?thesis by (simp add: reliable_send_purge_def)
qed

lemma send_le_upd:
  assumes "i < length (rl_entries rel)" "entry_le (rl_entries rel ! i) e"
  shows "send_le rel (upd_entry rel i e)"
  unfolding send_le_def using assms
  by (auto simp: list_all2_conv_all_nth nth_list_update)

lemma best_loop_index:
  "best_loop now es k best = Some (i, b) \<Longrightarrow>
     best = Some (i, b) \<or> (\<exists>j < length es. i = k + j \<and> e_packet_id (es ! j) = b \<and> e_active (es ! j)
        \<and> (e_n_acks (es ! j) \<ge> N_ACK_RETRANSMIT \<or> now \<ge> e_next_try (es ! j)))"
proof (induction es arbitrary: k best)
  case Nil
  then show ?case by simp
next
  case (Cons e es)
  define nxt where "nxt =
     (if e_active e \<and> (e_n_acks e \<ge> N_ACK_RETRANSMIT \<or> now \<ge> e_next_try e)
      then (case best of None \<Rightarrow> Some (k, e_packet_id e)
            | Some (_, b) \<Rightarrow> if reliable_pid_min (e_packet_id e) b then Some (k, e_packet_id e) else best)
      else best)"
  have "best_loop now es (Suc k) nxt = Some (i, b)" using Cons.prems by (simp add: nxt_def)
  from Cons.IH [OF this] show ?case
  proof
    assume "nxt = Some (i, b)"
    then have "best = Some (i, b) \<or> i = k \<and> e_packet_id e = b \<and> e_active e
        \<and> (e_n_acks e \<ge> N_ACK_RETRANSMIT \<or> now \<ge> e_next_try e)"
      unfolding nxt_def by (auto split: if_splits option.splits prod.splits)
    then show ?thesis by (elim disjE) (auto intro!: exI [of _ 0])
  next
    assume "\<exists>j < length es. i = Suc k + j \<and> e_packet_id (es ! j) = b \<and> e_active (es ! j)
        \<and> (e_n_acks (es ! j) \<ge> N_ACK_RETRANSMIT \<or> now \<ge> e_next_try (es ! j))"
    then obtain j where "j < length es" "i = Suc k + j" "e_packet_id (es ! j) = b" "e_active (es ! j)"
      "e_n_acks (es ! j) \<ge> N_ACK_RETRANSMIT \<or> now \<ge> e_next_try (es ! j)" by blast
    then show ?thesis by (intro disjI2 exI [of _ "Suc j"]) simp
  qed
qed

definition due :: "int \<Rightarrow> reliable_entry \<Rightarrow> bool" where
  "due now e \<longleftrightarrow> e_active e \<and> (e_n_acks e \<ge> N_ACK_RETRANSMIT \<or> now \<ge> e_next_try e)"

lemma best_loop_spec:
  assumes "\<forall>a\<in>set (active_ids es) \<union> set_option (map_option snd best). pid_dist p a \<le> 12"
  shows "case best_loop now es k best of
           None \<Rightarrow> best = None \<and> (\<forall>e\<in>set es. \<not> due now e)
         | Some (i, x) \<Rightarrow> (\<forall>e\<in>set es. due now e \<longrightarrow> pid_dist p (e_packet_id e) \<le> pid_dist p x)
             \<and> (\<forall>b\<in>set_option best. pid_dist p (snd b) \<le> pid_dist p x)"
  using assms
proof (induction es arbitrary: k best)
  case Nil
  then show ?case by (auto split: option.splits)
next
  case (Cons e es)
  define nxt where "nxt =
     (if due now e
      then (case best of None \<Rightarrow> Some (k, e_packet_id e)
            | Some (_, b) \<Rightarrow> if reliable_pid_min (e_packet_id e) b then Some (k, e_packet_id e) else best)
      else best)"
  have step: "best_loop now (e # es) k best = best_loop now es (Suc k) nxt" by (simp add: nxt_def due_def)
  have b12: "\<forall>b\<in>set_option best. pid_dist p (snd b) \<le> 12" using Cons.prems by (auto simp: option.set_map)
  have e12: "due now e \<Longrightarrow> pid_dist p (e_packet_id e) \<le> 12" using Cons.prems by (simp add: due_def)
  have nb: "\<forall>b\<in>set_option best. \<exists>c\<in>set_option nxt. pid_dist p (snd b) \<le> pid_dist p (snd c)"
    and ne: "due now e \<Longrightarrow> \<exists>c\<in>set_option nxt. pid_dist p (e_packet_id e) \<le> pid_dist p (snd c)"
    and n12: "\<forall>c\<in>set_option nxt. pid_dist p (snd c) \<le> 12"
    using b12 e12 pid_min_dist [of p "e_packet_id e"]
    by (cases best; cases "due now e"; cases "reliable_pid_min (e_packet_id e) (snd (the best))";
        force simp: nxt_def split: prod.splits)+
  have "\<forall>a\<in>set (active_ids es) \<union> set_option (map_option snd nxt). pid_dist p a \<le> 12"
    using Cons.prems n12 by (auto simp: option.set_map)
  note ih = Cons.IH [OF this, of "Suc k"]
  show ?case
  proof (cases "best_loop now es (Suc k) nxt")
    case None
    then have "nxt = None" "\<forall>e\<in>set es. \<not> due now e" using ih by simp_all
    then show ?thesis unfolding step None using nb ne by (cases best) auto
  next
    case (Some ix)
    obtain i x where ix: "ix = (i, x)" by (cases ix)
    have "\<forall>c\<in>set_option nxt. pid_dist p (snd c) \<le> pid_dist p x" using ih Some ix by simp
    then have "\<forall>b\<in>set_option best. pid_dist p (snd b) \<le> pid_dist p x"
      and "due now e \<Longrightarrow> pid_dist p (e_packet_id e) \<le> pid_dist p x" using nb ne by (meson le_trans)+
    then show ?thesis unfolding step Some ix using ih Some ix by simp
  qed
qed

lemma due_None:
  assumes "send_inv rel"
  shows "best_loop now (rl_entries rel) 0 None = None \<longleftrightarrow> (\<forall>e\<in>set (rl_entries rel). \<not> due now e)"
proof (cases "best_loop now (rl_entries rel) 0 None")
  case None
  then show ?thesis
    using best_loop_spec [of "rl_entries rel" None "rl_packet_id rel" now 0] assms
    by (fastforce simp: send_inv_def rel_wf_def)
next
  case (Some ix)
  obtain i x where ix: "ix = (i, x)" by (cases ix)
  have "\<exists>e\<in>set (rl_entries rel). due now e"
    using best_loop_index [of now "rl_entries rel" 0 None i x] Some ix by (auto simp: due_def)
  then show ?thesis using Some by auto
qed

lemma can_send_due: "reliable_can_send now rel \<longleftrightarrow> \<not> rl_hold rel \<and> (\<exists>e\<in>set (rl_entries rel). due now e)"
  by (auto simp: reliable_can_send_def due_def filter_empty_conv)

lemma best_loop_oldest:
  assumes "send_inv rel" "best_loop now (rl_entries rel) 0 None = Some (i, x)"
  shows "i < length (rl_entries rel)" "due now (rl_entries rel ! i)"
    and "\<forall>e\<in>set (rl_entries rel). due now e
           \<longrightarrow> pid_dist (rl_packet_id rel) (e_packet_id e) \<le> pid_dist (rl_packet_id rel) (e_packet_id (rl_entries rel ! i))"
proof -
  from best_loop_index [OF assms(2)] have i: "i < length (rl_entries rel)" "e_packet_id (rl_entries rel ! i) = x"
    "due now (rl_entries rel ! i)" by (auto simp: due_def)
  then show "i < length (rl_entries rel)" "due now (rl_entries rel ! i)" by simp_all
  have "\<forall>a\<in>set (active_ids (rl_entries rel)) \<union> set_option (map_option snd None). pid_dist (rl_packet_id rel) a \<le> 12"
    using assms(1) by (fastforce simp: send_inv_def rel_wf_def)
  from best_loop_spec [OF this, of now 0] assms(2) i(2)
  show "\<forall>e\<in>set (rl_entries rel). due now e
      \<longrightarrow> pid_dist (rl_packet_id rel) (e_packet_id e) \<le> pid_dist (rl_packet_id rel) (e_packet_id (rl_entries rel ! i))" by simp
qed

lemma reliable_send_le:
  assumes "reliable_send now rel = Inr (r, rel')"
  shows "send_le rel rel'"
proof (cases "best_loop now (rl_entries rel) 0 None")
  case None
  then show ?thesis using assms by (simp add: reliable_send_def)
next
  case (Some ib)
  obtain i b where ib: "ib = (i, b)" by (cases ib)
  have i: "i < length (rl_entries rel)" using best_loop_index [of now "rl_entries rel" 0 None i b] Some ib by auto
  obtain e where "rel' = upd_entry rel i e" "entry_le (rl_array rel ! i) e"
    using assms Some ib by (auto simp: reliable_send_def Let_def entry_le_def elim!: bindE_InrE)
  then show ?thesis using send_le_upd [OF i] entries_nth [OF i] by simp
qed

lemma schedule_now_le: "send_le rel (reliable_schedule_now now rel)"
proof -
  let ?f = "\<lambda>e. if e_active e then e\<lparr>e_next_try := now, e_timeout := rl_initial_timeout rel\<rparr> else e"
  have "entry_le e (?f e)" for e by (simp add: entry_le_def)
  from send_le_map [of ?f rel, OF this] show ?thesis
    by (simp add: reliable_schedule_now_def send_le_def rl_entries_def)
qed

end
