(* ===== verification/Frame.thy ===== *)
theory Frame
  imports PacketId
begin

text \<open>
  Packet geometry (\<open>mtu.h\<close>, \<open>mtu.c\<close>, and the size computations of
  \<open>mss.c\<close> and \<open>crypto.c\<close>).  Of the options and of the key type only the fields
  that are used are kept; what the crypto library says about the configured
  cipher and digest are fields of the key type.  Values of type \<open>size_t\<close> are
  integers with the wrap-around of a subtraction written out.
\<close>

section \<open>Data\<close>

record frame =
  fr_payload_size :: int
  fr_headroom :: int
  fr_tailroom :: int
  fr_mss_fix :: u16
  fr_max_fragment_size :: int
  fr_tun_mtu :: int
  fr_tun_max_mtu :: int
  fr_extra_tun :: int

datatype proto = PROTO_UDP | PROTO_TCP_SERVER | PROTO_TCP_CLIENT
datatype comp_alg = COMP_ALG_UNDEF | COMP_ALG_STUB | COMP_ALG_LZO | COMP_ALG_SNAPPY | COMP_ALG_LZ4 | COMP_ALGV2

record mtu_options =
  o_tls_server :: bool
  o_tls_client :: bool
  o_shared_secret_file :: bool
  o_use_peer_id :: bool
  o_comp_alg :: comp_alg
  ce_socks_proxy_server :: bool
  ce_proto :: proto
  ce_inet :: bool
  ce_tun_mtu :: int
  ce_fragment :: int
  ce_fragment_encap :: bool
  ce_mssfix :: int
  ce_mssfix_encap :: bool
  ce_mssfix_fixed :: bool

record key_type =
  kt_defined :: bool
  kt_cbc :: bool
  kt_aead :: bool
  kt_ofb_cfb :: bool
  kt_block_size :: int
  kt_iv_size :: int
  kt_tag_size :: int
  kt_md_defined :: bool
  kt_md_size :: int

abbreviation (input) SOCKS_UDPv4_HEADROOM :: int where "SOCKS_UDPv4_HEADROOM \<equiv> 10"

definition BUF_SIZE :: "frame \<Rightarrow> int" where
  "BUF_SIZE f = fr_headroom f + fr_payload_size f + fr_tailroom f"

definition size_t :: "int \<Rightarrow> int" where
  "size_t x = x mod 2 ^ 64"


section \<open>Operations\<close>

definition alloc_buf_sock_tun :: "frame \<Rightarrow> buffer cres" where
  "alloc_buf_sock_tun frame =
     bindE (if BUF_SIZE frame < 0 then Inl Fatal else alloc_buf (nat (BUF_SIZE frame))) (\<lambda>b.
     case buf_init_dowork b (fr_headroom frame) of
       (ok, b1) \<Rightarrow>
         bindE (c_assert ok) (\<lambda>_.
         let b2 = b1\<lparr>b_len := fr_payload_size frame\<rparr>
         in bindE (c_assert (buf_safe b2 0)) (\<lambda>_. Inr b2)))"

definition calc_packet_id_size_dc :: "mtu_options \<Rightarrow> key_type \<Rightarrow> int" where
  "calc_packet_id_size_dc options kt =
     (let tlsmode = (o_tls_server options \<or> o_tls_client options);
          packet_id_long_form = (\<not> tlsmode \<or> kt_ofb_cfb kt)
      in packet_id_size packet_id_long_form)"

definition calculate_crypto_overhead :: "key_type \<Rightarrow> int \<Rightarrow> bool \<Rightarrow> int" where
  "calculate_crypto_overhead kt pkt_id_size occ =
     (if \<not> kt_cbc kt then pkt_id_size else 0)
     + (if kt_aead kt
        then kt_tag_size kt + (if occ then kt_iv_size kt + kt_block_size kt else 0)
        else (if kt_defined kt then (if occ then kt_block_size kt else 0) + kt_iv_size kt else 0)
             + (if kt_md_defined kt then kt_md_size kt else 0))"

definition crypto_max_overhead :: int where
  "crypto_max_overhead = packet_id_size True + 16 + 32 + max_int 64 16"

definition proto_is_udp :: "proto \<Rightarrow> bool" where
  "proto_is_udp p \<longleftrightarrow> p = PROTO_UDP"

definition proto_is_tcp :: "proto \<Rightarrow> bool" where
  "proto_is_tcp p \<longleftrightarrow> p = PROTO_TCP_CLIENT \<or> p = PROTO_TCP_SERVER"

definition frame_calculate_protocol_header_size :: "key_type \<Rightarrow> mtu_options \<Rightarrow> bool \<Rightarrow> int" where
  "frame_calculate_protocol_header_size kt options occ =
     (let tlsmode = (o_tls_server options \<or> o_tls_client options)
      in (if ce_socks_proxy_server options \<and> proto_is_udp (ce_proto options) then SOCKS_UDPv4_HEADROOM else 0)
         + (if proto_is_tcp (ce_proto options) then 2 else 0)
         + (if tlsmode then (if o_use_peer_id options then 4 else 1) else 0)
         + calculate_crypto_overhead kt (calc_packet_id_size_dc options kt) occ)"

definition frame_calculate_payload_overhead :: "int \<Rightarrow> mtu_options \<Rightarrow> key_type \<Rightarrow> int" where
  "frame_calculate_payload_overhead extra_tun options kt =
     extra_tun
     + (if o_comp_alg options = COMP_ALG_LZ4 \<or> o_comp_alg options = COMP_ALG_STUB \<or> o_comp_alg options = COMP_ALG_LZO
        then 1 else 0)
     + (if ce_fragment options \<noteq> 0 then 4 else 0)
     + (if kt_cbc kt then calc_packet_id_size_dc options kt else 0)"

definition frame_calculate_payload_size :: "frame \<Rightarrow> mtu_options \<Rightarrow> key_type \<Rightarrow> int" where
  "frame_calculate_payload_size frame options kt =
     ce_tun_mtu options + frame_calculate_payload_overhead (fr_extra_tun frame) options kt"

text \<open>
  \<open>bf_cbc\<close> says that the cipher is \<open>BF-CBC\<close>; \<open>init_key_type\<close> gives the key type for the
  configured names, or without a cipher, or without both.
\<close>

definition calc_options_string_link_mtu ::
    "mtu_options \<Rightarrow> frame \<Rightarrow> bool \<Rightarrow> key_type \<Rightarrow> key_type \<Rightarrow> key_type \<Rightarrow> int" where
  "calc_options_string_link_mtu o1 frame bf_cbc kt_full kt_no_cipher kt_none =
     (if \<not> o_tls_client o1 \<and> \<not> o_tls_server o1 \<and> \<not> o_shared_secret_file o1
      then frame_calculate_payload_size frame o1 kt_none
      else let overhead0 = (if bf_cbc then 64 div 8 + 64 div 8 else 0);
               occ_kt = (if bf_cbc then kt_no_cipher else kt_full);
               payload = frame_calculate_payload_size frame o1 occ_kt;
               overhead = overhead0 + frame_calculate_protocol_header_size occ_kt o1 True
           in payload + overhead)"

text \<open>\<open>inet\<close> says that the address is an IPv4 address.\<close>

definition datagram_overhead :: "bool \<Rightarrow> proto \<Rightarrow> int" where
  "datagram_overhead inet p = (if p = PROTO_UDP then 8 else 20) + (if inet then 20 else 40)"

definition adjust_payload_max_cbc :: "key_type \<Rightarrow> int \<Rightarrow> int cres" where
  "adjust_payload_max_cbc kt target =
     (if \<not> kt_cbc kt then Inr target
      else bindE (round_down_size (nat target) (nat (kt_block_size kt))) (\<lambda>t. Inr (size_t (int t - 1))))"

text \<open>\<open>lsi\<close> is the address family and protocol of an established link.\<close>

definition get_ip_encap_overhead :: "mtu_options \<Rightarrow> (bool \<times> proto) option \<Rightarrow> int" where
  "get_ip_encap_overhead options lsi =
     (case lsi of
        Some (inet, p) \<Rightarrow> datagram_overhead inet p
      | None \<Rightarrow> datagram_overhead (ce_inet options) (ce_proto options))"

definition frame_calculate_fragment :: "frame \<Rightarrow> key_type \<Rightarrow> mtu_options \<Rightarrow> (bool \<times> proto) option \<Rightarrow> frame cres" where
  "frame_calculate_fragment frame kt options lsi =
     (let overhead = frame_calculate_protocol_header_size kt options False
                     + (if ce_fragment_encap options then get_ip_encap_overhead options lsi else 0);
          target = size_t (ce_fragment options - overhead)
      in bindE (adjust_payload_max_cbc kt target) (\<lambda>t.
         bindE (clamp_size_to_int (nat t)) (\<lambda>n.
         let m = n - 4
         in Inr (frame\<lparr>fr_max_fragment_size :=
                   (if kt_cbc kt then m - calc_packet_id_size_dc options kt else m)\<rparr>))))"

definition frame_calculate_mssfix :: "frame \<Rightarrow> key_type \<Rightarrow> mtu_options \<Rightarrow> (bool \<times> proto) option \<Rightarrow> frame cres" where
  "frame_calculate_mssfix frame kt options lsi =
     (if ce_mssfix_fixed options
      then Inr (frame\<lparr>fr_mss_fix := word_of_int (ce_mssfix options - (20 + 20))\<rparr>)
      else let overhead = frame_calculate_protocol_header_size kt options False
                          + (if ce_mssfix_encap options then get_ip_encap_overhead options lsi else 0);
               payload_overhead = frame_calculate_payload_overhead (fr_extra_tun frame) options kt + (20 + 20);
               target = size_t (ce_mssfix options - overhead)
           in bindE (adjust_payload_max_cbc kt target) (\<lambda>t.
              Inr (frame\<lparr>fr_mss_fix := word_of_int (t - payload_overhead)\<rparr>)))"

definition frame_calculate_dynamic :: "frame \<Rightarrow> key_type \<Rightarrow> mtu_options \<Rightarrow> (bool \<times> proto) option \<Rightarrow> frame cres" where
  "frame_calculate_dynamic frame kt options lsi =
     bindE (if ce_fragment options > 0 then frame_calculate_fragment frame kt options lsi else Inr frame) (\<lambda>f1.
     if ce_mssfix options > 0 then frame_calculate_mssfix f1 kt options lsi else Inr f1)"

text \<open>The state of a tunnel this changes: the options and its two frames.\<close>

definition frame_adjust_path_mtu ::
    "int \<Rightarrow> bool \<times> proto \<Rightarrow> key_type \<Rightarrow> mtu_options \<Rightarrow> frame \<Rightarrow> frame \<Rightarrow> (mtu_options \<times> frame \<times> frame) cres" where
  "frame_adjust_path_mtu pmtu lsi kt o1 frame frame_fragment =
     (let encap_overhead = datagram_overhead (fst lsi) (snd lsi)
      in bindE (if pmtu < ce_mssfix o1 \<or> ce_mssfix_encap o1 \<and> pmtu < ce_mssfix o1 + encap_overhead
                then let o2 = o1\<lparr>ce_mssfix := pmtu, ce_mssfix_encap := True\<rparr>
                     in bindE (frame_calculate_dynamic frame kt o2 (Some lsi)) (\<lambda>f. Inr (o2, f))
                else Inr (o1, frame)) (\<lambda>(o2, frame').
         if pmtu < ce_fragment o2 \<or> ce_fragment_encap o2 \<and> pmtu < ce_fragment o2 + encap_overhead
         then let o3 = o2\<lparr>ce_fragment := pmtu, ce_fragment_encap := True\<rparr>
              in bindE (frame_calculate_dynamic frame_fragment kt o3 (Some lsi)) (\<lambda>f. Inr (o3, frame', f))
         else Inr (o2, frame', frame_fragment)))"

end
