(* ===== verification/ControlSend.thy ===== *)
theory ControlSend
  imports ReliableSend Frame
begin

text \<open>
  Control channel output (\<open>ssl.c\<close>): ciphertext that the TLS library has
  produced is cut into packets and put into the send side of the reliability
  layer.
\<close>

section \<open>Sizes of control channel packets\<close>

datatype tls_wrap_mode = TLS_WRAP_NONE | TLS_WRAP_AUTH | TLS_WRAP_CRYPT

abbreviation (input) OPENVPN_MAX_HMAC_SIZE :: int where "OPENVPN_MAX_HMAC_SIZE \<equiv> 64"
abbreviation (input) TLS_CHANNEL_BUF_SIZE :: int where "TLS_CHANNEL_BUF_SIZE \<equiv> 2048"
abbreviation (input) TLS_CHANNEL_MTU_MIN :: int where "TLS_CHANNEL_MTU_MIN \<equiv> 154"
abbreviation (input) CONTROL_SEND_ACK_MAX :: int where "CONTROL_SEND_ACK_MAX \<equiv> 4"
abbreviation (input) P_CONTROL_V1 :: int where "P_CONTROL_V1 \<equiv> 4"
abbreviation (input) P_CONTROL_WKC_V1 :: int where "P_CONTROL_WKC_V1 \<equiv> 11"

text \<open>Tags of 256 bits and blocks of 128 bits.\<close>

definition tls_crypt_buf_overhead :: int where
  "tls_crypt_buf_overhead = packet_id_size True + 32 + 16"

definition tls_init_control_channel_frame_parameters :: "frame \<Rightarrow> int \<Rightarrow> frame" where
  "tls_init_control_channel_frame_parameters frame tls_mtu =
     (let overhead = 10 + max_int tls_crypt_buf_overhead (packet_id_size True + OPENVPN_MAX_HMAC_SIZE)
                     + 3 + ACK_SIZE (nat RELIABLE_ACK_SIZE)
      in frame\<lparr>fr_payload_size := max_int 1500 tls_mtu + 100, fr_headroom := overhead, fr_tailroom := overhead,
               fr_tun_mtu := max_int (min_int tls_mtu TLS_CHANNEL_BUF_SIZE) TLS_CHANNEL_MTU_MIN\<rparr>)"

text \<open>The size of the HMAC of \<open>--tls-auth\<close> comes from the crypto library.\<close>

definition calc_control_channel_frame_overhead ::
    "reliable_ack \<Rightarrow> reliable_ack \<Rightarrow> tls_wrap_mode \<Rightarrow> int \<Rightarrow> bool \<Rightarrow> int" where
  "calc_control_channel_frame_overhead rec_ack lru_acks mode hmac_size inet =
     1 + SID_SIZE
     + ACK_SIZE (nat (min_int (reliable_ack_outstanding rec_ack + ra_len lru_acks) CONTROL_SEND_ACK_MAX))
     + 4
     + (case mode of
          TLS_WRAP_CRYPT \<Rightarrow> tls_crypt_buf_overhead
        | TLS_WRAP_AUTH \<Rightarrow> hmac_size + packet_id_size True
        | TLS_WRAP_NONE \<Rightarrow> 0)
     + datagram_overhead inet PROTO_UDP"


section \<open>Cutting ciphertext into packets\<close>

text \<open>\<open>resend_wkc\<close> is the flag \<open>CO_RESEND_WKC\<close> of the key state.\<close>

definition control_packet_needs_wkc :: "bool \<Rightarrow> reliable \<Rightarrow> bool" where
  "control_packet_needs_wkc resend_wkc send_reliable \<longleftrightarrow> resend_wkc \<and> rl_packet_id send_reliable = 1"

text \<open>One packet of \<open>len\<close> bytes; the result of \<open>buf_copy_n\<close> is not looked at.\<close>

definition send_one :: "reliable \<Rightarrow> buffer \<Rightarrow> int \<Rightarrow> int \<Rightarrow> (reliable \<times> buffer) cres" where
  "send_one rel tmp n opcode =
     bindE (reliable_get_buf_output_sequenced rel) (\<lambda>(r, rel1).
     case r of
       None \<Rightarrow> Inl Assert_fail
     | Some i \<Rightarrow>
         bindE (buf_copy_n (e_buf (rl_array rel1 ! i)) tmp n) (\<lambda>(_, b, tmp').
         bindE (reliable_mark_active_outgoing (upd_entry rel1 i ((rl_array rel1 ! i)\<lparr>e_buf := b\<rparr>)) i opcode) (\<lambda>rel2.
         Inr (rel2, tmp'))))"

text \<open>Every packet uses up a free entry, or the assertion ends the loop.\<close>

definition free_entries :: "reliable \<Rightarrow> nat" where
  "free_entries rel = length (filter (\<lambda>e. \<not> e_active e) (rl_entries rel))"

lemma get_buf_Some:
  assumes "reliable_get_buf rel = Inr (Some i, rel1)"
  shows "i < length (rl_entries rel) \<and> \<not> e_active (rl_entries rel ! i)
           \<and> (\<exists>b. rel1 = upd_entry rel i ((rl_array rel ! i)\<lparr>e_buf := b\<rparr>))"
  using assms first_index_Some [of "\<lambda>e. \<not> e_active e" "rl_entries rel" 0 i]
  by (auto simp: reliable_get_buf_def Let_def split: option.splits prod.splits elim!: bindE_InrE)

lemma filter_update_less:
  assumes "i < length xs" "P (xs ! i)" "\<not> P y"
  shows "length (filter P (xs[i := y])) < length (filter P xs)"
proof -
  have xs: "xs = take i xs @ xs ! i # drop (Suc i) xs" using assms(1) by (rule id_take_nth_drop)
  have "length (filter P xs) = length (filter P (take i xs)) + 1 + length (filter P (drop (Suc i) xs))"
    by (subst xs) (simp add: assms(2))
  then show ?thesis using assms by (simp add: upd_conv_take_nth_drop)
qed

lemma send_one_less:
  assumes "send_one rel tmp n opcode = Inr (rel', tmp')"
  shows "free_entries rel' < free_entries rel"
proof -
  from assms obtain r rel1 where g: "reliable_get_buf_output_sequenced rel = Inr (r, rel1)"
    by (auto simp: send_one_def elim!: bindE_InrE)
  from assms g obtain i where r: "r = Some i" by (cases r) (auto simp: send_one_def)
  from g r have "reliable_get_buf rel = Inr (Some i, rel1)"
    by (simp add: reliable_get_buf_output_sequenced_def Let_def split: if_splits)
  from get_buf_Some [OF this] obtain b where
    i: "i < length (rl_entries rel)" "\<not> e_active (rl_entries rel ! i)" "rel1 = upd_entry rel i ((rl_array rel ! i)\<lparr>e_buf := b\<rparr>)"
    by blast
  from assms g r obtain b2 where
    m: "reliable_mark_active_outgoing (upd_entry rel1 i ((rl_array rel1 ! i)\<lparr>e_buf := b2\<rparr>)) i opcode = Inr rel'"
    by (auto simp: send_one_def elim!: bindE_InrE)
  then obtain e where "rl_entries rel' = (rl_entries rel)[i := e]" "e_active e"
    using i by (auto simp: reliable_mark_active_outgoing_def Let_def split: if_splits elim!: bindE_InrE)
  then show ?thesis using filter_update_less [of i "rl_entries rel" "\<lambda>e. \<not> e_active e" e] i by (simp add: free_entries_def)
qed

function write_outgoing_loop ::
    "bool \<Rightarrow> int \<Rightarrow> int \<Rightarrow> reliable \<Rightarrow> buffer \<Rightarrow> bool \<Rightarrow> (bool \<times> reliable) cres" where
  "write_outgoing_loop resend_wkc wkc_len max_pkt_len rel tmp cont =
     (if b_len tmp > 0
      then let wkc = control_packet_needs_wkc resend_wkc rel;
               opcode = (if wkc then P_CONTROL_WKC_V1 else P_CONTROL_V1);
               len0 = (if wkc then max_int 0 (max_pkt_len - wkc_len) else max_pkt_len);
               len1 = min_int len0 (b_len tmp)
           in bindE (send_one rel tmp len1 opcode) (\<lambda>(rel', tmp').
              write_outgoing_loop resend_wkc wkc_len max_pkt_len rel' tmp' True)
      else Inr (cont, rel))"
  by pat_completeness auto

termination
  by (relation "measure (\<lambda>(_, _, _, rel, _, _). free_entries rel)") (auto dest: send_one_less)

declare write_outgoing_loop.simps [simp del]

text \<open>
  \<open>read_ciphertext\<close> stands for \<open>key_state_read_ciphertext\<close> of the TLS library: a
  status and the buffer it filled.  \<open>overhead\<close> and \<open>wkc_len\<close> are the values of
  \<open>calc_control_channel_frame_overhead\<close> and of the length of the wrapped client key.
  The result is the return value, \<open>*continue_tls_process\<close> and the send side.
\<close>

definition write_outgoing_tls_ciphertext ::
    "(nat \<Rightarrow> u8 list) \<Rightarrow> (buffer \<Rightarrow> int \<times> buffer) \<Rightarrow> bool \<Rightarrow> int \<Rightarrow> int \<Rightarrow> int \<Rightarrow> reliable \<Rightarrow> bool
     \<Rightarrow> (bool \<times> bool \<times> reliable) cres" where
  "write_outgoing_tls_ciphertext junk read_ciphertext resend_wkc wkc_len tun_mtu overhead rel cont =
     (let rel_avail = reliable_get_num_output_sequenced_available rel
      in if rel_avail = 0 then Inr (True, cont, rel)
         else let max_pkt_len = min_int TLS_CHANNEL_BUF_SIZE tun_mtu - overhead
              in bindE (i32 (max_pkt_len * rel_avail)) (\<lambda>maxlen0.
                 let maxlen1 = (if control_packet_needs_wkc resend_wkc rel then maxlen0 - wkc_len else maxlen0);
                     maxlen = (if maxlen1 < 16 then 16 else maxlen1);
                     max_pkt_len' = (if maxlen1 < 16 then TLS_CHANNEL_BUF_SIZE else max_pkt_len)
                 in bindE (alloc_buf_gc junk (nat maxlen)) (\<lambda>tmp.
                    case read_ciphertext tmp of
                      (status, tmp') \<Rightarrow>
                        if status = -1 then Inr (False, cont, rel)
                        else if status = 1
                        then bindE (write_outgoing_loop resend_wkc wkc_len max_pkt_len' rel tmp' cont)
                               (\<lambda>(cont', rel'). Inr (True, cont', rel'))
                        else Inr (True, cont, rel))))"


section \<open>One packet\<close>

text \<open>The bytes \<open>xs\<close> wait under the id \<open>a\<close> for their acknowledgement.\<close>

definition waiting :: "reliable \<Rightarrow> u32 \<Rightarrow> u8 list \<Rightarrow> bool" where
  "waiting rel a xs \<longleftrightarrow>
     (\<exists>e\<in>set (rl_entries rel). e_active e \<and> e_packet_id e = a \<and> content (e_buf e) = be32 a @ xs)"

definition bufs_of :: "int \<Rightarrow> int \<Rightarrow> reliable \<Rightarrow> bool" where
  "bufs_of cap off rel \<longleftrightarrow> rl_offset rel = off \<and> (\<forall>e\<in>set (rl_entries rel). b_capacity (e_buf e) = cap)"

lemma waiting_upd:
  assumes "waiting rel a xs" "i < length (rl_entries rel)" "\<not> e_active (rl_entries rel ! i)"
    and "rl_entries rel' = (rl_entries rel)[i := e]"
  shows "waiting rel' a xs"
proof -
  from assms(1) obtain k where k: "k < length (rl_entries rel)" "e_active (rl_entries rel ! k)"
    "e_packet_id (rl_entries rel ! k) = a" "content (e_buf (rl_entries rel ! k)) = be32 a @ xs"
    by (auto simp: waiting_def in_set_conv_nth)
  then have "(rl_entries rel)[i := e] ! k = rl_entries rel ! k" using assms(3) by (metis nth_list_update_neq)
  then show ?thesis using k assms(4) unfolding waiting_def by (metis length_list_update nth_mem)
qed

lemma send_one_ok:
  assumes inv: "send_inv rel" "bufs_of cap off rel" "4 \<le> off" and free: "in_flight rel < nat (rl_size rel)"
    and tmp: "buf_wf tmp" "n \<le> length (content tmp)" "n \<le> nat (cap - off)"
  shows "\<exists>rel' tmp'. send_one rel tmp (int n) opcode = Inr (rel', tmp')
           \<and> send_inv rel' \<and> bufs_of cap off rel' \<and> in_flight rel' = Suc (in_flight rel)
           \<and> rl_packet_id rel' = rl_packet_id rel + 1 \<and> rl_size rel' = rl_size rel
           \<and> waiting rel' (rl_packet_id rel) (take n (content tmp))
           \<and> (\<forall>a xs. waiting rel a xs \<longrightarrow> waiting rel' a xs)
           \<and> buf_wf tmp' \<and> content tmp' = drop n (content tmp)"
proof -
  have wf: "rel_wf rel" using inv(1) by (simp add: send_inv_def)
  from get_buf_ok [OF wf free_slot [OF inv(1) free]] obtain i b where
    i: "i < length (rl_entries rel)" "\<not> e_active (rl_entries rel ! i)"
    "reliable_get_buf rel = Inr (Some i, upd_entry rel i ((rl_entries rel ! i)\<lparr>e_buf := b\<rparr>))"
    and b: "buf_wf b" "content b = []" "headroom b = nat (rl_offset rel)"
    "b_capacity b = b_capacity (e_buf (rl_entries rel ! i))" "tailroom b = nat (b_capacity b - rl_offset rel)" by blast
  have cap: "b_capacity b = cap" "rl_offset rel = off" using inv(2) i(1) b(4) by (auto simp: bufs_of_def)
  have "n \<le> tailroom b" using b(5) cap tmp(3) by simp
  from buf_copy_n_ok [OF b(1) tmp(1,2) this] obtain b2 tmp' where
    c: "buf_copy_n b tmp (int n) = Inr (True, b2, tmp')" "buf_wf b2" "content b2 = take n (content tmp)"
    "headroom b2 = nat off" "b_capacity b2 = cap" "buf_wf tmp'" "content tmp' = drop n (content tmp)"
    using b cap by auto
  have la: "i < length (rl_array rel)" using i(1) by (simp add: rl_entries_def)
  have off: "off \<le> cap" using wf i(1) cap b(4) by (auto simp: rel_wf_def)
  let ?e = "(rl_entries rel ! i)\<lparr>e_buf := b2\<rparr>"
  have e: "\<not> e_active ?e" "buf_wf (e_buf ?e)" "rl_offset rel \<le> b_capacity (e_buf ?e)" "4 \<le> headroom (e_buf ?e)"
    using i(2) c inv(3) off cap by simp_all
  from mark_active_outgoing_ok [OF inv(1) free i(1,2) e(1) e(2-4), of opcode] obtain rel' e' where
    m: "reliable_mark_active_outgoing (upd_entry rel i ?e) i opcode = Inr rel'"
    "rl_entries rel' = (rl_entries rel)[i := e']" "rl_packet_id rel' = rl_packet_id rel + 1"
    "rl_size rel' = rl_size rel" "rl_offset rel' = rl_offset rel" "e_active e'" "e_packet_id e' = rl_packet_id rel"
    "content (e_buf e') = be32 (rl_packet_id rel) @ content (e_buf ?e)"
    "b_capacity (e_buf e') = b_capacity (e_buf ?e)" "send_inv rel'" "in_flight rel' = Suc (in_flight rel)" by blast
  have "send_one rel tmp (int n) opcode = Inr (rel', tmp')"
    using get_buf_output_sequenced_eq [OF inv(1)] free i(3) c(1) m(1) la by (simp add: send_one_def)
  moreover have "bufs_of cap off rel'"
    using inv(2) m(2,5,9) c(5) set_update_subset_insert [of "rl_entries rel" i e'] by (auto simp: bufs_of_def)
  moreover have "waiting rel' (rl_packet_id rel) (take n (content tmp))"
    using m(2,6-8) c(3) set_update_memI [OF i(1), of e'] by (auto simp: waiting_def)
  moreover have "\<forall>a xs. waiting rel a xs \<longrightarrow> waiting rel' a xs" using waiting_upd [OF _ i(1,2) m(2)] by blast
  ultimately show ?thesis using m c(6,7) by (intro exI conjI) assumption+
qed


section \<open>All packets of a piece of ciphertext\<close>

lemma write_outgoing_loop_ok:
  assumes "send_inv rel" "bufs_of cap off rel" "4 \<le> off" "buf_wf tmp"
    and "0 < mpl" "0 \<le> wkc_len" "min mpl (int (length (content tmp))) \<le> cap - off"
    and "0 < unat (rl_packet_id rel)" "unat (rl_packet_id rel) + nat (rl_size rel) < 2 ^ 32 + in_flight rel"
    and "content tmp = [] \<or> in_flight rel < nat (rl_size rel)
           \<and> int (length (content tmp)) \<le> (if control_packet_needs_wkc w rel then max 0 (mpl - wkc_len) else mpl)
               + mpl * (rl_size rel - int (in_flight rel) - 1)"
  shows "\<exists>cont' rel' cs. write_outgoing_loop w wkc_len mpl rel tmp cont = Inr (cont', rel')
           \<and> send_inv rel' \<and> bufs_of cap off rel' \<and> concat cs = content tmp
           \<and> rl_packet_id rel' = rl_packet_id rel + word_of_nat (length cs)
           \<and> (\<forall>k < length cs. waiting rel' (rl_packet_id rel + word_of_nat k) (cs ! k))
           \<and> (\<forall>a xs. waiting rel a xs \<longrightarrow> waiting rel' a xs)"
  using assms
proof (induction "free_entries rel" arbitrary: rel tmp cont rule: less_induct)
  case less
  note inv = less.prems(1-3) and tmp = less.prems(4)
  show ?case
  proof (cases "content tmp = []")
    case True
    then have "b_len tmp = 0" using buf_wf_lenI [OF tmp] by simp
    then show ?thesis using True inv
      by (intro exI [of _ cont] exI [of _ rel] exI [of _ "[]"]) (simp add: write_outgoing_loop.simps)
  next
    case False
    define L where "L = int (length (content tmp))"
    have L: "b_len tmp = L" "0 < L" using False buf_wf_lenI [OF tmp] by (simp_all add: L_def)
    define len0 where "len0 = (if control_packet_needs_wkc w rel then max 0 (mpl - wkc_len) else mpl)"
    define opc where "opc = (if control_packet_needs_wkc w rel then P_CONTROL_WKC_V1 else P_CONTROL_V1)"
    define n where "n = nat (min len0 L)"
    have free: "in_flight rel < nat (rl_size rel)" and tot: "L \<le> len0 + mpl * (rl_size rel - int (in_flight rel) - 1)"
      using less.prems(10) False by (simp_all add: L_def len0_def)
    have len0: "0 \<le> len0" "len0 \<le> mpl" using less.prems(5,6) by (auto simp: len0_def)
    have n: "int n = min len0 L" "n \<le> length (content tmp)" "n \<le> nat (cap - off)"
      using len0 L(2) less.prems(7) by (auto simp: n_def L_def)
    from send_one_ok [OF inv free tmp n(2,3), of opc] obtain rel1 tmp1 where
      s: "send_one rel tmp (int n) opc = Inr (rel1, tmp1)" "send_inv rel1" "bufs_of cap off rel1"
      "in_flight rel1 = Suc (in_flight rel)" "rl_packet_id rel1 = rl_packet_id rel + 1" "rl_size rel1 = rl_size rel"
      "waiting rel1 (rl_packet_id rel) (take n (content tmp))" "\<forall>a xs. waiting rel a xs \<longrightarrow> waiting rel1 a xs"
      "buf_wf tmp1" "content tmp1 = drop n (content tmp)" by blast
    have step: "write_outgoing_loop w wkc_len mpl rel tmp cont = write_outgoing_loop w wkc_len mpl rel1 tmp1 True"
      using L s(1) n(1) by (subst write_outgoing_loop.simps, cases "control_packet_needs_wkc w rel") (simp_all add: Let_def len0_def opc_def)
    have up: "unat (rl_packet_id rel) + 1 < 2 ^ 32" using less.prems(9) free by linarith
    have pid1: "unat (rl_packet_id rel1) = unat (rl_packet_id rel) + 1"
      unfolding s(5) using up by (simp add: unat_word_ariths)
    have nowkc: "\<not> control_packet_needs_wkc w rel1"
      using pid1 less.prems(8) by (auto simp: control_packet_needs_wkc_def)
    have L1: "int (length (content tmp1)) = L - min len0 L" using s(10) n by (simp add: L_def)
    have fuel: "content tmp1 = [] \<or> in_flight rel1 < nat (rl_size rel1)
           \<and> int (length (content tmp1)) \<le> (if control_packet_needs_wkc w rel1 then max 0 (mpl - wkc_len) else mpl)
               + mpl * (rl_size rel1 - int (in_flight rel1) - 1)"
    proof (cases "content tmp1 = []")
      case False
      then have "0 < int (length (content tmp1))" by simp
      then have l: "int (length (content tmp1)) = L - len0" "0 < L - len0" using L1 by (simp_all add: min_def split: if_splits)
      then have "0 < mpl * (rl_size rel - int (in_flight rel) - 1)" using tot by linarith
      then have more: "0 < rl_size rel - int (in_flight rel) - 1" using less.prems(5) by (simp add: zero_less_mult_iff)
      then have "Suc (in_flight rel) < nat (rl_size rel)" by linarith
      moreover have "L - len0 \<le> mpl + mpl * (rl_size rel - int (in_flight rel) - 2)" using tot by (simp add: algebra_simps)
      ultimately show ?thesis using l(1) s(4,6) nowkc by simp
    qed simp
    have room: "min mpl (int (length (content tmp1))) \<le> cap - off" using L1 len0 L less.prems(7) L_def by linarith
    have ids: "0 < unat (rl_packet_id rel1)" "unat (rl_packet_id rel1) + nat (rl_size rel1) < 2 ^ 32 + in_flight rel1"
      using pid1 less.prems(9) s(4,6) by simp_all
    from less.hyps [OF send_one_less [OF s(1)] s(2,3) inv(3) s(9) less.prems(5,6) room ids fuel, of True]
    obtain cont' rel' cs where
      r: "write_outgoing_loop w wkc_len mpl rel1 tmp1 True = Inr (cont', rel')"
      "send_inv rel'" "bufs_of cap off rel'" "concat cs = content tmp1" "rl_packet_id rel' = rl_packet_id rel1 + word_of_nat (length cs)"
      "\<forall>k < length cs. waiting rel' (rl_packet_id rel1 + word_of_nat k) (cs ! k)"
      "\<forall>a xs. waiting rel1 a xs \<longrightarrow> waiting rel' a xs" by (elim exE conjE) (rule that)
    let ?cs = "take n (content tmp) # cs"
    have "waiting rel' (rl_packet_id rel + word_of_nat k) (?cs ! k)" if "k < length ?cs" for k
      using that r(6,7) s(5,7) by (cases k) (auto simp: algebra_simps)
    moreover have "concat ?cs = content tmp" using r(4) s(10) by simp
    moreover have "rl_packet_id rel' = rl_packet_id rel + word_of_nat (length ?cs)" using r(5) s(5) by simp
    ultimately show ?thesis
      unfolding step using r(1-3,7) s(8) by (intro exI [of _ cont'] exI [of _ rel'] exI [of _ ?cs]) blast
  qed
qed


section \<open>Reachable states of the send side\<close>

text \<open>
  All that \<open>ssl.c\<close> does with \<open>ks->send_reliable\<close>: it is set up with
  \<open>TLS_RELIABLE_N_SEND_BUFFERS\<close> entries for the frame of the control channel; packets are
  added (the first one, without payload, may be dropped at once), sent,
  acknowledged and rescheduled, in any order.
\<close>

inductive send_reach :: "frame \<Rightarrow> reliable \<Rightarrow> bool" for frame :: frame where
  send_init: "reliable_init (BUF_SIZE frame) (fr_headroom frame) 6 hold = Inr rel \<Longrightarrow> send_reach frame rel"
| send_timeout: "send_reach frame rel \<Longrightarrow> send_reach frame (reliable_set_timeout rel t)"
| send_packet: "send_reach frame rel \<Longrightarrow> buf_wf tmp \<Longrightarrow> send_one rel tmp (int n) opcode = Inr (rel', tmp')
    \<Longrightarrow> n \<le> length (content tmp) \<Longrightarrow> n \<le> nat (BUF_SIZE frame - fr_headroom frame) \<Longrightarrow> send_reach frame rel'"
| send_skip: "send_reach frame rel \<Longrightarrow> i < length (rl_entries rel) \<Longrightarrow> e_packet_id (rl_entries rel ! i) + 1 = rl_packet_id rel
    \<Longrightarrow> reliable_mark_deleted rel i = Inr rel' \<Longrightarrow> send_reach frame rel'"
| send_acks: "send_reach frame rel \<Longrightarrow> send_reach frame (reliable_send_purge rel ack)"
| send_transmit: "send_reach frame rel \<Longrightarrow> reliable_send now rel = Inr (r, rel') \<Longrightarrow> send_reach frame rel'"
| send_reschedule: "send_reach frame rel \<Longrightarrow> send_reach frame (reliable_schedule_now now rel)"

lemma send_le_bufs:
  assumes "send_le rel rel'" "bufs_of cap off rel"
  shows "bufs_of cap off rel'"
proof -
  have "\<forall>e'\<in>set (rl_entries rel'). \<exists>e\<in>set (rl_entries rel). e_buf e' = e_buf e"
    using assms(1) by (fastforce simp: send_le_def list_all2_conv_all_nth in_set_conv_nth entry_le_def)
  then show ?thesis using assms by (fastforce simp: bufs_of_def send_le_def)
qed

lemma send_one_free:
  assumes "send_inv rel" "send_one rel tmp n opcode = Inr (rel', tmp')"
  shows "in_flight rel < nat (rl_size rel)"
  using assms get_buf_output_sequenced_eq [OF assms(1)]
  by (auto simp: send_one_def split: if_splits)

lemma mark_deleted_le:
  assumes "i < length (rl_entries rel)" "e_packet_id (rl_entries rel ! i) + 1 = rl_packet_id rel"
    and "reliable_mark_deleted rel i = Inr rel'"
  shows "send_le rel rel'"
proof -
  have "rel' = upd_entry rel i ((rl_entries rel ! i)\<lparr>e_active := False\<rparr>)"
    using assms entries_nth [OF assms(1)] by (auto simp: reliable_mark_deleted_def Let_def upd_entry_def)
  then show ?thesis using send_le_upd [OF assms(1), of "(rl_entries rel ! i)\<lparr>e_active := False\<rparr>"] by (simp add: entry_le_def)
qed

lemma send_reach_inv:
  assumes "send_reach frame rel" and off: "4 \<le> fr_headroom frame"
  shows "send_inv rel \<and> bufs_of (BUF_SIZE frame) (fr_headroom frame) rel \<and> rl_size rel = 6"
  using assms(1)
proof (induction rule: send_reach.induct)
  case (send_init hold rel)
  note i = reliable_init_inv [OF send_init]
  then have "active_ids (rl_entries rel) = []" by (simp add: active_ids_Nil)
  then show ?case using i by (auto simp: send_inv_def bufs_of_def recv_inv_def)
next
  case (send_timeout rel t)
  have "send_le rel (reliable_set_timeout rel t)"
    by (simp add: send_le_def reliable_set_timeout_def rl_entries_def list_all2_refl)
  then show ?case using send_timeout.IH send_le_inv send_le_bufs by (auto simp: send_le_def)
next
  case (send_packet rel tmp n opcode rel' tmp')
  have free: "in_flight rel < nat (rl_size rel)" using send_one_free send_packet by blast
  from send_one_ok [OF _ _ off free send_packet.hyps(2,4,5), of opcode] send_packet
  show ?case by auto
next
  case (send_skip rel i rel')
  then show ?case using mark_deleted_le [of i rel rel'] send_le_inv send_le_bufs by (auto simp: send_le_def)
next
  case (send_acks rel ack)
  then show ?case using send_purge_le [of rel ack] send_le_inv send_le_bufs by (auto simp: send_le_def)
next
  case (send_transmit rel now r rel')
  then show ?case using reliable_send_le [of now rel r rel'] send_le_inv send_le_bufs by (auto simp: send_le_def)
next
  case (send_reschedule rel now)
  then show ?case using schedule_now_le [of rel now] send_le_inv send_le_bufs by (auto simp: send_le_def)
qed


section \<open>Properties\<close>

lemma alloc_buf_gc_ok:
  assumes "n < 1000000" "0 < n" "\<And>k. length (junk k) = k"
  shows "\<exists>b. alloc_buf_gc junk n = Inr b \<and> buf_wf b \<and> content b = [] \<and> b_capacity b = int n"
  using assms by (auto simp: alloc_buf_gc_def buf_size_valid_def BUF_SIZE_MAX_def content_def mem_write_def
      intro!: buf_wfI [where m = "patch (junk n) 0 [0]"])

lemma overhead_bounds:
  assumes "0 \<le> hmac_size" "hmac_size \<le> OPENVPN_MAX_HMAC_SIZE"
  shows "0 \<le> calc_control_channel_frame_overhead rec_ack lru_acks mode hmac_size inet"
    and "calc_control_channel_frame_overhead rec_ack lru_acks mode hmac_size inet \<le> 1000"
proof -
  define n where "n = nat (min_int (reliable_ack_outstanding rec_ack + ra_len lru_acks) CONTROL_SEND_ACK_MAX)"
  have "n \<le> 4" by (simp add: n_def)
  then have a: "0 \<le> ACK_SIZE n" "ACK_SIZE n \<le> 25" by (auto simp: ACK_SIZE_def)
  show "0 \<le> calc_control_channel_frame_overhead rec_ack lru_acks mode hmac_size inet"
    and "calc_control_channel_frame_overhead rec_ack lru_acks mode hmac_size inet \<le> 1000"
    unfolding calc_control_channel_frame_overhead_def n_def [symmetric]
    using assms a
    by (auto simp: tls_crypt_buf_overhead_def packet_id_size_def datagram_overhead_def split: tls_wrap_mode.split)
qed

text \<open>
  The sizes \<open>write_outgoing_tls_ciphertext\<close> computes: the buffer it asks the TLS library to
  fill, and the payload of one packet.
\<close>

definition first_len :: "bool \<Rightarrow> int \<Rightarrow> int \<Rightarrow> reliable \<Rightarrow> int" where
  "first_len w wkc_len mpl rel = (if control_packet_needs_wkc w rel then max 0 (mpl - wkc_len) else mpl)"

lemma prod_bounds:
  fixes x k :: int
  assumes "lo \<le> x" "x \<le> hi" "0 \<le> hi" "lo \<le> 0" "1 \<le> k" "k \<le> n"
  shows "lo * n \<le> x * k" "x * k \<le> hi * n"
proof -
  have "lo * n \<le> lo * k" using assms(4,6) by (simp add: mult_left_mono_neg)
  also have "\<dots> \<le> x * k" using assms(1,5) by (simp add: mult_right_mono)
  finally show "lo * n \<le> x * k" .
  have "x * k \<le> hi * k" using assms(2,5) by (simp add: mult_right_mono)
  also have "\<dots> \<le> hi * n" using assms(3,6) by (simp add: mult_left_mono)
  finally show "x * k \<le> hi * n" .
qed

lemma outgoing_sizes:
  assumes avail: "avail = reliable_get_num_output_sequenced_available rel" "1 \<le> avail" "avail \<le> 6"
    and mpl: "mpl = min_int TLS_CHANNEL_BUF_SIZE tun_mtu - ov" "-1000 \<le> mpl" "mpl \<le> 2048"
    and wkc: "0 \<le> wkc_len" "wkc_len \<le> 1024" and junk: "\<And>k. length (junk k) = k"
  obtains ml mpl' tmp where "16 \<le> ml" "0 < mpl'" "mpl' = mpl \<or> ml = 16"
    "ml \<le> first_len w wkc_len mpl' rel + mpl' * (avail - 1)"
    "buf_wf tmp" "content tmp = []" "b_capacity tmp = ml"
    "write_outgoing_tls_ciphertext junk read_ciphertext w wkc_len tun_mtu ov rel cont =
       (case read_ciphertext tmp of (status, tmp') \<Rightarrow>
          if status = -1 then Inr (False, cont, rel)
          else if status = 1
          then bindE (write_outgoing_loop w wkc_len mpl' rel tmp' cont) (\<lambda>(cont', rel'). Inr (True, cont', rel'))
          else Inr (True, cont, rel))"
proof -
  define m1 where "m1 = (if control_packet_needs_wkc w rel then mpl * avail - wkc_len else mpl * avail)"
  define ml where "ml = (if m1 < 16 then 16 else m1)"
  define mpl' where "mpl' = (if m1 < 16 then TLS_CHANNEL_BUF_SIZE else mpl)"
  have prod: "-1000 * 6 \<le> mpl * avail" "mpl * avail \<le> 2048 * 6"
    using prod_bounds [OF mpl(2,3) _ _ avail(2,3)] by simp_all
  have i32: "i32 (mpl * avail) = Inr (mpl * avail)" using prod by (simp add: i32_def)
  have mlb: "16 \<le> ml" "nat ml < 1000000" "0 < nat ml" using prod wkc(1) by (auto simp: ml_def m1_def)
  from alloc_buf_gc_ok [of "nat ml" junk, OF mlb(2,3) junk] mlb(1) obtain tmp where
    tmp: "alloc_buf_gc junk (nat ml) = Inr tmp" "buf_wf tmp" "content tmp = []" "b_capacity tmp = ml" by auto
  have pos: "0 < mpl'"
  proof (cases "m1 < 16")
    case False
    then have "0 < mpl * avail" using wkc(1) by (auto simp: m1_def split: if_splits)
    then show ?thesis using False avail(2) by (simp add: mpl'_def zero_less_mult_iff)
  qed (simp add: mpl'_def)
  have budget: "ml \<le> first_len w wkc_len mpl' rel + mpl' * (avail - 1)"
  proof (cases "m1 < 16")
    case True
    then show ?thesis using wkc(2) avail(2) by (auto simp: ml_def mpl'_def first_len_def)
  next
    case False
    then show ?thesis by (auto simp: ml_def mpl'_def m1_def first_len_def algebra_simps)
  qed
  have "write_outgoing_tls_ciphertext junk read_ciphertext w wkc_len tun_mtu ov rel cont =
       (case read_ciphertext tmp of (status, tmp') \<Rightarrow>
          if status = -1 then Inr (False, cont, rel)
          else if status = 1
          then bindE (write_outgoing_loop w wkc_len mpl' rel tmp' cont) (\<lambda>(cont', rel'). Inr (True, cont', rel'))
          else Inr (True, cont, rel))"
    unfolding write_outgoing_tls_ciphertext_def Let_def mpl(1) [symmetric] avail(1) [symmetric] i32 bindE_Inr
      m1_def [symmetric] ml_def [symmetric] mpl'_def [symmetric] tmp(1) using avail(2) by simp
  moreover have "mpl' = mpl \<or> ml = 16" by (simp add: mpl'_def ml_def)
  ultimately show thesis using mlb(1) pos budget tmp by (intro that)
qed

text \<open>
  C9: in every state the send side can reach, the number of available slots is
  what it says: it lies between 0 and the window size, and a buffer for a next
  packet can be had exactly if it is positive.  This is why
  \<open>write_outgoing_tls_ciphertext\<close> may ask once and then insist.
\<close>

theorem send_slots_agree:
  assumes "send_reach frame rel" "4 \<le> fr_headroom frame"
  shows "0 \<le> reliable_get_num_output_sequenced_available rel
       \<and> reliable_get_num_output_sequenced_available rel \<le> 6
       \<and> (reliable_get_num_output_sequenced_available rel > 0
            \<longleftrightarrow> (\<exists>i rel'. reliable_get_buf_output_sequenced rel = Inr (Some i, rel')))
       \<and> (\<exists>r rel'. reliable_get_buf_output_sequenced rel = Inr (r, rel'))"
proof -
  from send_reach_inv [OF assms] have inv: "send_inv rel" "rl_size rel = 6" by simp_all
  have av: "reliable_get_num_output_sequenced_available rel = 6 - int (in_flight rel)"
    using available_eq [OF inv(1)] inv(2) by simp
  have fl: "in_flight rel \<le> 6" using in_flight_le [OF inv(1)] inv(2) by simp
  have wf: "rel_wf rel" using inv(1) by (simp add: send_inv_def)
  show ?thesis
  proof (cases "in_flight rel < 6")
    case True
    then have "\<exists>i rel'. reliable_get_buf_output_sequenced rel = Inr (Some i, rel')"
      using get_buf_output_sequenced_eq [OF inv(1)] inv(2) get_buf_ok [OF wf free_slot [OF inv(1)]] by auto
    then show ?thesis using av fl True by auto
  next
    case False
    then show ?thesis using get_buf_output_sequenced_eq [OF inv(1)] inv(2) av fl by auto
  qed
qed

theorem send_slots_agree_witness:
  "\<exists>rel. reliable_init (BUF_SIZE \<lparr>fr_payload_size = 16, fr_headroom = 8, fr_tailroom = 8, fr_mss_fix = 0, fr_max_fragment_size = 0, fr_tun_mtu = 16,
       fr_tun_max_mtu = 0, fr_extra_tun = 0\<rparr>) 8 6 False = Inr rel
     \<and> reliable_get_num_output_sequenced_available rel > 0
     \<and> (\<exists>i rel'. reliable_get_buf_output_sequenced rel = Inr (Some i, rel'))"
proof -
  let ?f = "\<lparr>fr_payload_size = 16, fr_headroom = 8, fr_tailroom = 8, fr_mss_fix = 0, fr_max_fragment_size = 0, fr_tun_mtu = 16,
       fr_tun_max_mtu = 0, fr_extra_tun = 0\<rparr>"
  have "case reliable_init (BUF_SIZE ?f) (fr_headroom ?f) 6 False of Inl _ \<Rightarrow> False
      | Inr rel \<Rightarrow> reliable_get_num_output_sequenced_available rel > 0" by code_simp
  then obtain rel where r: "reliable_init (BUF_SIZE ?f) (fr_headroom ?f) 6 False = Inr rel"
    "reliable_get_num_output_sequenced_available rel > 0" by (auto split: sum.splits)
  from send_slots_agree [OF send_reach.send_init [OF r(1)]] r show ?thesis by auto
qed

text \<open>
  C8: output of the TLS library never trips the assertion of
  \<open>write_outgoing_tls_ciphertext\<close> and is never cut short.  Whatever the TLS library
  puts into the buffer it is given, the function returns, every byte of it is
  in packets that wait under consecutive ids from the next one on, and the
  packets that were waiting before still are.  (Ids do not wrap; the first id is
  used by the initial packet; a wrapped client key has at most 1024 bytes.)
\<close>

theorem ciphertext_never_lost:
  assumes frame: "frame = tls_init_control_channel_frame_parameters f tls_mtu"
    and reach: "send_reach frame rel"
    and pid: "0 < unat (rl_packet_id rel)" "unat (rl_packet_id rel) + 6 < 2 ^ 32"
    and sizes: "0 \<le> hmac_size" "hmac_size \<le> OPENVPN_MAX_HMAC_SIZE" "0 \<le> wkc_len" "wkc_len \<le> 1024"
    and junk: "\<And>k. length (junk k) = k"
    and lib: "\<forall>tmp tmp'. buf_wf tmp \<longrightarrow> content tmp = [] \<longrightarrow> read_ciphertext tmp = (1, tmp')
        \<longrightarrow> buf_wf tmp' \<and> int (length (content tmp')) \<le> b_capacity tmp"
  shows "\<exists>ok cont' rel'.
           write_outgoing_tls_ciphertext junk read_ciphertext resend_wkc wkc_len (fr_tun_mtu frame)
             (calc_control_channel_frame_overhead rec_ack lru_acks mode hmac_size inet) rel cont = Inr (ok, cont', rel')
         \<and> (\<forall>a xs. waiting rel a xs \<longrightarrow> waiting rel' a xs)
         \<and> (reliable_get_num_output_sequenced_available rel = 0 \<and> rel' = rel
            \<or> (\<exists>tmp status tmp'. buf_wf tmp \<and> 16 \<le> b_capacity tmp \<and> read_ciphertext tmp = (status, tmp')
                \<and> (if status = 1
                   then \<exists>cs. concat cs = content tmp' \<and> (\<forall>k < length cs. waiting rel' (rl_packet_id rel + word_of_nat k) (cs ! k))
                   else rel' = rel)))"
proof -
  let ?cap = "BUF_SIZE frame" and ?off = "fr_headroom frame"
  define avail where "avail = reliable_get_num_output_sequenced_available rel"
  have fr: "4 \<le> ?off" "?cap - ?off \<ge> fr_tun_mtu frame" "?cap - ?off \<ge> 16" "fr_tun_mtu frame \<ge> 154"
    using frame
    by (auto simp: tls_init_control_channel_frame_parameters_def BUF_SIZE_def ACK_SIZE_def tls_crypt_buf_overhead_def
        packet_id_size_def Let_def)
  from send_reach_inv [OF reach fr(1)] have inv: "send_inv rel" "bufs_of ?cap ?off rel" "rl_size rel = 6" by simp_all
  have av: "avail = 6 - int (in_flight rel)" "0 \<le> avail"
    using available_eq [OF inv(1)] in_flight_le [OF inv(1)] inv(3) by (simp_all add: avail_def)
  define ov where "ov = calc_control_channel_frame_overhead rec_ack lru_acks mode hmac_size inet"
  have ov: "0 \<le> ov" "ov \<le> 1000" using overhead_bounds [OF sizes(1,2)] by (simp_all add: ov_def)
  define mpl where "mpl = min_int TLS_CHANNEL_BUF_SIZE (fr_tun_mtu frame) - ov"
  have mb: "-1000 \<le> mpl" "mpl \<le> 2048" "mpl \<le> fr_tun_mtu frame" using ov fr(4) by (auto simp: mpl_def min_def)
  show ?thesis
  proof (cases "avail = 0")
    case True
    then show ?thesis
      by (intro exI [of _ True] exI [of _ cont] exI [of _ rel]) (simp add: write_outgoing_tls_ciphertext_def avail_def)
  next
    case False
    then have avb: "1 \<le> avail" "avail \<le> 6" using av by auto
    obtain ml mpl' tmp where m: "16 \<le> ml" "0 < mpl'" "mpl' = mpl \<or> ml = 16"
      "ml \<le> first_len resend_wkc wkc_len mpl' rel + mpl' * (avail - 1)" and tmp: "buf_wf tmp" "content tmp = []" "b_capacity tmp = ml"
      and unfold: "write_outgoing_tls_ciphertext junk read_ciphertext resend_wkc wkc_len (fr_tun_mtu frame) ov rel cont =
       (case read_ciphertext tmp of (status, tmp') \<Rightarrow>
          if status = -1 then Inr (False, cont, rel)
          else if status = 1
          then bindE (write_outgoing_loop resend_wkc wkc_len mpl' rel tmp' cont) (\<lambda>(cont', rel'). Inr (True, cont', rel'))
          else Inr (True, cont, rel))"
      by (rule outgoing_sizes [OF avail_def avb mpl_def mb(1,2) sizes(3,4) junk])
    obtain status tmp' where rc: "read_ciphertext tmp = (status, tmp')" by (cases "read_ciphertext tmp")
    show ?thesis
    proof (cases "status = 1")
      case False
      then obtain ok where "write_outgoing_tls_ciphertext junk read_ciphertext resend_wkc wkc_len (fr_tun_mtu frame) ov rel cont
          = Inr (ok, cont, rel)" unfolding unfold rc by (cases "status = -1") auto
      then show ?thesis
        unfolding ov_def [symmetric] using False rc tmp m(1)
        by (intro exI [of _ ok] exI [of _ cont] exI [of _ rel] conjI disjI2 exI [of _ tmp] exI [of _ status] exI [of _ tmp']) auto
    next
      case True
      from lib [rule_format, OF tmp(1,2)] rc True have t': "buf_wf tmp'" "int (length (content tmp')) \<le> ml" using tmp(3) by auto
      have room: "min mpl' (int (length (content tmp'))) \<le> ?cap - ?off" using mb(3) fr(2,3) t'(2) m(3) by auto
      have tot: "content tmp' = [] \<or> in_flight rel < nat (rl_size rel) \<and> int (length (content tmp'))
          \<le> (if control_packet_needs_wkc resend_wkc rel then max 0 (mpl' - wkc_len) else mpl')
               + mpl' * (rl_size rel - int (in_flight rel) - 1)"
        using avb(1) inv(3) av m(4) t'(2) by (auto simp: first_len_def)
      have ids: "unat (rl_packet_id rel) + nat (rl_size rel) < 2 ^ 32 + in_flight rel" using pid(2) inv(3) by simp
      from write_outgoing_loop_ok [OF inv(1,2) fr(1) t'(1) m(2) sizes(3) room pid(1) ids tot, of cont] obtain cont' rel' cs where
        r: "write_outgoing_loop resend_wkc wkc_len mpl' rel tmp' cont = Inr (cont', rel')" "concat cs = content tmp'"
        "\<forall>k < length cs. waiting rel' (rl_packet_id rel + word_of_nat k) (cs ! k)"
        "\<forall>a xs. waiting rel a xs \<longrightarrow> waiting rel' a xs" by (elim exE conjE) (rule that)
      have "write_outgoing_tls_ciphertext junk read_ciphertext resend_wkc wkc_len (fr_tun_mtu frame) ov rel cont
          = Inr (True, cont', rel')" unfolding unfold rc using True r(1) by simp
      then show ?thesis
        unfolding ov_def [symmetric] using True rc tmp m(1) r(2-4)
        by (intro exI [of _ True] exI [of _ cont'] exI [of _ rel'] conjI disjI2 exI [of _ tmp] exI [of _ status] exI [of _ tmp'])
          auto
    qed
  qed
qed


lemma reliable_init_loop_total:
  assumes "0 \<le> offset" "offset \<le> buf_size" "buf_size < 1000000"
  shows "\<exists>es. reliable_init_loop n buf_size offset = Inr es"
proof (induction n)
  case (Suc n)
  have n: "nat buf_size < 1000000" using assms by simp
  from alloc_buf_ok [OF n] obtain b where b: "alloc_buf (nat buf_size) = Inr b" "buf_wf b" "b_capacity b = int (nat buf_size)"
    by blast
  have "offset \<le> b_capacity b" using b(3) assms by simp
  from buf_init_ok [OF b(2) assms(1) this] obtain b' where "buf_init_dowork b offset = (True, b')" by blast
  then show ?case using b(1) Suc assms by auto
qed simp

theorem ciphertext_never_lost_witness:
  "\<exists>frame rel0 rel ok cont' rel'. frame = tls_init_control_channel_frame_parameters
         \<lparr>fr_payload_size = 0, fr_headroom = 0, fr_tailroom = 0, fr_mss_fix = 0, fr_max_fragment_size = 0, fr_tun_mtu = 0,
       fr_tun_max_mtu = 0, fr_extra_tun = 0\<rparr> 1250
     \<and> reliable_init (BUF_SIZE frame) (fr_headroom frame) 6 False = Inr rel0
     \<and> (\<exists>tmp'. send_one rel0 \<lparr>b_capacity = 1, b_offset = 0, b_len = 0, b_data = Some [0]\<rparr> (int 0) 3 = Inr (rel, tmp'))
     \<and> write_outgoing_tls_ciphertext (\<lambda>k. replicate k 0)
         (\<lambda>tmp. if b_capacity tmp - b_offset tmp \<ge> 5 then (1, tmp\<lparr>b_len := 5\<rparr>) else (0, tmp)) True 100 (fr_tun_mtu frame)
         (calc_control_channel_frame_overhead \<lparr>ra_len = 0, ra_packet_id = replicate 8 0\<rparr>
            \<lparr>ra_len = 0, ra_packet_id = replicate 8 0\<rparr> TLS_WRAP_CRYPT 0 True) rel False = Inr (ok, cont', rel')"
proof -
  let ?f = "\<lparr>fr_payload_size = 0, fr_headroom = 0, fr_tailroom = 0, fr_mss_fix = 0, fr_max_fragment_size = 0, fr_tun_mtu = 0,
       fr_tun_max_mtu = 0, fr_extra_tun = 0\<rparr>"
  let ?frame = "tls_init_control_channel_frame_parameters ?f 1250"
  let ?tmp = "\<lparr>b_capacity = 1, b_offset = 0, b_len = 0, b_data = Some [0]\<rparr> :: buffer"
  let ?ack = "\<lparr>ra_len = 0, ra_packet_id = replicate 8 0\<rparr> :: reliable_ack"
  let ?rc = "\<lambda>tmp. if b_capacity tmp - b_offset tmp \<ge> 5 then (1, tmp\<lparr>b_len := 5\<rparr>) else (0 :: int, tmp)"
  have fr: "fr_headroom ?frame = 126" "BUF_SIZE ?frame = 1852" by code_simp+
  obtain es where "reliable_init_loop 6 1852 126 = Inr es" using reliable_init_loop_total [of 126 1852 6] by auto
  then obtain rel0 where i: "reliable_init (BUF_SIZE ?frame) (fr_headroom ?frame) 6 False = Inr rel0"
    unfolding fr by (simp add: reliable_init_def)
  have reach0: "send_reach ?frame rel0" by (rule send_reach.send_init [OF i])
  have four: "4 \<le> fr_headroom ?frame" by (simp add: fr)
  from send_reach_inv [OF reach0 four] have inv: "send_inv rel0" "bufs_of (BUF_SIZE ?frame) (fr_headroom ?frame) rel0" "rl_size rel0 = 6"
    by simp_all
  have "active_ids (rl_entries rel0) = []" using reliable_init_inv(4) [OF i] by (simp add: active_ids_Nil)
  then have free: "in_flight rel0 < nat (rl_size rel0)" using inv(3) by (simp add: in_flight_def)
  have tmp: "buf_wf ?tmp" "0 \<le> length (content ?tmp)" "0 \<le> nat (BUF_SIZE ?frame - fr_headroom ?frame)" by code_simp+
  from send_one_ok [OF inv(1,2) four free tmp, of 3] obtain rel tmp' where
    s: "send_one rel0 ?tmp (int 0) 3 = Inr (rel, tmp')" "rl_packet_id rel = rl_packet_id rel0 + 1" by blast
  have reach: "send_reach ?frame rel" by (rule send_reach.send_packet [OF reach0 tmp(1) s(1) tmp(2,3)])
  have pid: "rl_packet_id rel = 1" using s(2) reliable_init_inv(3) [OF i] by simp
  have p: "0 < unat (rl_packet_id rel)" "unat (rl_packet_id rel) + 6 < 2 ^ 32" unfolding pid by simp_all
  have lib: "\<forall>t t'. buf_wf t \<longrightarrow> content t = [] \<longrightarrow> ?rc t = (1, t') \<longrightarrow> buf_wf t' \<and> int (length (content t')) \<le> b_capacity t"
  proof (intro allI impI)
    fix t t' assume a: "buf_wf t" "?rc t = (1, t')"
    have t: "5 \<le> b_capacity t - b_offset t" "t' = t\<lparr>b_len := 5\<rparr>" using a(2) by (auto split: if_splits)
    then have "buf_wf t'" using a(1) by (auto simp: buf_wf_def split: option.splits)
    moreover have "0 \<le> b_offset t" using a(1) by (auto elim: buf_wfE)
    ultimately show "buf_wf t' \<and> int (length (content t')) \<le> b_capacity t" using t by simp
  qed
  have h: "(0 :: int) \<le> 0" "(0 :: int) \<le> OPENVPN_MAX_HMAC_SIZE" "(0 :: int) \<le> 100" "(100 :: int) \<le> 1024" "\<And>k. length (replicate k (0 :: u8)) = k"
    by simp_all
  from ciphertext_never_lost [where read_ciphertext = ?rc and resend_wkc = True and rec_ack = ?ack and lru_acks = ?ack
      and mode = TLS_WRAP_CRYPT and inet = True and cont = False, OF refl reach p h lib] i s(1)
  show ?thesis by (elim exE conjE) (intro exI conjI, (assumption | rule refl)+)
qed







end
