(* ===== verification/OTime.thy ===== *)
theory OTime
  imports IntegerOps
begin

text \<open>
  Time (\<open>otime.h\<close>, \<open>otime.c\<close>, \<open>interval.h\<close>, \<open>interval.c\<close>,
  \<open>shaper.h\<close>, \<open>shaper.c\<close>, \<open>reflect_filter.c\<close>): the filtered clock, arithmetic
  on \<open>struct timeval\<close>, timers, rate limits and the traffic shaper.  What the
  system clock returns is an argument; \<open>time_t\<close> and \<open>suseconds_t\<close> are integers,
  since no sum of two times leaves 64 bits.
\<close>

section \<open>The clock\<close>

record clock =
  clk_now :: int
  clk_adj :: int
  clk_usec :: int

record timeval =
  tv_sec :: int
  tv_usec :: int

definition update_now :: "int \<Rightarrow> clock \<Rightarrow> clock" where
  "update_now system_time c =
     (let real_time = system_time + clk_adj c
      in if real_time > clk_now c
         then (let overshoot = real_time - clk_now c - 1
               in if overshoot > 86400 \<and> clk_adj c \<ge> overshoot
                  then c\<lparr>clk_adj := clk_adj c - overshoot, clk_now := real_time - overshoot\<rparr>
                  else c\<lparr>clk_now := real_time\<rparr>)
         else if real_time < clk_now c - 10
         then c\<lparr>clk_adj := clk_adj c + (clk_now c - real_time)\<rparr>
         else c)"

definition update_now_usec :: "timeval \<Rightarrow> clock \<Rightarrow> clock" where
  "update_now_usec tv c =
     (let c' = update_now (tv_sec tv) c
      in if clk_now c' > clk_now c \<or> clk_now c' = clk_now c \<and> tv_usec tv > clk_usec c
         then c'\<lparr>clk_usec := tv_usec tv\<rparr> else c')"

text \<open>\<open>sys\<close> is what \<open>gettimeofday\<close> returned, if it succeeded.\<close>

definition openvpn_gettimeofday :: "timeval option \<Rightarrow> timeval \<Rightarrow> clock \<Rightarrow> int \<times> timeval \<times> clock" where
  "openvpn_gettimeofday sys tv c =
     (case sys of
        None \<Rightarrow> (-1, tv, c)
      | Some t \<Rightarrow> (let c' = update_now_usec t c in (0, \<lparr>tv_sec = clk_now c', tv_usec = clk_usec c'\<rparr>, c')))"

definition update_time :: "int \<Rightarrow> clock \<Rightarrow> clock" where
  "update_time t c = (update_now t c)\<lparr>clk_usec := 0\<rparr>"

definition openvpn_time :: "int \<Rightarrow> clock \<Rightarrow> int \<times> clock" where
  "openvpn_time t c = (let c' = update_time t c in (clk_now c', c'))"


section \<open>Time values\<close>

definition tv_clear :: timeval where
  "tv_clear = \<lparr>tv_sec = 0, tv_usec = 0\<rparr>"

definition tv_defined :: "timeval \<Rightarrow> bool" where
  "tv_defined tv \<longleftrightarrow> tv_sec tv > 0 \<and> tv_usec tv > 0"

definition tv_subtract :: "timeval \<Rightarrow> timeval \<Rightarrow> int \<Rightarrow> int cres" where
  "tv_subtract tv1 tv2 max_seconds =
     bindE (i32 (max_seconds * 1000000)) (\<lambda>max_usec.
     let sec_diff = tv_sec tv1 - tv_sec tv2
     in if sec_diff > max_seconds + 10 then Inr max_usec
        else if sec_diff < - (max_seconds + 10) then Inr (- max_usec)
        else (let complete_diff = sec_diff * 1000000 + (tv_usec tv1 - tv_usec tv2)
              in Inr (constrain_int (c_int complete_diff) (- max_usec) max_usec)))"

definition tv_add :: "timeval \<Rightarrow> timeval \<Rightarrow> timeval" where
  "tv_add dest src =
     (let sec = tv_sec dest + tv_sec src;
          usec = tv_usec dest + tv_usec src;
          sec1 = sec + drop_bit 20 usec;
          usec1 = usec AND 0x000FFFFF
      in if usec1 \<ge> 1000000 then \<lparr>tv_sec = sec1 + 1, tv_usec = usec1 - 1000000\<rparr>
         else \<lparr>tv_sec = sec1, tv_usec = usec1\<rparr>)"

definition tv_lt :: "timeval \<Rightarrow> timeval \<Rightarrow> bool" where
  "tv_lt t1 t2 =
     (if tv_sec t1 < tv_sec t2 then True
      else if tv_sec t1 > tv_sec t2 then False
      else tv_usec t1 < tv_usec t2)"

definition tv_le :: "timeval \<Rightarrow> timeval \<Rightarrow> bool" where
  "tv_le t1 t2 =
     (if tv_sec t1 < tv_sec t2 then True
      else if tv_sec t1 > tv_sec t2 then False
      else tv_usec t1 \<le> tv_usec t2)"

definition tv_ge :: "timeval \<Rightarrow> timeval \<Rightarrow> bool" where
  "tv_ge t1 t2 =
     (if tv_sec t1 > tv_sec t2 then True
      else if tv_sec t1 < tv_sec t2 then False
      else tv_usec t1 \<ge> tv_usec t2)"

definition tv_gt :: "timeval \<Rightarrow> timeval \<Rightarrow> bool" where
  "tv_gt t1 t2 =
     (if tv_sec t1 > tv_sec t2 then True
      else if tv_sec t1 < tv_sec t2 then False
      else tv_usec t1 > tv_usec t2)"

definition tv_eq :: "timeval \<Rightarrow> timeval \<Rightarrow> bool" where
  "tv_eq t1 t2 \<longleftrightarrow> tv_sec t1 = tv_sec t2 \<and> tv_usec t1 = tv_usec t2"

function tv_delta_loop :: "int \<Rightarrow> int \<Rightarrow> int \<times> int" where
  "tv_delta_loop usec sec = (if usec < 0 then tv_delta_loop (usec + 1000000) (sec - 1) else (usec, sec))"
  by pat_completeness auto

termination
  by (relation "measure (\<lambda>(usec, _). nat (- usec))") auto

definition tv_delta :: "timeval \<Rightarrow> timeval \<Rightarrow> timeval" where
  "tv_delta t1 t2 =
     (case tv_delta_loop (tv_usec t2 - tv_usec t1) (tv_sec t2 - tv_sec t1) of
        (usec, sec) \<Rightarrow> if sec < 0 then \<lparr>tv_sec = 0, tv_usec = 0\<rparr> else \<lparr>tv_sec = sec, tv_usec = usec\<rparr>)"

definition tv_within_sigma :: "timeval \<Rightarrow> timeval \<Rightarrow> u32 \<Rightarrow> bool cres" where
  "tv_within_sigma t1 t2 sigma =
     bindE (tv_subtract t1 t2 600) (\<lambda>delta.
     bindE (i32 (- sint sigma)) (\<lambda>lo. Inr (lo \<le> delta \<and> delta \<le> sint sigma)))"

definition interval_earliest_wakeup :: "int \<Rightarrow> int \<Rightarrow> int \<Rightarrow> int" where
  "interval_earliest_wakeup wakeup at current =
     (if at > current
      then (let delta = c_int (at - current);
                w = (if delta < wakeup then delta else wakeup)
            in if w < 0 then 0 else w)
      else wakeup)"


section \<open>Frequency limit\<close>

record frequency_limit =
  fl_max :: int
  fl_per :: int
  fl_n :: int
  fl_reset :: int

definition frequency_limit_init :: "int \<Rightarrow> int \<Rightarrow> frequency_limit cres" where
  "frequency_limit_init mx per =
     bindE (c_assert (mx \<ge> 0 \<and> per \<ge> 0)) (\<lambda>_. Inr \<lparr>fl_max = mx, fl_per = per, fl_n = 0, fl_reset = 0\<rparr>)"

definition frequency_limit_event_allowed :: "int \<Rightarrow> frequency_limit \<Rightarrow> (bool \<times> frequency_limit) cres" where
  "frequency_limit_event_allowed now f =
     (if fl_per f \<noteq> 0
      then (let f1 = (if now \<ge> fl_reset f + fl_per f then f\<lparr>fl_reset := now, fl_n := 0\<rparr> else f)
            in bindE (i32 (fl_n f1 + 1)) (\<lambda>n. Inr (n \<le> fl_max f1, f1\<lparr>fl_n := n\<rparr>)))
      else Inr (True, f))"


section \<open>Limit on initial packets\<close>

record initial_packet_rate_limit =
  max_per_period :: int
  period_length :: int
  curr_period_counter :: int
  last_period_reset :: int
  warning_displayed :: bool

definition i64 :: "int \<Rightarrow> int cres" where
  "i64 x = (if - (2 ^ 63) \<le> x \<and> x < 2 ^ 63 then Inr x else Inl Overflow)"

definition reflect_filter_rate_limit_check ::
    "int \<Rightarrow> initial_packet_rate_limit \<Rightarrow> (bool \<times> initial_packet_rate_limit) cres" where
  "reflect_filter_rate_limit_check now irl =
     (let irl1 = (if now > last_period_reset irl + period_length irl
                  then irl\<lparr>last_period_reset := now, curr_period_counter := 0, warning_displayed := False\<rparr>
                  else irl)
      in bindE (i64 (curr_period_counter irl1 + 1)) (\<lambda>n.
         let irl2 = irl1\<lparr>curr_period_counter := n\<rparr>;
             over_limit = (n > max_per_period irl2);
             irl3 = (if over_limit \<and> \<not> warning_displayed irl2 then irl2\<lparr>warning_displayed := True\<rparr> else irl2)
         in Inr (\<not> over_limit, irl3)))"

definition reflect_filter_rate_limit_decrease :: "initial_packet_rate_limit \<Rightarrow> initial_packet_rate_limit" where
  "reflect_filter_rate_limit_decrease irl =
     (if curr_period_counter irl > 0 then irl\<lparr>curr_period_counter := curr_period_counter irl - 1\<rparr> else irl)"

text \<open>The field \<open>warning_displayed\<close> is left as \<open>malloc\<close> returned it.\<close>

definition initial_rate_limit_init :: "bool \<Rightarrow> int \<Rightarrow> int \<Rightarrow> initial_packet_rate_limit" where
  "initial_rate_limit_init uninit mx len =
     \<lparr>max_per_period = mx, period_length = len, curr_period_counter = 0, last_period_reset = 0, warning_displayed = uninit\<rparr>"


section \<open>Timers\<close>

record interval =
  iv_refresh :: int
  iv_horizon :: int
  iv_future_trigger :: int
  iv_last_action :: int
  iv_last_test_true :: int

definition interval_init :: "int \<Rightarrow> int \<Rightarrow> interval" where
  "interval_init horizon refresh =
     \<lparr>iv_refresh = refresh, iv_horizon = horizon, iv_future_trigger = 0, iv_last_action = 0, iv_last_test_true = 0\<rparr>"

definition interval_test :: "int \<Rightarrow> interval \<Rightarrow> bool \<times> interval" where
  "interval_test now iv =
     (let trigger = (iv_future_trigger iv \<noteq> 0 \<and> now \<ge> iv_future_trigger iv);
          iv1 = (if trigger then iv\<lparr>iv_future_trigger := 0\<rparr> else iv)
      in if iv_last_action iv1 + iv_horizon iv1 > now \<or> iv_last_test_true iv1 + iv_refresh iv1 \<le> now \<or> trigger
         then (True, iv1\<lparr>iv_last_test_true := now\<rparr>)
         else (False, iv1))"

definition interval_schedule_wakeup :: "int \<Rightarrow> interval \<Rightarrow> int \<Rightarrow> int" where
  "interval_schedule_wakeup now iv wakeup =
     (let w1 = interval_earliest_wakeup wakeup (iv_last_test_true iv + iv_refresh iv) now
      in interval_earliest_wakeup w1 (iv_future_trigger iv) now)"

definition interval_future_trigger :: "int \<Rightarrow> interval \<Rightarrow> int \<Rightarrow> interval" where
  "interval_future_trigger now iv wakeup =
     (if wakeup \<noteq> 0 then iv\<lparr>iv_future_trigger := now + wakeup\<rparr> else iv)"

definition interval_action :: "int \<Rightarrow> interval \<Rightarrow> interval" where
  "interval_action now iv = iv\<lparr>iv_last_action := now\<rparr>"

record event_timeout =
  et_defined :: bool
  et_n :: int
  et_last :: int

definition event_timeout_defined :: "event_timeout \<Rightarrow> bool" where
  "event_timeout_defined et = et_defined et"

definition event_timeout_clear :: event_timeout where
  "event_timeout_clear = \<lparr>et_defined = False, et_n = 0, et_last = 0\<rparr>"

definition event_timeout_init :: "int \<Rightarrow> int \<Rightarrow> event_timeout" where
  "event_timeout_init n l = \<lparr>et_defined = True, et_n = (if n \<ge> 0 then n else 0), et_last = l\<rparr>"

definition event_timeout_reset :: "int \<Rightarrow> event_timeout \<Rightarrow> event_timeout" where
  "event_timeout_reset now et = (if et_defined et then et\<lparr>et_last := now\<rparr> else et)"

definition event_timeout_modify_wakeup :: "event_timeout \<Rightarrow> int \<Rightarrow> event_timeout" where
  "event_timeout_modify_wakeup et n =
     (if et_defined et then et\<lparr>et_n := (if n \<ge> 0 then n else 0)\<rparr> else et)"

definition event_timeout_remaining :: "int \<Rightarrow> event_timeout \<Rightarrow> int" where
  "event_timeout_remaining now et = c_int ((et_last et + et_n et) - now)"

text \<open>A null pointer for \<open>tv\<close> is \<open>None\<close>.\<close>

definition event_timeout_trigger ::
    "int \<Rightarrow> event_timeout \<Rightarrow> timeval option \<Rightarrow> int \<Rightarrow> bool \<times> event_timeout \<times> timeval option" where
  "event_timeout_trigger now et tv et_const_retry =
     (if \<not> et_defined et then (False, et, tv)
      else let wakeup = event_timeout_remaining now et;
               (ret, et1, wakeup1) =
                 (if wakeup \<le> 0
                  then (if et_const_retry < 0 then (True, et\<lparr>et_last := now\<rparr>, et_n et)
                        else (False, et, et_const_retry))
                  else (False, et, wakeup))
           in (ret, et1,
               case tv of
                 None \<Rightarrow> None
               | Some t \<Rightarrow> Some (if wakeup1 < tv_sec t then \<lparr>tv_sec = wakeup1, tv_usec = 0\<rparr> else t)))"

record usec_timer =
  ut_start :: timeval
  ut_end :: timeval

definition usec_timer_start :: "timeval option \<Rightarrow> clock \<Rightarrow> usec_timer \<times> clock" where
  "usec_timer_start sys c =
     (case openvpn_gettimeofday sys tv_clear c of (_, tv, c') \<Rightarrow> (\<lparr>ut_start = tv, ut_end = tv_clear\<rparr>, c'))"

definition usec_timer_end :: "timeval option \<Rightarrow> clock \<Rightarrow> usec_timer \<Rightarrow> usec_timer \<times> clock" where
  "usec_timer_end sys c obj =
     (case openvpn_gettimeofday sys (ut_end obj) c of (_, tv, c') \<Rightarrow> (obj\<lparr>ut_end := tv\<rparr>, c'))"

definition usec_timer_interval_defined :: "usec_timer \<Rightarrow> bool" where
  "usec_timer_interval_defined obj \<longleftrightarrow> tv_sec (ut_start obj) \<noteq> 0 \<and> tv_sec (ut_end obj) \<noteq> 0"

definition usec_timer_interval :: "usec_timer \<Rightarrow> int cres" where
  "usec_timer_interval obj = tv_subtract (ut_end obj) (ut_start obj) 60"


section \<open>Traffic shaper\<close>

text \<open>
  The factor is a \<open>double\<close>; what is used of it is the function \<open>usec_for\<close> from the size of
  a datagram to its delay in microseconds, before it is limited.
\<close>

record shaper =
  sh_bytes_per_second :: int
  sh_wakeup :: timeval

abbreviation (input) SHAPER_MIN :: int where "SHAPER_MIN \<equiv> 100"
abbreviation (input) SHAPER_MAX :: int where "SHAPER_MAX \<equiv> 100000000"
abbreviation (input) SHAPER_MAX_TIMEOUT :: int where "SHAPER_MAX_TIMEOUT \<equiv> 10"

definition shaper_reset :: "shaper \<Rightarrow> int \<Rightarrow> shaper" where
  "shaper_reset s bytes_per_second =
     s\<lparr>sh_bytes_per_second := constrain_int bytes_per_second SHAPER_MIN SHAPER_MAX\<rparr>"

definition shaper_reset_wakeup :: "shaper \<Rightarrow> shaper" where
  "shaper_reset_wakeup s = s\<lparr>sh_wakeup := tv_clear\<rparr>"

definition shaper_init :: "shaper \<Rightarrow> int \<Rightarrow> shaper" where
  "shaper_init s bytes_per_second = shaper_reset_wakeup (shaper_reset s bytes_per_second)"

definition shaper_delay :: "timeval option \<Rightarrow> clock \<Rightarrow> shaper \<Rightarrow> (int \<times> clock) cres" where
  "shaper_delay sys c s =
     (if tv_defined (sh_wakeup s)
      then (case openvpn_gettimeofday sys tv_clear c of
              (status, tv, c') \<Rightarrow>
                bindE (c_assert (status = 0)) (\<lambda>_.
                bindE (tv_subtract (sh_wakeup s) tv SHAPER_MAX_TIMEOUT) (\<lambda>delay.
                Inr (if delay > 0 then delay else 0, c'))))
      else Inr (0, c))"

definition shaper_wrote_bytes ::
    "(int \<Rightarrow> int \<Rightarrow> int) \<Rightarrow> timeval option \<Rightarrow> clock \<Rightarrow> shaper \<Rightarrow> int \<Rightarrow> (shaper \<times> clock) cres" where
  "shaper_wrote_bytes usec_for sys c s nbytes =
     (let usec = min_int (usec_for (sh_bytes_per_second s) (max_int nbytes 100)) (SHAPER_MAX_TIMEOUT * 1000000)
      in if usec \<noteq> 0
         then (case openvpn_gettimeofday sys (sh_wakeup s) c of
                 (status, tv, c') \<Rightarrow>
                   bindE (c_assert (status = 0)) (\<lambda>_.
                   Inr (s\<lparr>sh_wakeup := tv_add tv \<lparr>tv_sec = 0, tv_usec = usec\<rparr>\<rparr>, c')))
         else Inr (s, c))"

definition shaper_soonest_event :: "timeval \<Rightarrow> int \<Rightarrow> bool \<times> timeval" where
  "shaper_soonest_event tv delay =
     (if delay < 1000000
      then (if tv_sec tv \<noteq> 0 then (True, \<lparr>tv_sec = 0, tv_usec = delay\<rparr>)
            else if delay < tv_usec tv then (True, tv\<lparr>tv_usec := delay\<rparr>)
            else (False, tv))
      else (let sec = delay div 1000000; usec = delay mod 1000000
            in if sec < tv_sec tv then (True, \<lparr>tv_sec = sec, tv_usec = usec\<rparr>)
               else if sec = tv_sec tv \<and> usec < tv_usec tv then (True, tv\<lparr>tv_usec := usec\<rparr>)
               else (False, tv)))"


section \<open>The clock never runs backwards\<close>

lemma update_now_mono: "clk_now c \<le> clk_now (update_now t c)"
  by (simp add: update_now_def Let_def)

lemma update_now_tracks:
  "clk_now (update_now t c) - 10 \<le> t + clk_adj (update_now t c) \<and> t + clk_adj (update_now t c) \<le> clk_now (update_now t c)"
  by (auto simp: update_now_def Let_def)

lemma update_now_adj: "0 \<le> clk_adj c \<Longrightarrow> 0 \<le> clk_adj (update_now t c)"
  by (auto simp: update_now_def Let_def)

fun clock_run :: "clock \<Rightarrow> int list \<Rightarrow> clock list" where
  "clock_run c [] = [c]"
| "clock_run c (t # ts) = c # clock_run (update_now t c) ts"

lemma clock_run_sorted: "sorted (map clk_now (clock_run c ts)) \<and> (\<forall>c'\<in>set (clock_run c ts). clk_now c \<le> clk_now c')"
proof (induction ts arbitrary: c)
  case (Cons t ts)
  then show ?case using Cons [of "update_now t c"] update_now_mono [of c t] by fastforce
qed simp

lemma clock_run_nth:
  assumes "0 \<le> clk_adj c" "k < length ts"
  shows "let c' = clock_run c ts ! Suc k
         in 0 \<le> clk_adj c' \<and> clk_now c' - 10 \<le> ts ! k + clk_adj c' \<and> ts ! k + clk_adj c' \<le> clk_now c'"
  using assms
proof (induction ts arbitrary: c k)
  case (Cons t ts)
  show ?case
  proof (cases k)
    case 0
    have "clock_run (update_now t c) ts ! 0 = update_now t c" by (cases ts) auto
    then show ?thesis using 0 Cons.prems update_now_adj update_now_tracks [of t c] by (simp add: Let_def)
  next
    case (Suc j)
    then show ?thesis using Cons.IH [of "update_now t c" j] Cons.prems update_now_adj by simp
  qed
qed simp

text \<open>
  C19: the clock \<open>now\<close> never runs backwards, whatever the system clock does,
  and it keeps up with it: after every reading it is at most ten seconds ahead
  of the system time plus the accumulated correction, never behind, and the
  correction never becomes negative.
\<close>

theorem clock_filter:
  assumes "0 \<le> clk_adj c"
  shows "sorted (map clk_now (clock_run c ts))
       \<and> (\<forall>k < length ts. let c' = clock_run c ts ! Suc k
            in 0 \<le> clk_adj c' \<and> clk_now c' - 10 \<le> ts ! k + clk_adj c' \<and> ts ! k + clk_adj c' \<le> clk_now c')"
  using clock_run_sorted clock_run_nth [OF assms] by blast

theorem clock_filter_witness:
  "sorted (map clk_now (clock_run \<lparr>clk_now = 0, clk_adj = 0, clk_usec = 0\<rparr> [1000, 1005, 900, 901, 200000]))"
  using clock_filter [of "\<lparr>clk_now = 0, clk_adj = 0, clk_usec = 0\<rparr>" "[1000, 1005, 900, 901, 200000]"] by simp


section \<open>Sums and differences of times\<close>

definition tv_norm :: "timeval \<Rightarrow> bool" where
  "tv_norm tv \<longleftrightarrow> 0 \<le> tv_usec tv \<and> tv_usec tv < 1000000"

definition tv_total :: "timeval \<Rightarrow> int" where
  "tv_total tv = tv_sec tv * 1000000 + tv_usec tv"

lemma tv_compare:
  assumes "tv_norm a" "tv_norm b"
  shows "tv_lt a b \<longleftrightarrow> tv_total a < tv_total b" "tv_le a b \<longleftrightarrow> tv_total a \<le> tv_total b"
    "tv_gt a b \<longleftrightarrow> tv_total a > tv_total b" "tv_ge a b \<longleftrightarrow> tv_total a \<ge> tv_total b"
  using assms by (auto simp: tv_norm_def tv_total_def tv_lt_def tv_le_def tv_gt_def tv_ge_def)

lemma tv_compare_eq:
  assumes "tv_norm a" "tv_norm b"
  shows "tv_eq a b \<longleftrightarrow> tv_total a = tv_total b"
proof -
  have parts: "tv_usec x = tv_total x mod 1000000" "tv_sec x = tv_total x div 1000000" if "tv_norm x" for x
    using that by (simp_all add: tv_norm_def tv_total_def)
  show ?thesis
  proof
    assume "tv_total a = tv_total b"
    then show "tv_eq a b" unfolding tv_eq_def parts [OF assms(1)] parts [OF assms(2)] by simp
  qed (simp add: tv_eq_def tv_total_def)
qed

text \<open>
  C21: \<open>tv_subtract\<close> is the difference in microseconds, limited to the given number of
  seconds in both directions.
\<close>

theorem tv_subtract_difference:
  assumes "tv_norm a" "tv_norm b" "0 \<le> max_seconds" "max_seconds \<le> 2000"
  shows "tv_subtract a b max_seconds =
           Inr (max (- (max_seconds * 1000000)) (min (tv_total a - tv_total b) (max_seconds * 1000000)))"
proof -
  let ?m = "max_seconds * 1000000" and ?d = "tv_total a - tv_total b"
  have u: "- 1000000 < tv_usec a - tv_usec b" "tv_usec a - tv_usec b < 1000000"
    using assms(1,2) by (auto simp: tv_norm_def)
  have d: "?d = (tv_sec a - tv_sec b) * 1000000 + (tv_usec a - tv_usec b)"
    by (simp add: tv_total_def algebra_simps)
  have i: "i32 ?m = Inr ?m" using assms(3,4) by simp
  consider "tv_sec a - tv_sec b > max_seconds + 10" | "tv_sec a - tv_sec b < - (max_seconds + 10)"
    | "- (max_seconds + 10) \<le> tv_sec a - tv_sec b" "tv_sec a - tv_sec b \<le> max_seconds + 10" by linarith
  then show ?thesis
  proof cases
    case 1
    then have "?d > ?m" unfolding d using u by (simp add: algebra_simps)
    then show ?thesis using 1 i assms(3) by (simp add: tv_subtract_def)
  next
    case 2
    then have "?d < - ?m" unfolding d using u by (simp add: algebra_simps)
    then show ?thesis using 2 i assms(3) by (simp add: tv_subtract_def)
  next
    case 3
    then have "- 2100000000 \<le> ?d \<and> ?d \<le> 2100000000" unfolding d using u assms(4) by (simp add: algebra_simps)
    then have "c_int ?d = ?d" by (intro c_int_id) simp_all
    then have "constrain_int (c_int ?d) (- ?m) ?m = max (- ?m) (min ?d ?m)"
      using assms(3) by (simp add: constrain_int_def)
    then show ?thesis using 3 i unfolding d by (simp add: tv_subtract_def)
  qed
qed

theorem tv_subtract_difference_witness:
  "tv_subtract \<lparr>tv_sec = 7, tv_usec = 100\<rparr> \<lparr>tv_sec = 5, tv_usec = 900000\<rparr> 10 = Inr 1100100"
  using tv_subtract_difference [of "\<lparr>tv_sec = 7, tv_usec = 100\<rparr>" "\<lparr>tv_sec = 5, tv_usec = 900000\<rparr>" 10]
  by (simp add: tv_norm_def tv_total_def)

lemma and_mask20: "x AND 0x000FFFFF = (x :: int) mod 1048576"
proof -
  have "x AND mask 20 = take_bit 20 x" by (simp add: take_bit_eq_mask)
  moreover have "mask 20 = (0x000FFFFF :: int)" by (simp add: mask_eq_exp_minus_1)
  ultimately show ?thesis by (simp add: take_bit_eq_mod)
qed

text \<open>
  C22: \<open>tv_add\<close> splits the sum of the microseconds at 2 to the power of 20, not at a
  million: each such part counts as a second, so the result is too small by 48576
  microseconds for each of them.  The result is normalised, and exact as long as the
  sum of the microseconds stays below 2 to the power of 20.
\<close>

theorem tv_add_inexact:
  assumes "0 \<le> tv_usec a" "0 \<le> tv_usec b"
  shows "tv_norm (tv_add a b)
       \<and> tv_total (tv_add a b) = tv_total a + tv_total b - 48576 * ((tv_usec a + tv_usec b) div 1048576)"
proof -
  define u where "u = tv_usec a + tv_usec b"
  have u: "0 \<le> u" "u = 1048576 * (u div 1048576) + u mod 1048576" "0 \<le> u mod 1048576" "u mod 1048576 < 1048576"
    using assms by (simp_all add: u_def)
  have "drop_bit 20 u = u div 1048576" by (simp add: drop_bit_eq_div)
  then have eq: "tv_add a b = (if u mod 1048576 \<ge> 1000000
      then \<lparr>tv_sec = tv_sec a + tv_sec b + u div 1048576 + 1, tv_usec = u mod 1048576 - 1000000\<rparr>
      else \<lparr>tv_sec = tv_sec a + tv_sec b + u div 1048576, tv_usec = u mod 1048576\<rparr>)"
    by (simp add: tv_add_def Let_def and_mask20 u_def [symmetric])
  have "tv_total a + tv_total b = (tv_sec a + tv_sec b) * 1000000 + u" by (simp add: tv_total_def u_def)
  then show ?thesis unfolding u_def [symmetric] using eq u by (auto simp: tv_norm_def tv_total_def)
qed

theorem tv_add_inexact_witness:
  "tv_total (tv_add \<lparr>tv_sec = 1, tv_usec = 800000\<rparr> \<lparr>tv_sec = 0, tv_usec = 700000\<rparr>) =
     tv_total \<lparr>tv_sec = 1, tv_usec = 800000\<rparr> + 700000 - 48576"
  using tv_add_inexact [of "\<lparr>tv_sec = 1, tv_usec = 800000\<rparr>" "\<lparr>tv_sec = 0, tv_usec = 700000\<rparr>"]
  by (simp add: tv_total_def)


section \<open>The frequency limit\<close>

text \<open>The times of the events that are allowed, of all the events at times \<open>ts\<close>.\<close>

fun frequency_run :: "frequency_limit \<Rightarrow> int list \<Rightarrow> int list cres" where
  "frequency_run f [] = Inr []"
| "frequency_run f (t # ts) =
     bindE (frequency_limit_event_allowed t f) (\<lambda>(ok, f').
     bindE (frequency_run f' ts) (\<lambda>out. Inr (if ok then t # out else out)))"

abbreviation (input) within :: "int \<Rightarrow> int \<Rightarrow> int list \<Rightarrow> int list" where
  "within a per ts \<equiv> filter (\<lambda>t. a \<le> t \<and> t < a + per) ts"

definition fl_left :: "frequency_limit \<Rightarrow> int" where
  "fl_left f = fl_max f - min (fl_n f) (fl_max f)"

lemma frequency_run_subset: "frequency_run f ts = Inr out \<Longrightarrow> set out \<subseteq> set ts"
proof (induction ts arbitrary: f out)
  case (Cons t ts)
  from Cons.prems obtain ok f' o1 where "frequency_run f' ts = Inr o1" "out = (if ok then t # o1 else o1)"
    by (auto elim!: bindE_InrE)
  then show ?case using Cons.IH by (auto split: if_splits)
qed simp

lemma frequency_run_window:
  assumes "frequency_run f ts = Inr out" "sorted ts" "\<forall>t\<in>set ts. a \<le> t"
    and "0 \<le> fl_max f" "0 < fl_per f" "0 \<le> fl_n f"
  shows "int (length (within a (fl_per f) out)) \<le> fl_left f + (if fl_reset f \<ge> a then 0 else fl_max f)"
  using assms
proof (induction ts arbitrary: f out)
  case Nil
  then show ?case by (simp add: fl_left_def)
next
  case (Cons t ts)
  from Cons.prems(1) obtain ok f' o1 where
    s: "frequency_limit_event_allowed t f = Inr (ok, f')" "frequency_run f' ts = Inr o1" "out = (if ok then t # o1 else o1)"
    by (auto elim!: bindE_InrE)
  have left: "0 \<le> fl_left f" by (simp add: fl_left_def)
  have ts: "sorted ts" "\<forall>t'\<in>set ts. a \<le> t'" using Cons.prems(2,3) by simp_all
  show ?case
  proof (cases "t \<ge> a + fl_per f")
    case True
    then have "\<forall>t'\<in>set out. t' \<ge> a + fl_per f"
      using frequency_run_subset [OF Cons.prems(1)] Cons.prems(2) by fastforce
    then have "within a (fl_per f) out = []" by (auto simp: filter_empty_conv)
    then have "length (within a (fl_per f) out) = 0" by simp
    then show ?thesis using left Cons.prems(4) by simp
  next
    case False
    have f': "fl_per f' = fl_per f" "fl_max f' = fl_max f" "0 \<le> fl_n f'"
      using s(1) Cons.prems(5,6) by (auto simp: frequency_limit_event_allowed_def Let_def i32_eq_Inr elim!: bindE_InrE)
    have ih: "int (length (within a (fl_per f) o1)) \<le> fl_left f' + (if fl_reset f' \<ge> a then 0 else fl_max f)"
      using Cons.IH [OF s(2) ts] f' Cons.prems(4,5) by (simp split: if_splits)
    have len: "int (length (within a (fl_per f) out)) = (if ok then 1 else 0) + int (length (within a (fl_per f) o1))"
      using s(3) False Cons.prems(3) by simp
    show ?thesis
    proof (cases "t \<ge> fl_reset f + fl_per f")
      case True
      then have "fl_reset f < a" using False by simp
      moreover have "fl_reset f' = t" "fl_n f' = 1" "ok = (1 \<le> fl_max f)"
        using s(1) Cons.prems(5) True by (auto simp: frequency_limit_event_allowed_def Let_def i32_eq_Inr)
      ultimately show ?thesis using ih len f' left Cons.prems(3,4) by (auto simp: fl_left_def)
    next
      case noreset: False
      have "fl_reset f' = fl_reset f" "fl_n f' = fl_n f + 1" "ok = (fl_n f + 1 \<le> fl_max f)"
        using s(1) Cons.prems(5) noreset by (auto simp: frequency_limit_event_allowed_def Let_def i32_eq_Inr elim!: bindE_InrE)
      then show ?thesis using ih len f' by (auto simp: fl_left_def)
    qed
  qed
qed

lemma frequency_run_bound:
  assumes "frequency_run f ts = Inr out" "sorted ts" "0 \<le> fl_max f" "0 < fl_per f" "0 \<le> fl_n f"
  shows "int (length (within a (fl_per f) out)) \<le> 2 * fl_max f"
  using assms
proof (induction ts arbitrary: f out)
  case Nil
  then show ?case by simp
next
  case (Cons t ts)
  show ?case
  proof (cases "a \<le> t")
    case True
    then have "\<forall>t'\<in>set (t # ts). a \<le> t'" using Cons.prems(2) by auto
    from frequency_run_window [OF Cons.prems(1,2) this Cons.prems(3-5)]
    show ?thesis using Cons.prems(3,5) by (auto simp: fl_left_def split: if_splits)
  next
    case False
    from Cons.prems(1) obtain ok f' o1 where
      s: "frequency_limit_event_allowed t f = Inr (ok, f')" "frequency_run f' ts = Inr o1" "out = (if ok then t # o1 else o1)"
      by (auto elim!: bindE_InrE)
    have "fl_per f' = fl_per f" "fl_max f' = fl_max f" "0 \<le> fl_n f'"
      using s(1) Cons.prems(4,5) by (auto simp: frequency_limit_event_allowed_def Let_def i32_eq_Inr elim!: bindE_InrE)
    then show ?thesis using Cons.IH [OF s(2)] Cons.prems(2,3,4) s(3) False by auto
  qed
qed

text \<open>
  C20: the limit on new connections holds over every window, not only over the periods it
  counts: in any \<open>per\<close> seconds at most twice \<open>max\<close> events are allowed, whenever they
  come.
\<close>

theorem frequency_limit_bounds_bursts:
  assumes "frequency_limit_init mx per = Inr f" "0 < per" "sorted ts" "frequency_run f ts = Inr out"
  shows "int (length (within a per out)) \<le> 2 * mx"
proof -
  have "f = \<lparr>fl_max = mx, fl_per = per, fl_n = 0, fl_reset = 0\<rparr>" "0 \<le> mx"
    using assms(1) by (auto simp: frequency_limit_init_def elim!: bindE_InrE)
  then show ?thesis using frequency_run_bound [OF assms(4,3), of a] assms(2) by simp
qed

theorem frequency_limit_bounds_bursts_witness:
  "\<exists>f. frequency_limit_init 2 10 = Inr f
     \<and> frequency_run f [109, 109, 119, 119, 119] = Inr [109, 109, 119, 119]
     \<and> length (within 110 10 [109, 109, 119, 119 :: int]) \<le> 4"
proof -
  define f where "f = \<lparr>fl_max = 2, fl_per = 10, fl_n = 0, fl_reset = 0\<rparr>"
  have i: "frequency_limit_init 2 10 = Inr f" by (simp add: frequency_limit_init_def f_def)
  have r: "frequency_run f [109, 109, 119, 119, 119] = Inr [109, 109, 119, 119]"
    unfolding f_def by code_simp
  from frequency_limit_bounds_bursts [OF i _ _ r, of 110] i r show ?thesis by simp
qed

end
