(* ===== verification/Fragment.thy ===== *)
theory Fragment
  imports Frame OTime
begin

text \<open>
  Fragmentation (\<open>fragment.h\<close>, \<open>fragment.c\<close>): the header of a fragment, sending a
  datagram in parts and putting the parts together again.  When a datagram is
  complete the caller's buffer refers to the memory of the reassembly
  buffer; the model hands over a copy.
\<close>

section \<open>Data\<close>

record fragment =
  fg_defined :: bool
  fg_max_frag_size :: int
  fg_map :: u32
  fg_timestamp :: int
  fg_buf :: buffer

record fragment_list =
  fl_seq_id :: int
  fl_index :: int
  fl_fragments :: "fragment list"

record fragment_master =
  fm_wakeup :: event_timeout
  fm_outgoing_seq_id :: int
  fm_outgoing_frag_size :: int
  fm_outgoing_frag_id :: int
  fm_outgoing :: buffer
  fm_outgoing_return :: buffer
  fm_incoming :: fragment_list

abbreviation (input) N_FRAG_BUF :: int where "N_FRAG_BUF \<equiv> 25"
abbreviation (input) FRAG_TTL_SEC :: int where "FRAG_TTL_SEC \<equiv> 10"
abbreviation (input) FRAG_WAKEUP_INTERVAL :: int where "FRAG_WAKEUP_INTERVAL \<equiv> 5"
abbreviation (input) N_SEQ_ID :: int where "N_SEQ_ID \<equiv> 256"
abbreviation (input) MAX_FRAGS :: int where "MAX_FRAGS \<equiv> 32"
abbreviation (input) FRAG_MAP_MASK :: u32 where "FRAG_MAP_MASK \<equiv> 0xFFFFFFFF"
abbreviation (input) FRAG_WHOLE :: u32 where "FRAG_WHOLE \<equiv> 0"
abbreviation (input) FRAG_YES_NOTLAST :: u32 where "FRAG_YES_NOTLAST \<equiv> 1"
abbreviation (input) FRAG_YES_LAST :: u32 where "FRAG_YES_LAST \<equiv> 2"
abbreviation (input) FRAG_TYPE_MASK :: u32 where "FRAG_TYPE_MASK \<equiv> 3"
abbreviation (input) FRAG_SEQ_ID_MASK :: u32 where "FRAG_SEQ_ID_MASK \<equiv> 0xff"
abbreviation (input) FRAG_ID_MASK :: u32 where "FRAG_ID_MASK \<equiv> 0x1f"
abbreviation (input) FRAG_SIZE_MASK :: u32 where "FRAG_SIZE_MASK \<equiv> 0x3fff"

definition clear_fragment :: fragment where
  "clear_fragment = \<lparr>fg_defined = False, fg_max_frag_size = 0, fg_map = 0, fg_timestamp = 0, fg_buf = clear_buf\<rparr>"

definition clear_fragment_list :: fragment_list where
  "clear_fragment_list = \<lparr>fl_seq_id = 0, fl_index = 0, fl_fragments = replicate 25 clear_fragment\<rparr>"


section \<open>Set-up\<close>

definition fragment_list_buf_init :: "fragment_list \<Rightarrow> frame \<Rightarrow> fragment_list cres" where
  "fragment_list_buf_init l frame =
     bindE (if BUF_SIZE frame < 0 then Inl Fatal else alloc_buf (nat (BUF_SIZE frame))) (\<lambda>b.
     Inr (l\<lparr>fl_fragments := map (\<lambda>g. g\<lparr>fg_buf := b\<rparr>) (fl_fragments l)\<rparr>))"

definition fragment_list_buf_free :: "fragment_list \<Rightarrow> fragment_list" where
  "fragment_list_buf_free l = l\<lparr>fl_fragments := map (\<lambda>g. g\<lparr>fg_buf := clear_buf\<rparr>) (fl_fragments l)\<rparr>"

text \<open>\<open>random\<close> is the value of \<open>get_random ()\<close>.\<close>

definition fragment_init :: "int \<Rightarrow> int \<Rightarrow> fragment_master" where
  "fragment_init now random =
     \<lparr>fm_wakeup = event_timeout_init FRAG_WAKEUP_INTERVAL now, fm_outgoing_seq_id = random AND (N_SEQ_ID - 1),
      fm_outgoing_frag_size = 0, fm_outgoing_frag_id = 0, fm_outgoing = clear_buf, fm_outgoing_return = clear_buf,
      fm_incoming = clear_fragment_list\<rparr>"

definition fragment_free :: "fragment_master \<Rightarrow> fragment_master" where
  "fragment_free f =
     f\<lparr>fm_incoming := fragment_list_buf_free (fm_incoming f), fm_outgoing := clear_buf, fm_outgoing_return := clear_buf\<rparr>"

definition fragment_frame_init :: "fragment_master \<Rightarrow> frame \<Rightarrow> fragment_master cres" where
  "fragment_frame_init f frame =
     bindE (fragment_list_buf_init (fm_incoming f) frame) (\<lambda>l.
     bindE (if BUF_SIZE frame < 0 then Inl Fatal else alloc_buf (nat (BUF_SIZE frame))) (\<lambda>b1.
     bindE (if BUF_SIZE frame < 0 then Inl Fatal else alloc_buf (nat (BUF_SIZE frame))) (\<lambda>b2.
     Inr (f\<lparr>fm_incoming := l, fm_outgoing := b1, fm_outgoing_return := b2\<rparr>))))"


section \<open>Receiving\<close>

fun frag_advance_loop :: "nat \<Rightarrow> fragment_list \<Rightarrow> fragment_list cres" where
  "frag_advance_loop 0 l = Inr l"
| "frag_advance_loop (Suc k) l =
     bindE (modulo_add (fl_index l) 1 N_FRAG_BUF) (\<lambda>i.
     bindE (arr_get (fl_fragments l) i) (\<lambda>g.
     bindE (arr_set (fl_fragments l) i (g\<lparr>fg_defined := False\<rparr>)) (\<lambda>gs.
     bindE (modulo_add (fl_seq_id l) 1 N_SEQ_ID) (\<lambda>s.
     frag_advance_loop k (l\<lparr>fl_index := i, fl_fragments := gs, fl_seq_id := s\<rparr>)))))"

text \<open>The result is the index of the reassembly structure.\<close>

definition fragment_list_get_buf :: "fragment_list \<Rightarrow> int \<Rightarrow> (int \<times> fragment_list) cres" where
  "fragment_list_get_buf l seq_id =
     bindE (modulo_subtract seq_id (fl_seq_id l) N_SEQ_ID) (\<lambda>diff0.
     let (diff, l1) =
       (if \<bar>diff0\<bar> \<ge> N_FRAG_BUF
        then (0, l\<lparr>fl_fragments := map (\<lambda>g. g\<lparr>fg_defined := False\<rparr>) (fl_fragments l), fl_index := 0, fl_seq_id := seq_id\<rparr>)
        else (diff0, l))
     in bindE (frag_advance_loop (nat diff) l1) (\<lambda>l2.
        bindE (modulo_add (fl_index l2) (if diff > 0 then 0 else diff) N_FRAG_BUF) (\<lambda>i. Inr (i, l2))))"

text \<open>The part of \<open>fragment_incoming\<close> for one fragment: the structure and the caller's buffer.\<close>

definition frag_store ::
    "int \<Rightarrow> int \<Rightarrow> fragment \<Rightarrow> buffer \<Rightarrow> bool \<Rightarrow> int \<Rightarrow> int \<Rightarrow> (fragment \<times> buffer) cres" where
  "frag_store now hr frag buf last_frag n sz =
     bindE (if \<not> fg_defined frag \<or> fg_max_frag_size frag \<noteq> sz
            then (case buf_init_dowork (fg_buf frag) hr of
                    (ok, b) \<Rightarrow> bindE (c_assert ok) (\<lambda>_.
                       Inr (frag\<lparr>fg_defined := True, fg_max_frag_size := sz, fg_map := 0, fg_buf := b\<rparr>)))
            else Inr frag) (\<lambda>frag1.
     bindE (buf_copy_range (fg_buf frag1) (n * sz) buf 0 (b_len buf)) (\<lambda>(ok, b).
     let frag2 = frag1\<lparr>fg_buf := b\<rparr>
     in if \<not> ok then Inr (frag2, buf\<lparr>b_len := 0\<rparr>)
        else let frag3 = frag2\<lparr>fg_map := fg_map frag2 OR push_bit (nat n) (if last_frag then FRAG_MAP_MASK else 1),
                               fg_timestamp := now\<rparr>
             in if fg_map frag3 AND FRAG_MAP_MASK = FRAG_MAP_MASK
                then Inr (frag3\<lparr>fg_defined := False\<rparr>, fg_buf frag3)
                else Inr (frag3, buf\<lparr>b_len := 0\<rparr>)))"

definition fragment_incoming ::
    "int \<Rightarrow> frame \<Rightarrow> fragment_master \<Rightarrow> buffer \<Rightarrow> (fragment_master \<times> buffer) cres" where
  "fragment_incoming now frame f buf =
     (if b_len buf > 0
      then bindE (buf_read buf 4) (\<lambda>(r, buf1).
           case r of
             None \<Rightarrow> Inr (f, buf1\<lparr>b_len := 0\<rparr>)
           | Some bs \<Rightarrow>
               (let flags = un_be32 bs; frag_type = flags AND FRAG_TYPE_MASK
                in if frag_type = FRAG_WHOLE
                   then (if flags AND (FRAG_SEQ_ID_MASK OR FRAG_ID_MASK) \<noteq> 0 then Inr (f, buf1\<lparr>b_len := 0\<rparr>)
                         else Inr (f, buf1))
                   else if frag_type = FRAG_YES_NOTLAST \<or> frag_type = FRAG_YES_LAST
                   then let seq_id = uint (drop_bit 2 flags AND FRAG_SEQ_ID_MASK);
                            n = uint (drop_bit 10 flags AND FRAG_ID_MASK);
                            sz = (if frag_type = FRAG_YES_LAST
                                    then uint (push_bit 2 (drop_bit 15 flags AND FRAG_SIZE_MASK))
                                    else b_len buf1)
                        in bindE (fragment_list_get_buf (fm_incoming f) seq_id) (\<lambda>(i, l).
                           if sz AND 3 \<noteq> 0 then Inr (f\<lparr>fm_incoming := l\<rparr>, buf1\<lparr>b_len := 0\<rparr>)
                           else bindE (arr_get (fl_fragments l) i) (\<lambda>frag.
                                bindE (frag_store now (fr_headroom frame) frag buf1 (frag_type = FRAG_YES_LAST) n sz) (\<lambda>(frag', buf').
                                bindE (arr_set (fl_fragments l) i frag') (\<lambda>gs.
                                Inr (f\<lparr>fm_incoming := l\<lparr>fl_fragments := gs\<rparr>\<rparr>, buf')))))
                   else Inr (f, buf1\<lparr>b_len := 0\<rparr>)))
      else Inr (f, buf))"


section \<open>Sending\<close>

definition frag_flags :: "u32 \<Rightarrow> int \<Rightarrow> int \<Rightarrow> int \<Rightarrow> u32" where
  "frag_flags type seq_id frag_id frag_size =
     (type AND FRAG_TYPE_MASK)
     OR push_bit 2 (word_of_int seq_id AND FRAG_SEQ_ID_MASK)
     OR push_bit 10 (word_of_int frag_id AND FRAG_ID_MASK)
     OR (if type = FRAG_WHOLE \<or> type = FRAG_YES_NOTLAST then 0
         else push_bit 15 (word_of_int (drop_bit 2 frag_size) AND FRAG_SIZE_MASK))"

definition fragment_prepend_flags :: "buffer \<Rightarrow> u32 \<Rightarrow> int \<Rightarrow> int \<Rightarrow> int \<Rightarrow> buffer cres" where
  "fragment_prepend_flags buf type seq_id frag_id frag_size =
     bindE (buf_write_prepend buf (be32 (frag_flags type seq_id frag_id frag_size))) (\<lambda>(ok, b).
     bindE (c_assert ok) (\<lambda>_. Inr b))"

definition optimal_fragment_size :: "int \<Rightarrow> int \<Rightarrow> int cres" where
  "optimal_fragment_size len max_frag_size =
     (let mfs_aligned = max_frag_size AND NOT 3
      in bindE (c_div len mfs_aligned) (\<lambda>d.
         bindE (c_mod len mfs_aligned) (\<lambda>m.
         if d > 0 \<and> m > 0
         then bindE (i32 (mfs_aligned * 3)) (\<lambda>m3.
              bindE (c_div m3 4) (\<lambda>q.
              if m < q
              then bindE (c_div (max_frag_size - m) (d + 1)) (\<lambda>cut.
                   Inr (min_int mfs_aligned ((max_frag_size - cut + 3) AND NOT 3)))
              else Inr mfs_aligned))
         else Inr mfs_aligned)))"

definition fragment_outgoing_defined :: "fragment_master \<Rightarrow> bool" where
  "fragment_outgoing_defined f \<longleftrightarrow> b_len (fm_outgoing f) > 0"

definition fragment_ready_to_send ::
    "frame \<Rightarrow> fragment_master \<Rightarrow> buffer \<Rightarrow> (bool \<times> fragment_master \<times> buffer) cres" where
  "fragment_ready_to_send frame f buf =
     (if fragment_outgoing_defined f
      then let last_frag = (b_len (fm_outgoing f) \<le> fm_outgoing_frag_size f);
               sz = (if last_frag then b_len (fm_outgoing f) else fm_outgoing_frag_size f)
           in case buf_init_dowork (fm_outgoing_return f) (fr_headroom frame) of
                (ok, b0) \<Rightarrow>
                  bindE (c_assert ok) (\<lambda>_.
                  bindE (buf_copy_n b0 (fm_outgoing f) sz) (\<lambda>(ok1, b1, out).
                  bindE (c_assert ok1) (\<lambda>_.
                  bindE (fragment_prepend_flags b1 (if last_frag then FRAG_YES_LAST else FRAG_YES_NOTLAST)
                           (fm_outgoing_seq_id f) (fm_outgoing_frag_id f) (fm_outgoing_frag_size f)) (\<lambda>b2.
                  bindE (c_assert (\<not> last_frag \<or> b_len out = 0)) (\<lambda>_.
                  Inr (True, f\<lparr>fm_outgoing := out, fm_outgoing_frag_id := fm_outgoing_frag_id f + 1\<rparr>, b2))))))
      else Inr (False, f, buf))"

definition fragment_outgoing ::
    "frame \<Rightarrow> fragment_master \<Rightarrow> buffer \<Rightarrow> (fragment_master \<times> buffer) cres" where
  "fragment_outgoing frame f buf =
     (if b_len buf > 0
      then (if b_len buf > fr_max_fragment_size frame
            then bindE (optimal_fragment_size (b_len buf) (fr_max_fragment_size frame)) (\<lambda>sz.
                 bindE (i32 (sz * MAX_FRAGS)) (\<lambda>total.
                 let f1 = f\<lparr>fm_outgoing_frag_size := sz\<rparr>
                 in if b_len buf > total then Inr (f1, buf\<lparr>b_len := 0\<rparr>)
                    else case buf_init_dowork (fm_outgoing f1) (fr_headroom frame) of
                           (ok, out0) \<Rightarrow>
                             bindE (c_assert ok) (\<lambda>_.
                             bindE (buf_copy out0 buf) (\<lambda>(ok1, out1).
                             bindE (c_assert ok1) (\<lambda>_.
                             bindE (modulo_add (fm_outgoing_seq_id f1) 1 N_SEQ_ID) (\<lambda>seq.
                             bindE (fragment_ready_to_send frame
                                      (f1\<lparr>fm_outgoing := out1, fm_outgoing_seq_id := seq, fm_outgoing_frag_id := 0\<rparr>)
                                      (buf\<lparr>b_len := 0\<rparr>)) (\<lambda>(ok2, f2, buf2).
                             bindE (c_assert ok2) (\<lambda>_. Inr (f2, buf2)))))))))
            else bindE (fragment_prepend_flags buf FRAG_WHOLE 0 0 0) (\<lambda>b. Inr (f, b)))
      else Inr (f, buf))"


section \<open>Housekeeping\<close>

definition fragment_ttl_reap :: "int \<Rightarrow> fragment_master \<Rightarrow> fragment_master" where
  "fragment_ttl_reap now f =
     f\<lparr>fm_incoming := (fm_incoming f)\<lparr>fl_fragments :=
         map (\<lambda>g. if fg_defined g \<and> fg_timestamp g + FRAG_TTL_SEC \<le> now then g\<lparr>fg_defined := False\<rparr> else g)
           (fl_fragments (fm_incoming f))\<rparr>\<rparr>"

definition fragment_wakeup :: "int \<Rightarrow> fragment_master \<Rightarrow> fragment_master" where
  "fragment_wakeup now f = fragment_ttl_reap now f"

definition fragment_housekeeping ::
    "int \<Rightarrow> fragment_master \<Rightarrow> timeval option \<Rightarrow> fragment_master \<times> timeval option" where
  "fragment_housekeeping now f tv =
     (case event_timeout_trigger now (fm_wakeup f) tv (- 1) of
        (fire, et, tv') \<Rightarrow>
          let f1 = f\<lparr>fm_wakeup := et\<rparr> in (if fire then fragment_wakeup now f1 else f1, tv'))"

end
