(* ===== verification/FragmentThm.thy ===== *)
theory FragmentThm
  imports Fragment
begin

text \<open>
  A datagram that is sent in fragments is put together again by the receiver,
  whatever the order in which its fragments arrive and however often.
\<close>

section \<open>The header of a fragment\<close>

lemma mask_values:
  "(3 :: u32) = mask 2" "(0xff :: u32) = mask 8" "(0x1f :: u32) = mask 5" "(0x3fff :: u32) = mask 14"
  by (simp_all add: mask_eq_exp_minus_1)

definition pack :: "u32 \<Rightarrow> u32 \<Rightarrow> u32 \<Rightarrow> u32 \<Rightarrow> u32" where
  "pack a b c d = (a AND mask 2) OR push_bit 2 (b AND mask 8) OR push_bit 10 (c AND mask 5) OR push_bit 15 (d AND mask 14)"

lemma unpack:
  "pack a b c d AND mask 2 = a AND mask 2"
  "drop_bit 2 (pack a b c d) AND mask 8 = b AND mask 8"
  "drop_bit 10 (pack a b c d) AND mask 5 = c AND mask 5"
  "drop_bit 15 (pack a b c d) AND mask 14 = d AND mask 14"
  by (rule bit_word_eqI; auto simp: pack_def bit_simps)+

lemma frag_flags_pack:
  "frag_flags ty seq_id frag_id sz =
     pack ty (word_of_int seq_id) (word_of_int frag_id)
       (if ty = FRAG_WHOLE \<or> ty = FRAG_YES_NOTLAST then 0 else word_of_int (drop_bit 2 sz))"
  by (simp add: frag_flags_def pack_def mask_values)

lemma uint_and_mask: "0 \<le> x \<Longrightarrow> x < 2 ^ n \<Longrightarrow> n \<le> 32 \<Longrightarrow> uint ((word_of_int x :: u32) AND mask n) = x"
proof -
  assume x: "0 \<le> x" "x < 2 ^ n" "n \<le> 32"
  have "(2 :: int) ^ n \<le> 2 ^ 32" using x(3) by (intro power_increasing) auto
  then have "uint (word_of_int x :: u32) = x" using x by (simp add: uint_word_of_int_eq take_bit_int_eq_self)
  moreover have "uint ((word_of_int x :: u32) AND mask n) = take_bit n (uint (word_of_int x :: u32))"
    by (simp add: take_bit_eq_mask [symmetric] unsigned_take_bit_eq)
  ultimately show ?thesis using x by (simp add: take_bit_int_eq_self)
qed

lemma frag_flags_fields:
  assumes "ty = 1 \<or> ty = 2" "0 \<le> seq_id" "seq_id < 256" "0 \<le> frag_id" "frag_id < 32"
  shows "frag_flags ty seq_id frag_id sz AND 3 = ty"
    "uint (drop_bit 2 (frag_flags ty seq_id frag_id sz) AND 0xff) = seq_id"
    "uint (drop_bit 10 (frag_flags ty seq_id frag_id sz) AND 0x1f) = frag_id"
proof -
  show "frag_flags ty seq_id frag_id sz AND 3 = ty"
    unfolding frag_flags_pack mask_values unpack using assms(1) by (auto simp: mask_eq_exp_minus_1)
  show "uint (drop_bit 2 (frag_flags ty seq_id frag_id sz) AND 0xff) = seq_id"
    unfolding frag_flags_pack mask_values unpack using assms(2,3) by (intro uint_and_mask) simp_all
  show "uint (drop_bit 10 (frag_flags ty seq_id frag_id sz) AND 0x1f) = frag_id"
    unfolding frag_flags_pack mask_values unpack using assms(4,5) by (intro uint_and_mask) simp_all
qed

lemma frag_flags_size:
  assumes "0 \<le> sz" "sz < 65536" "sz mod 4 = 0"
  shows "uint (push_bit 2 (drop_bit 15 (frag_flags 2 seq_id frag_id sz) AND 0x3fff)) = sz"
proof -
  have d: "drop_bit 2 sz = sz div 4" by (simp add: drop_bit_eq_div)
  have w: "uint (drop_bit 15 (frag_flags 2 seq_id frag_id sz) AND 0x3fff) = sz div 4"
    unfolding frag_flags_pack mask_values unpack d using assms(1,2) by (simp, intro uint_and_mask) simp_all
  then have "uint (push_bit 2 (drop_bit 15 (frag_flags 2 seq_id frag_id sz) AND 0x3fff)) = (4 * (sz div 4)) mod 2 ^ 32"
    by (simp add: push_bit_eq_mult uint_word_ariths mult.commute)
  also have "\<dots> = 4 * (sz div 4)" using assms(1,2) by (intro mod_pos_pos_trivial) auto
  also have "\<dots> = sz" using assms(3) by presburger
  finally show ?thesis .
qed


section \<open>The parts of a datagram\<close>

definition chunk :: "nat \<Rightarrow> 'a list \<Rightarrow> nat \<Rightarrow> 'a list" where
  "chunk S d j = take S (drop (j * S) d)"

definition chunk_end :: "nat \<Rightarrow> 'a list \<Rightarrow> nat \<Rightarrow> nat" where
  "chunk_end S d j = min (Suc j * S) (length d)"

definition n_chunks :: "nat \<Rightarrow> 'a list \<Rightarrow> nat" where
  "n_chunks S d = (length d + S - 1) div S"

lemma n_chunks_bounds:
  assumes "0 < S" "d \<noteq> []"
  shows "0 < n_chunks S d" "length d \<le> n_chunks S d * S" "(n_chunks S d - 1) * S < length d"
proof -
  let ?m = "n_chunks S d"
  have l: "0 < length d" using assms(2) by simp
  have b: "?m * S \<le> length d + S - 1" "length d + S - 1 < ?m * S + S"
    using assms(1) dividend_less_div_times [of S "length d + S - 1"] by (simp_all add: n_chunks_def)
  then show le: "length d \<le> ?m * S" using l by linarith
  have "(?m - 1) * S = ?m * S - S" by (simp add: diff_mult_distrib)
  then show "(?m - 1) * S < length d" using b l assms(1) by linarith
  show "0 < ?m" using le l by (cases ?m) auto
qed

lemma chunk_index:
  assumes "0 < S" "j < n_chunks S d" "d \<noteq> []"
  shows "j * S < length d"
proof -
  have "j \<le> n_chunks S d - 1" using assms(2) by simp
  then have "j * S \<le> (n_chunks S d - 1) * S" by simp
  then show ?thesis using n_chunks_bounds(3) [OF assms(1,3)] by linarith
qed

lemma length_chunk: "0 < S \<Longrightarrow> j < n_chunks S d \<Longrightarrow> d \<noteq> [] \<Longrightarrow> j * S + length (chunk S d j) = chunk_end S d j"
  using chunk_index [of S j d] by (auto simp: chunk_def chunk_end_def)

lemma chunk_full: "0 < S \<Longrightarrow> Suc j < n_chunks S d \<Longrightarrow> d \<noteq> [] \<Longrightarrow> length (chunk S d j) = S"
proof -
  assume a: "0 < S" "Suc j < n_chunks S d" "d \<noteq> []"
  have "Suc j * S < length d" using chunk_index [OF a] .
  then show ?thesis by (simp add: chunk_def)
qed

lemma chunk_end_last: "0 < S \<Longrightarrow> d \<noteq> [] \<Longrightarrow> chunk_end S d (n_chunks S d - 1) = length d"
  using n_chunks_bounds(1,2) [of S d] by (simp add: chunk_end_def)


section \<open>One reassembly structure\<close>

text \<open>Its buffer can be used: it is well formed and has the right size.\<close>

definition slot_buf :: "int \<Rightarrow> fragment \<Rightarrow> bool" where
  "slot_buf cap g \<longleftrightarrow> buf_wf (fg_buf g) \<and> b_capacity (fg_buf g) = cap"

definition recv_end :: "nat \<Rightarrow> u8 list \<Rightarrow> nat set \<Rightarrow> nat" where
  "recv_end S d J = Max (insert 0 (chunk_end S d ` J))"

text \<open>The parts \<open>J\<close> of the datagram \<open>d\<close> have arrived, but not all.\<close>

definition holds_parts :: "nat \<Rightarrow> nat \<Rightarrow> u8 list \<Rightarrow> fragment \<Rightarrow> nat set \<Rightarrow> bool" where
  "holds_parts hr S d g J \<longleftrightarrow>
     fg_defined g \<and> fg_max_frag_size g = int S
     \<and> b_offset (fg_buf g) = int hr \<and> b_len (fg_buf g) = int (recv_end S d J)
     \<and> (\<forall>i < 32. bit (fg_map g) i \<longleftrightarrow> i \<in> J \<or> n_chunks S d - 1 \<in> J \<and> n_chunks S d - 1 \<le> i)
     \<and> (\<forall>p < length d. p div S \<in> J \<longrightarrow> the (b_data (fg_buf g)) ! (hr + p) = d ! p)"

definition slot_state :: "nat \<Rightarrow> int \<Rightarrow> nat \<Rightarrow> u8 list \<Rightarrow> fragment \<Rightarrow> nat set \<Rightarrow> bool" where
  "slot_state hr cap S d g J \<longleftrightarrow> slot_buf cap g \<and> J \<subset> {..<n_chunks S d}
     \<and> (if J = {} then \<not> fg_defined g \<or> fg_max_frag_size g \<noteq> int S \<or> holds_parts hr S d g J else holds_parts hr S d g J)"

lemma all_bits_u32: "(w :: u32) AND 0xFFFFFFFF = 0xFFFFFFFF \<longleftrightarrow> (\<forall>i < 32. bit w i)"
proof -
  have m: "(0xFFFFFFFF :: u32) = - 1" by simp
  have "w = - 1 \<longleftrightarrow> (\<forall>i < 32. bit w i)"
  proof
    assume "\<forall>i < 32. bit w i"
    then show "w = - 1" by (intro bit_word_eqI) simp
  qed simp
  then show ?thesis unfolding m by simp
qed

lemma map_bits:
  assumes "n < 32" "i < 32"
  shows "bit (w OR push_bit n (if l then 0xFFFFFFFF else 1) :: u32) i \<longleftrightarrow> bit w i \<or> (if l then n \<le> i else n = i)"
proof -
  have m: "(0xFFFFFFFF :: u32) = - 1" by simp
  show ?thesis unfolding m using assms by (auto simp: bit_simps)
qed

lemma recv_end_insert: "finite J \<Longrightarrow> recv_end S d (insert j J) = max (recv_end S d J) (chunk_end S d j)"
  unfolding recv_end_def by (simp add: insert_commute max.commute Max_insert [symmetric] del: Max_insert)

lemma recv_end_le: "finite J \<Longrightarrow> recv_end S d J \<le> length d"
  by (auto simp: recv_end_def chunk_end_def)

lemma recv_end_all: "0 < S \<Longrightarrow> d \<noteq> [] \<Longrightarrow> recv_end S d {..<n_chunks S d} = length d"
proof -
  assume a: "0 < S" "d \<noteq> []"
  have "chunk_end S d (n_chunks S d - 1) \<in> insert 0 (chunk_end S d ` {..<n_chunks S d})"
    using n_chunks_bounds(1) [OF a] by auto
  then have "length d \<le> recv_end S d {..<n_chunks S d}"
    unfolding recv_end_def chunk_end_last [OF a] by (intro Max_ge) auto
  then show ?thesis using recv_end_le [of "{..<n_chunks S d}" S d] by simp
qed

lemma chunk_nth:
  assumes "0 < S" "p < length d" "p div S = j"
  shows "p - j * S < length (chunk S d j)" "chunk S d j ! (p - j * S) = d ! p" "j * S \<le> p" "p < j * S + length (chunk S d j)"
proof -
  have e: "p = j * S + p mod S" "p mod S < S" using assms(1,3) by auto
  then show *: "p - j * S < length (chunk S d j)" "j * S \<le> p" using assms(2) by (auto simp: chunk_def)
  show "chunk S d j ! (p - j * S) = d ! p" using * e assms(2) by (simp add: chunk_def)
  show "p < j * S + length (chunk S d j)" using * by simp
qed

lemma chunk_nth_only:
  assumes "0 < S" "p < length d" "j * S \<le> p" "p < j * S + length (chunk S d j)"
  shows "p div S = j"
proof -
  have "p < j * S + S" using assms(4) by (simp add: chunk_def)
  then show ?thesis using assms(1,3) by (intro div_nat_eqI) (simp_all add: algebra_simps)
qed

text \<open>Opening the structure for a new datagram.\<close>

lemma slot_open:
  assumes "slot_state hr cap S d g J" "int hr \<le> cap"
  shows "\<exists>g1. (if \<not> fg_defined g \<or> fg_max_frag_size g \<noteq> int S
            then (case buf_init_dowork (fg_buf g) (int hr) of
                    (ok, b) \<Rightarrow> bindE (c_assert ok) (\<lambda>_.
                       Inr (g\<lparr>fg_defined := True, fg_max_frag_size := int S, fg_map := 0, fg_buf := b\<rparr>)))
            else Inr g) = Inr g1
          \<and> slot_buf cap g1 \<and> holds_parts hr S d g1 J"
proof (cases "\<not> fg_defined g \<or> fg_max_frag_size g \<noteq> int S")
  case True
  then have J: "J = {}" using assms(1) by (auto simp: slot_state_def holds_parts_def split: if_splits)
  have b: "buf_wf (fg_buf g)" "b_capacity (fg_buf g) = cap" using assms(1) by (auto simp: slot_state_def slot_buf_def)
  have off: "int hr \<le> b_capacity (fg_buf g)" using assms(2) b(2) by simp
  from buf_init_ok [OF b(1) _ off] obtain b' where b': "buf_init_dowork (fg_buf g) (int hr) = (True, b')" "buf_wf b'"
    "content b' = []" "headroom b' = hr" "b_capacity b' = cap" using b(2) by auto
  have "b_len b' = 0" "b_offset b' = int hr"
    using b' buf_wf_lenI [OF b'(2)] by (auto simp: headroom_def elim!: buf_wfE)
  then show ?thesis using True b' J by (auto simp: slot_buf_def holds_parts_def recv_end_def)
next
  case False
  then show ?thesis using assms(1) by (auto simp: slot_state_def split: if_splits)
qed


lemma buf_copy_range_ok:
  assumes d: "buf_wf dest" and s: "buf_wf src"
    and fit: "b_offset dest + int k + b_len src \<le> b_capacity dest"
  shows "\<exists>dest'. buf_copy_range dest (int k) src 0 (b_len src) = Inr (True, dest') \<and> buf_wf dest'
           \<and> b_capacity dest' = b_capacity dest \<and> b_offset dest' = b_offset dest
           \<and> b_len dest' = max (b_len dest) (int k + b_len src)
           \<and> the (b_data dest') = patch (the (b_data dest)) (nat (b_offset dest) + k) (content src)"
proof -
  obtain m where m: "b_data dest = Some m" "int (length m) = b_capacity dest" "b_capacity dest < 1000000"
    "0 \<le> b_offset dest" "0 \<le> b_len dest" "b_offset dest + b_len dest \<le> b_capacity dest"
    using d by (rule buf_wfE)
  obtain sm where sm: "b_data src = Some sm" "int (length sm) = b_capacity src" "0 \<le> b_offset src" "0 \<le> b_len src"
    "b_offset src + b_len src \<le> b_capacity src"
    using s by (rule buf_wfE)
  have len: "int (length (content src)) = b_len src" using buf_wf_lenI [OF s] by simp
  have rd: "mem_read (b_data src) (b_offset src + 0) (b_len src) = Inr (content src)"
    using sm by (simp add: content_def)
  let ?m = "patch m (nat (b_offset dest) + k) (content src)"
  have nn: "nat (b_offset dest + int k) = nat (b_offset dest) + k" using m(4) by (simp add: nat_add_distrib)
  have wr: "mem_write (b_data dest) (b_offset dest + int k) (content src) = Inr (Some ?m)"
    using m fit len by (simp add: nn)
  have lm: "length ?m = length m" using m fit len by (intro length_patch) linarith
  let ?dest = "if int k + b_len src > b_len dest then dest\<lparr>b_data := Some ?m, b_len := int k + b_len src\<rparr>
    else dest\<lparr>b_data := Some ?m\<rparr>"
  have "buf_copy_range dest (int k) src 0 (b_len src) = Inr (True, ?dest)"
    using rd wr fit sm(4) by (simp add: buf_copy_range_def buf_poke_def)
  moreover have "buf_wf ?dest" using m lm fit by (auto intro!: buf_wfI [where m = ?m])
  ultimately show ?thesis using m(1) by (intro exI [of _ ?dest]) auto
qed

lemma frag_store_ok:
  assumes st: "slot_state hr cap S d g J" and S: "0 < S" "d \<noteq> []" "n_chunks S d \<le> 32"
    and cap: "int hr + int (length d) \<le> cap"
    and j: "j < n_chunks S d" and buf: "buf_wf buf" "content buf = chunk S d j"
  shows "\<exists>g' buf'. frag_store now (int hr) g buf (j = n_chunks S d - 1) (int j) (int S) = Inr (g', buf') \<and> slot_buf cap g'
           \<and> (if insert j J = {..<n_chunks S d} then \<not> fg_defined g' \<and> buf_wf buf' \<and> content buf' = d
              else slot_state hr cap S d g' (insert j J) \<and> b_len buf' = 0)"
proof -
  let ?m = "n_chunks S d" and ?J = "insert j J"
  have JJ: "J \<subset> {..<?m}" "finite J" using st by (auto simp: slot_state_def intro: finite_subset [of J "{..<?m}"])
  have "int hr \<le> cap" using cap by simp
  from slot_open [OF st this] obtain g1 where g1: "slot_buf cap g1" "holds_parts hr S d g1 J" and
    op: "(if \<not> fg_defined g \<or> fg_max_frag_size g \<noteq> int S
            then (case buf_init_dowork (fg_buf g) (int hr) of
                    (ok, b) \<Rightarrow> bindE (c_assert ok) (\<lambda>_.
                       Inr (g\<lparr>fg_defined := True, fg_max_frag_size := int S, fg_map := 0, fg_buf := b\<rparr>)))
            else Inr g) = Inr g1" by (elim exE conjE) (rule that)
  have wf: "buf_wf (fg_buf g1)" "b_capacity (fg_buf g1) = cap" "b_offset (fg_buf g1) = int hr"
    "b_len (fg_buf g1) = int (recv_end S d J)" using g1 by (auto simp: slot_buf_def holds_parts_def)
  have bl: "b_len buf = int (length (chunk S d j))" using buf_wf_lenI [OF buf(1)] buf(2) by simp
  have ce: "j * S + length (chunk S d j) = chunk_end S d j" by (rule length_chunk [OF S(1) j S(2)])
  have "int (j * S + length (chunk S d j)) \<le> int (length d)" unfolding ce by (simp add: chunk_end_def)
  then have "b_offset (fg_buf g1) + int (j * S) + b_len buf \<le> b_capacity (fg_buf g1)"
    using cap wf bl by linarith
  from buf_copy_range_ok [OF wf(1) buf(1) this] obtain b where
    b: "buf_copy_range (fg_buf g1) (int j * int S) buf 0 (b_len buf) = Inr (True, b)" "buf_wf b" "b_capacity b = cap"
    "b_offset b = int hr" "b_len b = max (b_len (fg_buf g1)) (int (j * S) + b_len buf)"
    "the (b_data b) = patch (the (b_data (fg_buf g1))) (nat (b_offset (fg_buf g1)) + j * S) (content buf)"
    using wf by auto
  have "int (j * S) + b_len buf = int (chunk_end S d j)" unfolding ce [symmetric] bl by simp
  then have blen: "b_len b = int (recv_end S d ?J)"
    unfolding b(5) wf(4) recv_end_insert [OF JJ(2)] by (simp add: of_nat_max)
  define mp where "mp = fg_map g1 OR push_bit j (if j = ?m - 1 then 0xFFFFFFFF else 1)"
  have j32: "j < 32" using j S(3) by simp
  have bits: "\<forall>i < 32. bit mp i \<longleftrightarrow> i \<in> ?J \<or> ?m - 1 \<in> ?J \<and> ?m - 1 \<le> i"
    using g1(2) map_bits [OF j32] by (auto simp: mp_def holds_parts_def)
  have bytes: "\<forall>p < length d. p div S \<in> ?J \<longrightarrow> the (b_data b) ! (hr + p) = d ! p"
  proof (intro allI impI)
    fix p assume p: "p < length d" "p div S \<in> ?J"
    obtain mm where mm: "b_data (fg_buf g1) = Some mm" "int (length mm) = cap" using wf(1,2) by (auto elim: buf_wfE)
    have fit: "hr + j * S + length (chunk S d j) \<le> length mm" "hr + p < length mm"
      using mm(2) cap ce p(1) by (auto simp: chunk_end_def)
    have at: "the (b_data b) ! (hr + p) = (if j * S \<le> p \<and> p < j * S + length (chunk S d j) then chunk S d j ! (p - j * S) else mm ! (hr + p))"
      using b(6) wf(3) mm(1) buf(2) nth_patch [OF fit] by simp
    show "the (b_data b) ! (hr + p) = d ! p"
    proof (cases "p div S = j")
      case True
      then show ?thesis using at chunk_nth [OF S(1) p(1) True] by simp
    next
      case False
      then have "\<not> (j * S \<le> p \<and> p < j * S + length (chunk S d j))" using chunk_nth_only [OF S(1) p(1)] by blast
      then show ?thesis using at False p g1(2) mm(1) by (auto simp: holds_parts_def)
    qed
  qed
  let ?g = "g1\<lparr>fg_buf := b, fg_map := mp, fg_timestamp := now\<rparr>"
  have full: "mp AND 0xFFFFFFFF = 0xFFFFFFFF \<longleftrightarrow> ?J = {..<?m}"
    unfolding all_bits_u32
  proof
    have m0: "0 < ?m" by (rule n_chunks_bounds(1) [OF S(1,2)])
    assume all: "\<forall>i < 32. bit mp i"
    then have have_bit: "i \<in> ?J \<or> ?m - 1 \<in> ?J \<and> ?m - 1 \<le> i" if "i < 32" for i using that bits by blast
    have "?m - 1 < 32" using S(3) m0 by linarith
    from have_bit [OF this] have "?m - 1 \<in> ?J" by blast
    moreover have "i \<in> ?J" if "i < ?m - 1" for i
    proof -
      have "i < 32" "\<not> ?m - 1 \<le> i" using that S(3) by linarith+
      then show ?thesis using have_bit by blast
    qed
    ultimately have "{..<?m} \<subseteq> ?J" using m0 by (metis Suc_pred' lessThan_iff less_Suc_eq subsetI)
    then show "?J = {..<?m}" using JJ(1) j by auto
  next
    assume "?J = {..<?m}"
    then show "\<forall>i < 32. bit mp i" using bits n_chunks_bounds(1) [OF S(1,2)] by auto
  qed
  have run: "frag_store now (int hr) g buf (j = ?m - 1) (int j) (int S) =
      (if mp AND 0xFFFFFFFF = 0xFFFFFFFF then Inr (?g\<lparr>fg_defined := False\<rparr>, b) else Inr (?g, buf\<lparr>b_len := 0\<rparr>))"
    unfolding frag_store_def op bindE_Inr b(1) by (simp add: Let_def mp_def)
  show ?thesis
  proof (cases "?J = {..<?m}")
    case True
    obtain mb where mb: "b_data b = Some mb" "int (length mb) = cap" using b(2,3) by (auto elim: buf_wfE)
    have len: "b_len b = int (length d)" using blen True recv_end_all [OF S(1,2)] by simp
    have lb: "hr + length d \<le> length mb" using mb(2) cap by simp
    have "p div S \<in> {..<?m}" if "p < length d" for p
      using that n_chunks_bounds(2) [OF S(1,2)] by (simp add: less_mult_imp_div_less)
    then have "content b = d"
      using bytes True mb(1) len b(4) lb by (intro nth_equalityI) (auto simp: content_def)
    then show ?thesis using run full True b by (auto simp: slot_buf_def)
  next
    case False
    then have "slot_state hr cap S d ?g ?J"
      using g1(2) b blen bits bytes JJ(1) j by (auto simp: slot_state_def slot_buf_def holds_parts_def)
    then show ?thesis using run full False b by (auto simp: slot_buf_def)
  qed
qed


section \<open>The list of reassembly structures\<close>

definition list_wf :: "int \<Rightarrow> fragment_list \<Rightarrow> bool" where
  "list_wf cap l \<longleftrightarrow> length (fl_fragments l) = 25 \<and> 0 \<le> fl_index l \<and> fl_index l < 25
     \<and> 0 \<le> fl_seq_id l \<and> fl_seq_id l < 256 \<and> (\<forall>g\<in>set (fl_fragments l). slot_buf cap g)"

lemma slot_buf_undef [simp]: "slot_buf cap (g\<lparr>fg_defined := x\<rparr>) = slot_buf cap g"
  by (simp add: slot_buf_def)

lemma list_wf_upd:
  assumes "list_wf cap l" "slot_buf cap g"
  shows "list_wf cap (l\<lparr>fl_fragments := (fl_fragments l)[i := g]\<rparr>)"
  using assms set_update_subset_insert [of "fl_fragments l" i g] by (auto simp: list_wf_def)

lemma frag_advance_loop_ok:
  assumes "list_wf cap l"
  shows "\<exists>l'. frag_advance_loop k l = Inr l' \<and> list_wf cap l' \<and> fl_seq_id l' = (fl_seq_id l + int k) mod 256
           \<and> (0 < k \<longrightarrow> \<not> fg_defined (fl_fragments l' ! nat (fl_index l')))"
  using assms
proof (induction k arbitrary: l)
  case 0
  then show ?case by (simp add: list_wf_def)
next
  case (Suc k)
  note wf = Suc.prems [unfolded list_wf_def]
  let ?i = "(fl_index l + 1) mod 25" and ?s = "(fl_seq_id l + 1) mod 256"
  have i: "modulo_add (fl_index l) 1 25 = Inr ?i" using wf by (intro modulo_add_mod) auto
  have s: "modulo_add (fl_seq_id l) 1 256 = Inr ?s" using wf by (intro modulo_add_mod) auto
  have ib: "0 \<le> ?i" "?i < 25" "?i < int (length (fl_fragments l))" using wf by simp_all
  let ?g = "(fl_fragments l ! nat ?i)\<lparr>fg_defined := False\<rparr>"
  let ?gs = "(fl_fragments l)[nat ?i := ?g]"
  let ?l = "l\<lparr>fl_index := ?i, fl_fragments := ?gs, fl_seq_id := ?s\<rparr>"
  have ni: "nat ?i < length (fl_fragments l)" using ib by simp
  have "slot_buf cap ?g" using wf nth_mem [OF ni] by simp
  then have "list_wf cap ?l" using wf ib set_update_subset_insert [of "fl_fragments l" "nat ?i" ?g]
    by (auto simp: list_wf_def)
  from Suc.IH [OF this] obtain l' where
    l': "frag_advance_loop k ?l = Inr l'" "list_wf cap l'" "fl_seq_id l' = (?s + int k) mod 256"
    "0 < k \<longrightarrow> \<not> fg_defined (fl_fragments l' ! nat (fl_index l'))" by auto
  have "frag_advance_loop (Suc k) l = Inr l'" using i s ib l'(1) by simp
  moreover have "fl_seq_id l' = (fl_seq_id l + int (Suc k)) mod 256"
    unfolding l'(3) mod_add_left_eq by (simp add: add.assoc)
  moreover have "\<not> fg_defined (fl_fragments l' ! nat (fl_index l'))"
  proof (cases k)
    case 0
    then have "l' = ?l" using l'(1) by simp
    then show ?thesis using ni by simp
  qed (use l'(4) in simp)
  ultimately show ?case using l'(2) by blast
qed

text \<open>
  The structure for a sequence id is found again, whatever happens to the
  structures in between.
\<close>

lemma get_buf_slot:
  assumes wf: "list_wf cap l" and seq: "0 \<le> seq" "seq < 256"
  shows "\<exists>i l'. fragment_list_get_buf l seq = Inr (i, l') \<and> list_wf cap l' \<and> 0 \<le> i \<and> i < 25
           \<and> (\<forall>gs. fragment_list_get_buf (l'\<lparr>fl_fragments := gs\<rparr>) seq = Inr (i, l'\<lparr>fl_fragments := gs\<rparr>))"
proof -
  note w = wf [unfolded list_wf_def]
  have same: "modulo_subtract seq seq 256 = Inr 0" using seq by (simp add: modulo_subtract_def)
  from modulo_subtract_mod [of seq 256 "fl_seq_id l"] seq w obtain diff where
    diff: "modulo_subtract seq (fl_seq_id l) 256 = Inr diff" "(fl_seq_id l + diff) mod 256 = seq" by auto
  have again: "fragment_list_get_buf (l'\<lparr>fl_fragments := gs\<rparr>) seq = Inr (fl_index l', l'\<lparr>fl_fragments := gs\<rparr>)"
    if "list_wf cap l'" "fl_seq_id l' = seq" for l' gs
  proof -
    have "modulo_add (fl_index l') 0 25 = Inr (fl_index l')"
      using that(1) modulo_add_mod [of "fl_index l'" 25 0] by (simp add: list_wf_def)
    then show ?thesis using that(2) same by (simp add: fragment_list_get_buf_def)
  qed
  consider "\<bar>diff\<bar> \<ge> 25" | "0 < diff" "diff < 25" | "- 25 < diff" "diff \<le> 0" by linarith
  then show ?thesis
  proof cases
    case 1
    let ?l = "l\<lparr>fl_fragments := map (\<lambda>g. g\<lparr>fg_defined := False\<rparr>) (fl_fragments l), fl_index := 0, fl_seq_id := seq\<rparr>"
    have "list_wf cap ?l" using w seq by (auto simp: list_wf_def)
    moreover have "modulo_add 0 0 25 = Inr 0" by (simp add: modulo_add_def)
    then have "fragment_list_get_buf l seq = Inr (0, ?l)"
      using 1 diff(1) by (simp add: fragment_list_get_buf_def)
    ultimately show ?thesis using again [of ?l] by (intro exI [of _ 0] exI [of _ ?l]) simp
  next
    case 2
    from frag_advance_loop_ok [OF wf, of "nat diff"] 2 diff(2) obtain l' where
      l': "frag_advance_loop (nat diff) l = Inr l'" "list_wf cap l'" "fl_seq_id l' = seq" by auto
    have "modulo_add (fl_index l') 0 25 = Inr (fl_index l')"
      using l'(2) modulo_add_mod [of "fl_index l'" 25 0] by (simp add: list_wf_def)
    then have "fragment_list_get_buf l seq = Inr (fl_index l', l')"
      using 2 diff(1) l'(1) by (simp add: fragment_list_get_buf_def)
    then show ?thesis using again [OF l'(2,3)] l'(2) by (intro exI [of _ "fl_index l'"] exI [of _ l']) (simp add: list_wf_def)
  next
    case 3
    let ?i = "(fl_index l + diff) mod 25"
    have "modulo_add (fl_index l) diff 25 = Inr ?i" using 3 w by (intro modulo_add_mod) auto
    then have "fragment_list_get_buf (l\<lparr>fl_fragments := gs\<rparr>) seq = Inr (?i, l\<lparr>fl_fragments := gs\<rparr>)" for gs
      using 3 diff(1) by (simp add: fragment_list_get_buf_def)
    moreover from this [of "fl_fragments l"] have "fragment_list_get_buf l seq = Inr (?i, l)" by simp
    ultimately show ?thesis using wf by (intro exI [of _ ?i] exI [of _ l]) simp
  qed
qed


section \<open>Receiving the parts\<close>

text \<open>What is on the wire for part \<open>j\<close>.\<close>

definition wire :: "nat \<Rightarrow> u8 list \<Rightarrow> int \<Rightarrow> nat \<Rightarrow> u8 list" where
  "wire S d seq j =
     be32 (frag_flags (if j = n_chunks S d - 1 then FRAG_YES_LAST else FRAG_YES_NOTLAST) seq (int j) (int S)) @ chunk S d j"

definition recv_parts :: "nat \<Rightarrow> int \<Rightarrow> nat \<Rightarrow> u8 list \<Rightarrow> int \<Rightarrow> fragment_master \<Rightarrow> nat set \<Rightarrow> bool" where
  "recv_parts hr cap S d seq f J \<longleftrightarrow> list_wf cap (fm_incoming f)
     \<and> (\<exists>i l. fragment_list_get_buf (fm_incoming f) seq = Inr (i, l) \<and> slot_state hr cap S d (fl_fragments l ! nat i) J)"

lemma fragment_incoming_part:
  assumes rp: "recv_parts hr cap S d seq f J" and hr: "fr_headroom frame = int hr"
    and S: "0 < S" "S mod 4 = 0" "S < 65536" "d \<noteq> []" "n_chunks S d \<le> 32" and cap: "int hr + int (length d) \<le> cap"
    and seq: "0 \<le> seq" "seq < 256" and j: "j < n_chunks S d" and buf: "buf_wf buf" "content buf = wire S d seq j"
  shows "\<exists>f' buf'. fragment_incoming now frame f buf = Inr (f', buf')
           \<and> (if insert j J = {..<n_chunks S d} then recv_parts hr cap S d seq f' {} \<and> buf_wf buf' \<and> content buf' = d
              else recv_parts hr cap S d seq f' (insert j J) \<and> b_len buf' = 0)"
proof -
  let ?last = "j = n_chunks S d - 1"
  define ty :: u32 where "ty = (if ?last then FRAG_YES_LAST else FRAG_YES_NOTLAST)"
  define flags where "flags = frag_flags ty seq (int j) (int S)"
  have j32: "int j < 32" using j S(5) by simp
  have ty: "ty = 1 \<or> ty = 2" by (simp add: ty_def)
  have j0: "0 \<le> int j" by simp
  note fields = frag_flags_fields [OF ty seq j0 j32, of "int S", folded flags_def]
  have cb: "content buf = be32 flags @ chunk S d j" using buf(2) by (simp add: wire_def flags_def ty_def)
  have "b_len buf > 0" using buf_wf_lenI [OF buf(1)] cb by simp
  from bb.rd_prefix [OF buf(1) cb, of 4] obtain buf1 where
    b1: "buf_read buf 4 = Inr (Some (be32 flags), buf1)" "buf_wf buf1" "content buf1 = chunk S d j" by auto
  have bl: "b_len buf1 = int (length (chunk S d j))" using buf_wf_lenI [OF b1(2)] b1(3) by simp
  define sz where "sz = (if ty = FRAG_YES_LAST then uint (push_bit 2 (drop_bit 15 flags AND FRAG_SIZE_MASK)) else b_len buf1)"
  have sz: "sz = int S"
  proof (cases ?last)
    case True
    have "int S mod 4 = 0" using S(2) by presburger
    then show ?thesis using True frag_flags_size [of "int S" seq "int j"] S(3) by (simp add: sz_def flags_def ty_def)
  next
    case False
    then have "Suc j < n_chunks S d" using j by simp
    then show ?thesis using False chunk_full [OF S(1) _ S(4)] bl by (simp add: sz_def ty_def)
  qed
  have al: "sz AND 3 = 0"
  proof -
    have "int S AND mask 2 = int S mod 4" by (simp add: take_bit_eq_mask [symmetric] take_bit_eq_mod)
    moreover have "int S mod 4 = 0" using S(2) by presburger
    ultimately show ?thesis by (simp add: sz mask_eq_exp_minus_1)
  qed
  from rp obtain i l where gl: "fragment_list_get_buf (fm_incoming f) seq = Inr (i, l)"
    "slot_state hr cap S d (fl_fragments l ! nat i) J" and lw: "list_wf cap (fm_incoming f)"
    by (auto simp: recv_parts_def)
  from get_buf_slot [OF lw seq] gl(1) have l: "list_wf cap l" "0 \<le> i" "i < 25"
    "\<And>gs. fragment_list_get_buf (l\<lparr>fl_fragments := gs\<rparr>) seq = Inr (i, l\<lparr>fl_fragments := gs\<rparr>)" by auto
  from frag_store_ok [OF gl(2) S(1,4,5) cap j b1(2,3), of now] obtain g' buf' where
    st: "frag_store now (int hr) (fl_fragments l ! nat i) buf1 ?last (int j) (int S) = Inr (g', buf')" "slot_buf cap g'"
    "if insert j J = {..<n_chunks S d} then \<not> fg_defined g' \<and> buf_wf buf' \<and> content buf' = d
     else slot_state hr cap S d g' (insert j J) \<and> b_len buf' = 0" by blast
  let ?l = "l\<lparr>fl_fragments := (fl_fragments l)[nat i := g']\<rparr>"
  have il: "0 \<le> i \<and> i < int (length (fl_fragments l))" "nat i < length (fl_fragments l)" using l by (auto simp: list_wf_def)
  have run: "fragment_incoming now frame f buf = Inr (f\<lparr>fm_incoming := ?l\<rparr>, buf')"
  proof -
    have tl: "(ty = FRAG_YES_LAST) = ?last" by (simp add: ty_def)
    have nz: "ty \<noteq> FRAG_WHOLE" using ty by auto
    show ?thesis
      unfolding fragment_incoming_def if_P [OF \<open>b_len buf > 0\<close>] b1(1) bindE_Inr prod.case option.case Let_def
        un_be32_be32 fields sz_def [symmetric] gl(1)
      using nz ty al st(1) il by (simp add: sz tl hr arr_set_def)
  qed
  have lw': "list_wf cap ?l" by (rule list_wf_upd [OF l(1) st(2)])
  have slot: "fl_fragments ?l ! nat i = g'" using il by simp
  have rp': "recv_parts hr cap S d seq (f\<lparr>fm_incoming := ?l\<rparr>) J'" if "slot_state hr cap S d g' J'" for J'
    unfolding recv_parts_def using lw' l(4) that slot by simp
  show ?thesis
  proof (cases "insert j J = {..<n_chunks S d}")
    case True
    then have "slot_state hr cap S d g' {}" using st(2,3) j by (auto simp: slot_state_def)
    then show ?thesis using run rp' st(3) True by simp
  next
    case False
    then show ?thesis using run rp' st(3) by simp
  qed
qed


section \<open>Sending the parts\<close>

lemma and_not3: "(x :: int) AND NOT 3 = x - x mod 4"
proof -
  have "x - take_bit 2 x = x AND NOT (take_bit 2 x)" by (rule disjunctive_diff) (simp add: bit_simps)
  also have "\<dots> = x AND NOT (mask 2)" by (rule bit_eqI) (auto simp: bit_simps)
  finally have "x AND NOT (mask 2) = x - take_bit 2 x" by simp
  then show ?thesis by (simp add: mask_eq_exp_minus_1 take_bit_eq_mod)
qed

lemma nat_mod4: "0 \<le> a \<Longrightarrow> a mod 4 = 0 \<Longrightarrow> nat a mod 4 = 0"
proof -
  assume "0 \<le> a" "a mod 4 = 0"
  moreover from this have "nat (a mod 4) = nat a mod 4" by (subst nat_mod_distrib) simp_all
  ultimately show ?thesis by simp
qed

lemma optimal_fragment_size_ok:
  assumes "0 < len" "4 \<le> mfs" "mfs < 65536"
  shows "\<exists>S. optimal_fragment_size len mfs = Inr (int S) \<and> 0 < S \<and> S mod 4 = 0 \<and> int S \<le> mfs"
proof -
  define a where "a = mfs - mfs mod 4"
  define d where "d = len div a"
  define m where "m = len mod a"
  have a: "0 < a" "a \<le> mfs" "a mod 4 = 0" "4 \<le> a" using assms(2) by (auto simp: a_def) presburger+
  have q: "c_div (a * 3) 4 = Inr (a * 3 div 4)" "i32 (a * 3) = Inr (a * 3)" using a assms(3) by simp_all
  have dm: "c_div len a = Inr d" "c_mod len a = Inr m" "0 \<le> d" "0 \<le> m"
    using assms(1) a(1) by (simp_all add: d_def m_def pos_imp_zdiv_nonneg_iff)
  show ?thesis
  proof (cases "d > 0 \<and> m > 0 \<and> m < a * 3 div 4")
    case False
    then have "optimal_fragment_size len mfs = Inr a"
      unfolding optimal_fragment_size_def and_not3 a_def [symmetric] Let_def dm(1,2) q bindE_Inr using False by auto
    then show ?thesis using a by (intro exI [of _ "nat a"]) (simp add: nat_mod4)
  next
    case True
    define cut where "cut = (mfs - m) div (d + 1)"
    define r where "r = mfs - cut + 3 - (mfs - cut + 3) mod 4"
    have ml: "m < mfs" using True a by linarith
    have cut: "0 \<le> cut" "cut \<le> mfs - m"
      using ml True zdiv_mono2 [of "mfs - m" 1 "d + 1"] by (simp_all add: cut_def pos_imp_zdiv_nonneg_iff)
    have r: "0 < r" "r mod 4 = 0"
    proof -
      have "(mfs - cut + 3) mod 4 < 4" "0 < mfs - cut" using cut True by simp_all
      then show "0 < r" unfolding r_def by linarith
      show "r mod 4 = 0" unfolding r_def by presburger
    qed
    have "c_div (mfs - m) (d + 1) = Inr cut" using ml True by (simp add: cut_def)
    then have "optimal_fragment_size len mfs = Inr (min_int a r)"
      unfolding optimal_fragment_size_def and_not3 a_def [symmetric] Let_def dm(1,2) q bindE_Inr using True
      by (simp add: r_def)
    moreover have "0 < min a r" "min a r mod 4 = 0" "min a r \<le> mfs" using a r by (auto simp: min_def)
    ultimately show ?thesis by (intro exI [of _ "nat (min a r)"]) (simp add: nat_mod4)
  qed
qed

text \<open>The first \<open>k\<close> parts of the datagram \<open>d\<close> have been handed over.\<close>

definition sending :: "int \<Rightarrow> nat \<Rightarrow> u8 list \<Rightarrow> int \<Rightarrow> fragment_master \<Rightarrow> nat \<Rightarrow> bool" where
  "sending cap S d seq f k \<longleftrightarrow>
     buf_wf (fm_outgoing f) \<and> content (fm_outgoing f) = drop (k * S) d \<and> fm_outgoing_frag_size f = int S
     \<and> fm_outgoing_frag_id f = int k \<and> fm_outgoing_seq_id f = seq
     \<and> buf_wf (fm_outgoing_return f) \<and> b_capacity (fm_outgoing_return f) = cap"

lemma outgoing_defined_iff: "buf_wf (fm_outgoing f) \<Longrightarrow> fragment_outgoing_defined f \<longleftrightarrow> content (fm_outgoing f) \<noteq> []"
  unfolding fragment_outgoing_defined_def by (drule buf_wf_lenI, erule ssubst) simp

lemma ready_to_send_part:
  assumes st: "sending cap S d seq f k" and k: "k < n_chunks S d" and S: "0 < S" "d \<noteq> []"
    and hr: "fr_headroom frame = int hr" "4 \<le> hr" "int hr + int S \<le> cap"
  shows "\<exists>f' b. fragment_ready_to_send frame f buf = Inr (True, f', b) \<and> sending cap S d seq f' (Suc k)
           \<and> fm_incoming f' = fm_incoming f \<and> buf_wf b \<and> content b = wire S d seq k"
proof -
  note st' = st [unfolded sending_def]
  let ?lf = "k = n_chunks S d - 1"
  define out where "out = fm_outgoing f"
  have o: "buf_wf out" "content out = drop (k * S) d" using st' by (simp_all add: out_def)
  have idx: "k * S < length d" by (rule chunk_index [OF S(1) k S(2)])
  have len: "b_len out = int (length d - k * S)" using buf_wf_lenI [OF o(1)] o(2) by simp
  have lf: "(b_len out \<le> int S) = ?lf"
  proof
    assume "?lf"
    then have "length d \<le> Suc k * S" using n_chunks_bounds(2) [OF S] k by simp
    then show "b_len out \<le> int S" using len by simp
  next
    assume "b_len out \<le> int S"
    then have "length d - k * S \<le> S" unfolding len of_nat_le_iff .
    then have "length d \<le> Suc k * S" by simp
    then have "\<not> Suc k < n_chunks S d" using chunk_index [OF S(1) _ S(2), of "Suc k"] by fastforce
    then show ?lf using k by simp
  qed
  define n where "n = length (chunk S d k)"
  have n: "(if ?lf then b_len out else int S) = int n" "n \<le> S" "n \<le> length (content out)" "take n (content out) = chunk S d k"
    "drop n (content out) = drop (Suc k * S) d"
  proof -
    show *: "n \<le> S" "n \<le> length (content out)" by (auto simp: n_def chunk_def o(2))
    show "take n (content out) = chunk S d k" by (simp add: n_def chunk_def o(2) min_def)
    show "(if ?lf then b_len out else int S) = int n"
    proof (cases ?lf)
      case True
      then have "b_len out \<le> int S" using lf by simp
      then show ?thesis using True len by (simp add: n_def chunk_def)
    next
      case False
      then have "Suc k < n_chunks S d" using k by simp
      then show ?thesis using False chunk_full [OF S(1) _ S(2), of k] by (simp add: n_def)
    qed
    show "drop n (content out) = drop (Suc k * S) d"
      by (cases "S \<le> length d - k * S") (auto simp: n_def chunk_def o(2) min_def add.commute)
  qed
  have rb: "buf_wf (fm_outgoing_return f)" "b_capacity (fm_outgoing_return f) = cap" using st' by simp_all
  have "int hr \<le> b_capacity (fm_outgoing_return f)" using rb(2) hr(3) by simp
  from buf_init_ok [OF rb(1) _ this] obtain b0 where
    b0: "buf_init_dowork (fm_outgoing_return f) (int hr) = (True, b0)" "buf_wf b0" "content b0 = []" "headroom b0 = hr"
    "tailroom b0 = nat (cap - int hr)" "b_capacity b0 = cap" using rb(2) by auto
  have room: "n \<le> tailroom b0" using b0(5) hr(3) n(2) by linarith
  from buf_copy_n_ok [OF b0(2) o(1) n(3) room] obtain b1 out' where
    b1: "buf_copy_n b0 out (int n) = Inr (True, b1, out')" "buf_wf b1" "content b1 = chunk S d k" "headroom b1 = hr"
    "b_capacity b1 = cap" "buf_wf out'" "content out' = drop (Suc k * S) d"
    using b0 n(4,5) by auto
  define ty :: u32 where "ty = (if ?lf then FRAG_YES_LAST else FRAG_YES_NOTLAST)"
  define fl where "fl = frag_flags ty seq (int k) (int S)"
  have "length (be32 fl) \<le> headroom b1" using b1(4) hr(2) by simp
  from buf_prepend_ok [OF b1(2) this] obtain b2 where
    b2: "buf_write_prepend b1 (be32 fl) = Inr (True, b2)" "buf_wf b2" "content b2 = be32 fl @ chunk S d k"
    "b_capacity b2 = cap" using b1(3,5) by auto
  let ?f = "f\<lparr>fm_outgoing := out', fm_outgoing_frag_id := int (Suc k)\<rparr>"
  have def: "fragment_outgoing_defined f" using outgoing_defined_iff o idx by (simp add: out_def)
  have fin: "?lf \<Longrightarrow> b_len out' = 0"
  proof -
    assume "?lf"
    then have "length d \<le> Suc k * S" using n_chunks_bounds(2) [OF S] k by simp
    then show "b_len out' = 0" using buf_wf_lenI [OF b1(6)] b1(7) by simp
  qed
  have pf: "fragment_prepend_flags b1 ty seq (int k) (int S) = Inr b2"
    using b2(1) by (simp add: fragment_prepend_flags_def fl_def)
  have sel: "fm_outgoing_frag_size f = int S" "fm_outgoing_frag_id f = int k" "fm_outgoing_seq_id f = seq" using st' by simp_all
  have run: "fragment_ready_to_send frame f buf = Inr (True, ?f, b2)"
    unfolding fragment_ready_to_send_def if_P [OF def] out_def [symmetric] sel lf Let_def n(1) hr(1) b0(1) prod.case
      c_assert_def if_True bindE_Inr b1(1) ty_def [symmetric] pf
    using fin by (auto simp: add.commute)
  moreover have "sending cap S d seq ?f (Suc k)" using st' b1 by (simp add: sending_def)
  moreover have "content b2 = wire S d seq k" using b2(3) by (simp add: wire_def fl_def ty_def)
  ultimately show ?thesis using b2(2) by (intro exI [of _ ?f] exI [of _ b2]) simp
qed

text \<open>The sender hands over what is left, one part after the other.\<close>

fun frag_drain :: "nat \<Rightarrow> frame \<Rightarrow> fragment_master \<Rightarrow> (buffer list \<times> fragment_master) cres" where
  "frag_drain 0 frame f = Inr ([], f)"
| "frag_drain (Suc k) frame f =
     bindE (fragment_ready_to_send frame f clear_buf) (\<lambda>(ok, f1, b).
     if ok then bindE (frag_drain k frame f1) (\<lambda>(bs, f2). Inr (b # bs, f2)) else Inr ([], f1))"

lemma frag_drain_ok:
  assumes "sending cap S d seq f k" "k \<le> n_chunks S d" "n_chunks S d \<le> k + fuel" and S: "0 < S" "d \<noteq> []"
    and hr: "fr_headroom frame = int hr" "4 \<le> hr" "int hr + int S \<le> cap"
  shows "\<exists>bs f'. frag_drain fuel frame f = Inr (bs, f') \<and> map content bs = map (wire S d seq) [k..<n_chunks S d]
           \<and> (\<forall>b\<in>set bs. buf_wf b) \<and> \<not> fragment_outgoing_defined f'"
  using assms(1-3)
proof (induction fuel arbitrary: f k)
  case (0 f k)
  then have kk: "k = n_chunks S d" by simp
  then have "content (fm_outgoing f) = []" using 0(1) n_chunks_bounds(2) [OF S] by (simp add: sending_def)
  then show ?case using 0(1) kk outgoing_defined_iff [of f] by (simp add: sending_def)
next
  case (Suc fuel f k)
  show ?case
  proof (cases "k < n_chunks S d")
    case True
    from ready_to_send_part [OF Suc.prems(1) True S hr, of clear_buf] obtain f1 b where
      f1: "fragment_ready_to_send frame f clear_buf = Inr (True, f1, b)" "sending cap S d seq f1 (Suc k)"
      "buf_wf b" "content b = wire S d seq k" by blast
    have "Suc k \<le> n_chunks S d" "n_chunks S d \<le> Suc k + fuel" using True Suc.prems(3) by simp_all
    from Suc.IH [OF f1(2) this] obtain bs f' where
      "frag_drain fuel frame f1 = Inr (bs, f')" "map content bs = map (wire S d seq) [Suc k..<n_chunks S d]"
      "\<forall>b\<in>set bs. buf_wf b" "\<not> fragment_outgoing_defined f'" by blast
    then show ?thesis using f1 True upt_conv_Cons [of k "n_chunks S d"] by (intro exI [of _ "b # bs"] exI [of _ f']) simp
  next
    case False
    then have kk: "k = n_chunks S d" using Suc.prems(2) by simp
    then have "content (fm_outgoing f) = []" using Suc.prems(1) n_chunks_bounds(2) [OF S] by (simp add: sending_def)
    then have nd: "\<not> fragment_outgoing_defined f" using Suc.prems(1) outgoing_defined_iff [of f] by (simp add: sending_def)
    then show ?thesis using kk by (simp add: fragment_ready_to_send_def)
  qed
qed

lemma fragment_outgoing_split:
  assumes buf: "buf_wf buf" "content buf = d" and big: "fr_max_fragment_size frame < int (length d)" "d \<noteq> []"
    and opt: "optimal_fragment_size (int (length d)) (fr_max_fragment_size frame) = Inr (int S)"
    and S: "0 < S" "int (length d) \<le> 32 * int S" "S < 65536" and seq: "0 \<le> fm_outgoing_seq_id f" "fm_outgoing_seq_id f < 256"
    and hr: "fr_headroom frame = int hr" "4 \<le> hr"
    and out: "buf_wf (fm_outgoing f)" "int hr + int (length d) \<le> b_capacity (fm_outgoing f)"
    and ret: "buf_wf (fm_outgoing_return f)" "int hr + int S \<le> b_capacity (fm_outgoing_return f)"
  shows "\<exists>f' b. fragment_outgoing frame f buf = Inr (f', b) \<and> buf_wf b
           \<and> content b = wire S d ((fm_outgoing_seq_id f + 1) mod 256) 0
           \<and> sending (b_capacity (fm_outgoing_return f)) S d ((fm_outgoing_seq_id f + 1) mod 256) f' 1"
proof -
  let ?seq = "(fm_outgoing_seq_id f + 1) mod 256"
  have len: "b_len buf = int (length d)" using buf_wf_lenI [OF buf(1)] buf(2) by simp
  have tot: "i32 (int S * 32) = Inr (int S * 32)" using S(3) by simp
  have "int hr \<le> b_capacity (fm_outgoing f)" using out(2) by simp
  from buf_init_ok [OF out(1) _ this] obtain o0 where
    o0: "buf_init_dowork (fm_outgoing f) (int hr) = (True, o0)" "buf_wf o0" "content o0 = []"
    "tailroom o0 = nat (b_capacity (fm_outgoing f) - int hr)" by auto
  have "length d \<le> tailroom o0" using o0(4) out(2) by linarith
  from buf_write_ok [OF o0(2) this] obtain o1 where
    o1: "buf_write o0 d = Inr (True, o1)" "buf_wf o1" "content o1 = d" using o0(3) by auto
  have cp: "buf_copy o0 buf = Inr (True, o1)" using buf_copy_eq [OF buf(1)] buf(2) o1(1) by simp
  have sq: "modulo_add (fm_outgoing_seq_id f) 1 256 = Inr ?seq" using seq by (intro modulo_add_mod) auto
  let ?f = "f\<lparr>fm_outgoing_frag_size := int S, fm_outgoing := o1, fm_outgoing_seq_id := ?seq, fm_outgoing_frag_id := 0\<rparr>"
  have "sending (b_capacity (fm_outgoing_return f)) S d ?seq ?f 0" using o1 ret(1) by (simp add: sending_def)
  from ready_to_send_part [OF this n_chunks_bounds(1) [OF S(1) big(2)] S(1) big(2) hr ret(2), of "buf\<lparr>b_len := 0\<rparr>"]
  obtain f' b where f': "fragment_ready_to_send frame ?f (buf\<lparr>b_len := 0\<rparr>) = Inr (True, f', b)"
    "sending (b_capacity (fm_outgoing_return f)) S d ?seq f' (Suc 0)" "buf_wf b" "content b = wire S d ?seq 0" by blast
  have "fragment_outgoing frame f buf = Inr (f', b)"
    unfolding fragment_outgoing_def len opt bindE_Inr tot Let_def
    using big S(2) o0(1) cp sq f'(1) hr(1) by (simp add: c_assert_def)
  then show ?thesis using f' by simp
qed


section \<open>Transmission\<close>

text \<open>Everything the sender makes of one datagram, and what the receiver makes of a sequence of packets.\<close>

definition frag_send :: "frame \<Rightarrow> fragment_master \<Rightarrow> buffer \<Rightarrow> (buffer list \<times> fragment_master) cres" where
  "frag_send frame f buf =
     bindE (fragment_outgoing frame f buf) (\<lambda>(f1, b).
     bindE (frag_drain 31 frame f1) (\<lambda>(bs, f2). Inr (b # bs, f2)))"

fun frag_recv :: "int \<Rightarrow> frame \<Rightarrow> fragment_master \<Rightarrow> buffer list \<Rightarrow> (u8 list list \<times> fragment_master) cres" where
  "frag_recv now frame f [] = Inr ([], f)"
| "frag_recv now frame f (b # bs) =
     bindE (fragment_incoming now frame f b) (\<lambda>(f1, b1).
     bindE (frag_recv now frame f1 bs) (\<lambda>(ds, f2). Inr (content b1 # ds, f2)))"

text \<open>
  The specification: after each of the part numbers \<open>js\<close>, whether it was the last
  one missing; then collecting starts again.
\<close>

fun completes :: "nat \<Rightarrow> nat set \<Rightarrow> nat list \<Rightarrow> bool list" where
  "completes m J [] = []"
| "completes m J (j # js) =
     (if insert j J = {..<m} then True # completes m {} js else False # completes m (insert j J) js)"

definition idle :: "fragment_master \<Rightarrow> int \<Rightarrow> bool" where
  "idle f seq \<longleftrightarrow>
     (case fragment_list_get_buf (fm_incoming f) seq of Inl _ \<Rightarrow> False | Inr (i, l) \<Rightarrow> \<not> fg_defined (fl_fragments l ! nat i))"

lemma idle_recv_parts:
  assumes "list_wf cap (fm_incoming f)" "idle f seq" "0 \<le> seq" "seq < 256" "0 < n_chunks S d"
  shows "recv_parts hr cap S d seq f {}"
proof -
  from get_buf_slot [OF assms(1,3,4)] obtain i l where
    l: "fragment_list_get_buf (fm_incoming f) seq = Inr (i, l)" "list_wf cap l" "0 \<le> i" "i < 25" by blast
  then have "slot_buf cap (fl_fragments l ! nat i)" by (simp add: list_wf_def)
  moreover have "\<not> fg_defined (fl_fragments l ! nat i)" using assms(2) l(1) by (simp add: idle_def)
  ultimately show ?thesis using l(1) assms(1,5) by (auto simp: recv_parts_def slot_state_def)
qed

lemma frag_recv_ok:
  assumes "recv_parts hr cap S d seq f J" and hr: "fr_headroom frame = int hr"
    and S: "0 < S" "S mod 4 = 0" "S < 65536" "d \<noteq> []" "n_chunks S d \<le> 32" and cap: "int hr + int (length d) \<le> cap"
    and seq: "0 \<le> seq" "seq < 256" and ps: "map content ps = map (wire S d seq) [0..<n_chunks S d]" "\<forall>b\<in>set ps. buf_wf b"
    and js: "set js \<subseteq> {..<n_chunks S d}"
  shows "\<exists>f'. frag_recv now frame f (map (nth ps) js)
           = Inr (map (\<lambda>b. if b then d else []) (completes (n_chunks S d) J js), f')"
  using assms(1) js
proof (induction js arbitrary: f J)
  case (Cons j js)
  have j: "j < n_chunks S d" "set js \<subseteq> {..<n_chunks S d}" using Cons.prems(2) by auto
  have lp: "length ps = n_chunks S d" using arg_cong [OF ps(1), of length] by simp
  have "content (ps ! j) = wire S d seq j"
    using arg_cong [OF ps(1), of "\<lambda>xs. xs ! j"] lp j(1) by simp
  moreover have "buf_wf (ps ! j)" using ps(2) lp j(1) by simp
  ultimately obtain f1 b1 where
    r: "fragment_incoming now frame f (ps ! j) = Inr (f1, b1)"
    "if insert j J = {..<n_chunks S d} then recv_parts hr cap S d seq f1 {} \<and> buf_wf b1 \<and> content b1 = d
     else recv_parts hr cap S d seq f1 (insert j J) \<and> b_len b1 = 0"
    using fragment_incoming_part [OF Cons.prems(1) hr S cap seq j(1), of "ps ! j" now] by blast
  show ?case
  proof (cases "insert j J = {..<n_chunks S d}")
    case True
    then have "recv_parts hr cap S d seq f1 {}" "content b1 = d" using r(2) by simp_all
    with Cons.IH [OF this(1) j(2)] r(1) True show ?thesis by auto
  next
    case False
    then have "recv_parts hr cap S d seq f1 (insert j J)" "content b1 = []" using r(2) by (simp_all add: content_def split: option.split)
    with Cons.IH [OF this(1) j(2)] r(1) False show ?thesis by auto
  qed
qed simp

lemma frag_send_ok:
  assumes buf: "buf_wf buf" "content buf = d" and big: "fr_max_fragment_size frame < int (length d)" "d \<noteq> []"
    and opt: "optimal_fragment_size (int (length d)) (fr_max_fragment_size frame) = Inr (int S)"
    and S: "0 < S" "int (length d) \<le> 32 * int S" "S < 65536" and seq: "0 \<le> fm_outgoing_seq_id f" "fm_outgoing_seq_id f < 256"
    and hr: "fr_headroom frame = int hr" "4 \<le> hr"
    and out: "buf_wf (fm_outgoing f)" "int hr + int (length d) \<le> b_capacity (fm_outgoing f)"
    and ret: "buf_wf (fm_outgoing_return f)" "int hr + int S \<le> b_capacity (fm_outgoing_return f)"
  shows "\<exists>ps f'. frag_send frame f buf = Inr (ps, f') \<and> \<not> fragment_outgoing_defined f'
           \<and> map content ps = map (wire S d ((fm_outgoing_seq_id f + 1) mod 256)) [0..<n_chunks S d]
           \<and> (\<forall>b\<in>set ps. buf_wf b) \<and> n_chunks S d \<le> 32"
proof -
  let ?seq = "(fm_outgoing_seq_id f + 1) mod 256"
  note nb = n_chunks_bounds [OF S(1) big(2)]
  have "(n_chunks S d - 1) * S < 32 * S" using nb(3) S(2) by linarith
  then have nc: "n_chunks S d \<le> 32" using nb(1) by (simp, linarith)
  from fragment_outgoing_split [OF assms] obtain f1 b where
    f1: "fragment_outgoing frame f buf = Inr (f1, b)" "buf_wf b" "content b = wire S d ?seq 0"
    "sending (b_capacity (fm_outgoing_return f)) S d ?seq f1 1" by blast
  have "1 \<le> n_chunks S d" "n_chunks S d \<le> 1 + 31" using nb(1) nc by simp_all
  from frag_drain_ok [OF f1(4) this S(1) big(2) hr ret(2)] obtain bs f' where
    bs: "frag_drain 31 frame f1 = Inr (bs, f')" "map content bs = map (wire S d ?seq) [1..<n_chunks S d]"
    "\<forall>b\<in>set bs. buf_wf b" "\<not> fragment_outgoing_defined f'" by blast
  have "frag_send frame f buf = Inr (b # bs, f')" using f1(1) bs(1) by (simp add: frag_send_def)
  moreover have "map content (b # bs) = map (wire S d ?seq) [0..<n_chunks S d]"
    using bs(2) f1(3) upt_conv_Cons [OF nb(1)] by simp
  ultimately show ?thesis using bs(3,4) f1(2) nc by (intro exI [of _ "b # bs"] exI [of _ f']) simp
qed

text \<open>A datagram of 14 bytes over a link that takes 4.\<close>

definition ex_frame :: frame where
  "ex_frame = \<lparr>fr_payload_size = 20, fr_headroom = 8, fr_tailroom = 4, fr_mss_fix = 0, fr_max_fragment_size = 4,
     fr_tun_mtu = 20, fr_tun_max_mtu = 20, fr_extra_tun = 0\<rparr>"

definition ex_payload :: "u8 list" where
  "ex_payload = [10, 11, 12, 13, 14, 15, 16, 17, 18, 19, 20, 21, 22, 23]"

definition ex_datagram :: buffer where
  "ex_datagram = \<lparr>b_capacity = 14, b_offset = 0, b_len = 14, b_data = Some ex_payload\<rparr>"

definition ex_fragment_master :: fragment_master where
  "ex_fragment_master =
     (case fragment_frame_init (fragment_init 1000 255) ex_frame of Inl _ \<Rightarrow> fragment_init 0 0 | Inr f \<Rightarrow> f)"

lemma ex_fragment_ok:
  "buf_wf ex_datagram" "content ex_datagram = ex_payload" "int (length ex_payload) = 14"
  "optimal_fragment_size 14 4 = Inr 4"
  "fm_outgoing_seq_id ex_fragment_master = 255" "buf_wf (fm_outgoing ex_fragment_master)"
  "b_capacity (fm_outgoing ex_fragment_master) = 32" "buf_wf (fm_outgoing_return ex_fragment_master)"
  "b_capacity (fm_outgoing_return ex_fragment_master) = 32"
  "list_wf 32 (fm_incoming ex_fragment_master)" "idle ex_fragment_master 0"
  by code_simp+

text \<open>
  C17: A datagram that is too long for one packet survives fragmentation.  The
  sender cuts it into parts without failing and keeps none of them
  back.  Whatever parts the network delivers, in whatever order and
  however often, the receiver, if it holds nothing yet for that sequence id,
  hands out the datagram, byte for byte, exactly at the packets that
  bring the last missing part, and nothing at all others.
\<close>

theorem fragment_reassembly:
  assumes "buf_wf buf" "content buf = d" "4 \<le> fr_max_fragment_size frame" "fr_max_fragment_size frame < 65536"
    and "fr_max_fragment_size frame < int (length d)"
    and "optimal_fragment_size (int (length d)) (fr_max_fragment_size frame) = Inr sz" "int (length d) \<le> 32 * sz"
    and "0 \<le> fm_outgoing_seq_id s" "fm_outgoing_seq_id s < 256" "4 \<le> fr_headroom frame"
    and "buf_wf (fm_outgoing s)" "fr_headroom frame + int (length d) \<le> b_capacity (fm_outgoing s)"
    and "buf_wf (fm_outgoing_return s)" "fr_headroom frame + int (length d) \<le> b_capacity (fm_outgoing_return s)"
    and "list_wf cap (fm_incoming r)" "0 \<le> fr_headroom rframe" "fr_headroom rframe + int (length d) \<le> cap"
    and "idle r ((fm_outgoing_seq_id s + 1) mod 256)"
  shows "\<exists>ps s'. frag_send frame s buf = Inr (ps, s') \<and> \<not> fragment_outgoing_defined s'
           \<and> (\<forall>js. set js \<subseteq> {..<length ps} \<longrightarrow>
                (\<exists>r'. frag_recv now rframe r (map (nth ps) js)
                  = Inr (map (\<lambda>b. if b then d else []) (completes (length ps) {} js), r')))"
proof -
  have ne: "d \<noteq> []" "0 < int (length d)" using assms(3,5) by auto
  from optimal_fragment_size_ok [OF ne(2) assms(3,4)] assms(6) obtain S where
    S: "sz = int S" "0 < S" "S mod 4 = 0" "int S \<le> fr_max_fragment_size frame" by auto
  obtain hr rhr where hr: "fr_headroom frame = int hr" "fr_headroom rframe = int rhr" "4 \<le> hr"
    using assms(10,16) by (metis nonneg_int_cases of_nat_le_iff of_nat_numeral order_trans zero_le_numeral)
  have S': "S < 65536" "int (length d) \<le> 32 * int S" using S assms(4,7) by simp_all
  have caps: "int hr + int (length d) \<le> b_capacity (fm_outgoing s)" "int hr + int S \<le> b_capacity (fm_outgoing_return s)"
    "int rhr + int (length d) \<le> cap"
    using assms(5,12,14,17) S(4) hr by linarith+
  let ?seq = "(fm_outgoing_seq_id s + 1) mod 256"
  from frag_send_ok [OF assms(1,2,5) ne(1) assms(6) [unfolded S(1)] S(2) S'(2,1) assms(8,9) hr(1,3) assms(11) caps(1) assms(13) caps(2)]
  obtain ps s' where ps: "frag_send frame s buf = Inr (ps, s')" "\<not> fragment_outgoing_defined s'"
    "map content ps = map (wire S d ?seq) [0..<n_chunks S d]" "\<forall>b\<in>set ps. buf_wf b" "n_chunks S d \<le> 32" by blast
  have lp: "length ps = n_chunks S d" using arg_cong [OF ps(3), of length] by simp
  have seq: "0 \<le> ?seq" "?seq < 256" by simp_all
  have "recv_parts rhr cap S d ?seq r {}"
    by (rule idle_recv_parts [OF assms(15,18) seq n_chunks_bounds(1) [OF S(2) ne(1)]])
  then have "\<exists>r'. frag_recv now rframe r (map (nth ps) js)
      = Inr (map (\<lambda>b. if b then d else []) (completes (length ps) {} js), r')" if "set js \<subseteq> {..<length ps}" for js
    using frag_recv_ok [OF _ hr(2) S(2,3) S'(1) ne(1) ps(5) caps(3) seq ps(3,4)] that unfolding lp by blast
  then show ?thesis using ps(1,2) by blast
qed

theorem fragment_reassembly_witness:
  "\<exists>ps s' r'. frag_send ex_frame ex_fragment_master ex_datagram = Inr (ps, s') \<and> length ps = 4
     \<and> frag_recv 1000 ex_frame ex_fragment_master (map (nth ps) [3, 0, 0, 2, 1, 3])
       = Inr ([[], [], [], [], ex_payload, []], r')"
proof -
  have fr: "fr_max_fragment_size ex_frame = 4" "fr_headroom ex_frame = 8" by (simp_all add: ex_frame_def)
  have len: "length ps = 4" if "frag_send ex_frame ex_fragment_master ex_datagram = Inr (ps, s')" for ps s'
  proof -
    have "ex_payload \<noteq> []" by (simp add: ex_payload_def)
    then have "map content ps = map (wire 4 ex_payload 0) [0..<4]"
      using frag_send_ok [of ex_datagram ex_payload ex_frame 4 ex_fragment_master 8] ex_fragment_ok fr that
      by (simp add: n_chunks_def)
    then have "length (map content ps) = length (map (wire 4 ex_payload 0) [0..<4])" by (rule arg_cong)
    then show ?thesis by simp
  qed
  have c: "completes 4 {} [3, 0, 0, 2, 1, 3] = [False, False, False, False, True, False]" by code_simp
  from fragment_reassembly [of ex_datagram ex_payload ex_frame 4 ex_fragment_master 32 ex_fragment_master ex_frame 1000]
  obtain ps s' where ps: "frag_send ex_frame ex_fragment_master ex_datagram = Inr (ps, s')"
    "\<forall>js. set js \<subseteq> {..<length ps} \<longrightarrow>
       (\<exists>r'. frag_recv 1000 ex_frame ex_fragment_master (map (nth ps) js)
         = Inr (map (\<lambda>b. if b then ex_payload else []) (completes (length ps) {} js), r'))"
    using ex_fragment_ok fr by auto
  with len [OF ps(1)] spec [OF ps(2), of "[3, 0, 0, 2, 1, 3]"] c show ?thesis by auto
qed

end
