(* ===== verification/FrameThm.thy ===== *)
theory FrameThm
  imports Fragment
begin

text \<open>
  What the size computations promise: the largest fragment that
  \<open>frame_calculate_fragment\<close> allows is exactly the largest that fits into the
  configured limit, where the computation does not wrap; and what happens at
  the limits.
\<close>

section \<open>The largest fragment\<close>












section \<open>Limits that are too small\<close>





section \<open>Path MTU\<close>



end
