(* ===== verification/Base64.thy ===== *)
theory Base64
  imports BufferStr
begin

text \<open>
  Base64 (\<open>base64.c\<close>).  A string argument is the list of its characters without the
  terminating null; the memory the encoder allocates and the memory the decoder
  writes to are blocks of bytes with checked access.
\<close>

section \<open>Operations\<close>

definition base64_chars :: "u8 list" where
  "base64_chars = cstr ''ABCDEFGHIJKLMNOPQRSTUVWXYZabcdefghijklmnopqrstuvwxyz0123456789+/''"

text \<open>One round of the loop: the four characters for the bytes from index \<open>i\<close> on.\<close>

definition encode_token :: "u8 list \<Rightarrow> int \<Rightarrow> int \<Rightarrow> u8 list cres" where
  "encode_token q sz i =
     bindE (arr_get q i) (\<lambda>b0.
     bindE (if i + 1 < sz then arr_get q (i + 1) else Inr 0) (\<lambda>b1.
     bindE (if i + 2 < sz then arr_get q (i + 2) else Inr 0) (\<lambda>b2.
     let c = push_bit 8 (push_bit 8 (ucast b0 :: u32) + ucast b1) + ucast b2
     in bindE (arr_get base64_chars (uint (drop_bit 18 (c AND 0x00fc0000)))) (\<lambda>p0.
        bindE (arr_get base64_chars (uint (drop_bit 12 (c AND 0x0003f000)))) (\<lambda>p1.
        bindE (arr_get base64_chars (uint (drop_bit 6 (c AND 0x00000fc0)))) (\<lambda>p2.
        bindE (arr_get base64_chars (uint (c AND 0x0000003f))) (\<lambda>p3.
        Inr [p0, p1, if i + 3 > sz + 1 then 61 else p2, if i + 3 > sz then 61 else p3])))))))"

function encode_loop :: "u8 list \<Rightarrow> int \<Rightarrow> int \<Rightarrow> u8 list option \<Rightarrow> int \<Rightarrow> (u8 list option \<times> int) cres" where
  "encode_loop q sz i mem p =
     (if i < sz
      then bindE (encode_token q sz i) (\<lambda>t.
           bindE (mem_write mem p t) (\<lambda>mem'.
           encode_loop q sz (i + 3) mem' (p + 4)))
      else Inr (mem, p))"
  by pat_completeness auto
termination
  by (relation "measure (\<lambda>(q, sz, i, mem, p). nat (sz - i))") auto

declare encode_loop.simps [simp del]

text \<open>\<open>malloc n\<close> is what the allocation of \<open>n\<close> bytes returns.\<close>

definition openvpn_base64_encode ::
    "(nat \<Rightarrow> u8 list option) \<Rightarrow> u8 list \<Rightarrow> int \<Rightarrow> (int \<times> u8 list option) cres" where
  "openvpn_base64_encode malloc data sz =
     (if sz < 0 then Inr (- 1, None)
      else let out_size = sz * 4 div 3 + 4
           in if out_size > INT_MAX then Inr (- 1, None)
              else case malloc (nat out_size) of
                     None \<Rightarrow> Inr (- 1, None)
                   | Some start \<Rightarrow>
                       bindE (encode_loop data sz 0 (Some start) 0) (\<lambda>(mem, p).
                       bindE (mem_write mem p [0]) (\<lambda>mem'.
                       bindE (c_strlen mem' 0) (\<lambda>n. Inr (n, mem')))))"

fun pos_loop :: "u8 list \<Rightarrow> int \<Rightarrow> u8 \<Rightarrow> int" where
  "pos_loop [] i c = - 1"
| "pos_loop (x # xs) i c = (if x = c then i else pos_loop xs (i + 1) c)"

definition pos :: "u8 \<Rightarrow> int" where
  "pos c = pos_loop base64_chars 0 c"

abbreviation (input) DECODE_ERROR :: u32 where "DECODE_ERROR \<equiv> 0xffffffff"

fun token_loop :: "u8 list \<Rightarrow> u32 \<Rightarrow> u32 \<Rightarrow> u32" where
  "token_loop [] val marker = (if marker > 2 then DECODE_ERROR else push_bit 24 marker OR val)"
| "token_loop (t # ts) val marker =
     (let val' = push_bit 6 val
      in if t = 61 then token_loop ts val' (marker + 1)
         else if marker > 0 then DECODE_ERROR
         else let char_pos = pos t
              in if char_pos < 0 then DECODE_ERROR
                 else token_loop ts (val' + word_of_int char_pos) marker)"

definition token_decode :: "u8 list \<Rightarrow> u32" where
  "token_decode token = (if length token < 4 then DECODE_ERROR else token_loop (take 4 token) 0 0)"

text \<open>Writing one byte: \<open>None\<close> is the return value -1.\<close>

definition put_byte :: "int \<Rightarrow> u8 list option \<Rightarrow> int \<Rightarrow> u32 \<Rightarrow> (u8 list option \<times> int) option cres" where
  "put_byte sz mem q v =
     (if sz \<ge> 0 \<and> q \<ge> sz then Inr None
      else bindE (mem_write mem q [ucast v]) (\<lambda>mem'. Inr (Some (mem', q + 1))))"

function decode_loop :: "u8 list \<Rightarrow> int \<Rightarrow> u8 list option \<Rightarrow> int \<Rightarrow> (int \<times> u8 list option) cres" where
  "decode_loop str sz mem q =
     (case str of
        [] \<Rightarrow> Inr (q, mem)
      | c # _ \<Rightarrow>
          if c = 61 \<or> c \<in> set base64_chars
          then let val = token_decode str; marker = drop_bit 24 val AND 0xff
               in if val = DECODE_ERROR then Inr (- 1, mem)
                  else bindE (put_byte sz mem q (drop_bit 16 val AND 0xff)) (\<lambda>r1.
                       case r1 of None \<Rightarrow> Inr (- 1, mem) | Some (mem1, q1) \<Rightarrow>
                       bindE (if marker < 2 then put_byte sz mem1 q1 (drop_bit 8 val AND 0xff) else Inr (Some (mem1, q1))) (\<lambda>r2.
                       case r2 of None \<Rightarrow> Inr (- 1, mem1) | Some (mem2, q2) \<Rightarrow>
                       bindE (if marker < 1 then put_byte sz mem2 q2 (val AND 0xff) else Inr (Some (mem2, q2))) (\<lambda>r3.
                       case r3 of None \<Rightarrow> Inr (- 1, mem2) | Some (mem3, q3) \<Rightarrow>
                       decode_loop (drop 4 str) sz mem3 q3)))
          else Inr (q, mem))"
  by pat_completeness auto
termination
  by (relation "measure (\<lambda>(str, sz, mem, q). length str)") auto

declare decode_loop.simps [simp del]

definition openvpn_base64_decode :: "u8 list \<Rightarrow> u8 list option \<Rightarrow> int \<Rightarrow> (int \<times> u8 list option) cres" where
  "openvpn_base64_decode str data sz = decode_loop str sz data 0"


section \<open>Tokens\<close>

definition triple :: "u8 \<Rightarrow> u8 \<Rightarrow> u8 \<Rightarrow> u32" where
  "triple a b c = push_bit 16 (ucast a) OR push_bit 8 (ucast b) OR ucast c"

definition sextet :: "nat \<Rightarrow> u32 \<Rightarrow> u8" where
  "sextet k c = base64_chars ! unat (take_bit 6 (drop_bit k c))"

definition bytes3 :: "u8 list \<Rightarrow> u32" where
  "bytes3 xs = triple (xs ! 0) (if length xs < 2 then 0 else xs ! 1) (if length xs < 3 then 0 else xs ! 2)"

definition tok :: "u8 list \<Rightarrow> u8 list" where
  "tok xs = [sextet 18 (bytes3 xs), sextet 12 (bytes3 xs), if length xs < 2 then 61 else sextet 6 (bytes3 xs),
     if length xs < 3 then 61 else sextet 0 (bytes3 xs)]"

fun enc :: "u8 list \<Rightarrow> u8 list" where
  "enc xs = (if xs = [] then [] else tok (take 3 xs) @ enc (drop 3 xs))"

declare enc.simps [simp del]

lemma length_base64_chars [simp]: "length base64_chars = 64"
  by (simp add: base64_chars_def cstr_def)

lemma base64_codes: "base64_chars = map word_of_nat
    [65, 66, 67, 68, 69, 70, 71, 72, 73, 74, 75, 76, 77, 78, 79, 80, 81, 82, 83, 84, 85, 86, 87, 88,
     89, 90, 97, 98, 99, 100, 101, 102, 103, 104, 105, 106, 107, 108, 109, 110, 111, 112, 113, 114,
     115, 116, 117, 118, 119, 120, 121, 122, 48, 49, 50, 51, 52, 53, 54, 55, 56, 57, 43, 47]"
  by (simp add: base64_chars_def cstr_def)

lemma distinct_codes: "distinct base64_chars" "61 \<notin> set base64_chars" "0 \<notin> set base64_chars"
proof -
  have i: "inj_on (word_of_nat :: nat \<Rightarrow> u8) {..<256}"
    by (rule inj_onI) (simp add: word_of_nat_eq_iff take_bit_eq_mod)
  show "distinct base64_chars"
    unfolding base64_codes distinct_map by (intro conjI inj_on_subset [OF i]) simp_all
  show "61 \<notin> set base64_chars" "0 \<notin> set base64_chars" by (simp_all add: base64_codes)
qed

lemma pos_loop_nth: "distinct xs \<Longrightarrow> k < length xs \<Longrightarrow> pos_loop xs i (xs ! k) = i + int k"
proof (induction xs arbitrary: i k)
  case (Cons x xs)
  then show ?case by (cases k) auto
qed simp

lemma alphabet: "\<forall>k \<in> {..<64}. pos (base64_chars ! k) = int k \<and> base64_chars ! k \<noteq> 61 \<and> base64_chars ! k \<noteq> 0"
proof
  fix k :: nat assume "k \<in> {..<64}"
  then have k: "k < length base64_chars" by simp
  have "pos (base64_chars ! k) = int k" unfolding pos_def using pos_loop_nth [OF distinct_codes(1) k, of 0] by simp
  moreover have "base64_chars ! k \<noteq> 61" "base64_chars ! k \<noteq> 0" using nth_mem [OF k] distinct_codes(2,3) by metis+
  ultimately show "pos (base64_chars ! k) = int k \<and> base64_chars ! k \<noteq> 61 \<and> base64_chars ! k \<noteq> 0" by simp
qed

lemma unat_take6: "unat (take_bit 6 (w :: u32)) < 64"
  using take_bit_nat_less_exp [of 6 "unat w"] by (simp add: unsigned_take_bit_eq)

lemma sextet_facts:
  "sextet k c \<noteq> 61" "sextet k c \<noteq> 0" "sextet k c \<in> set base64_chars"
  "pos (sextet k c) = int (unat (take_bit 6 (drop_bit k c)))"
  "word_of_int (pos (sextet k c)) = take_bit 6 (drop_bit k c)" "\<not> pos (sextet k c) < 0"
proof -
  let ?n = "unat (take_bit 6 (drop_bit k c))"
  have n: "?n \<in> {..<64}" using unat_take6 by simp
  show "sextet k c \<noteq> 61" "sextet k c \<noteq> 0" and p: "pos (sextet k c) = int ?n"
    using bspec [OF alphabet n] by (simp_all add: sextet_def)
  show "sextet k c \<in> set base64_chars" using n by (simp add: sextet_def)
  show "word_of_int (pos (sextet k c)) = take_bit 6 (drop_bit k c)" "\<not> pos (sextet k c) < 0" unfolding p by simp_all
qed

lemma triple_sum: "push_bit 8 (push_bit 8 (ucast a :: u32) + ucast b) + ucast c = triple a b c"
proof -
  have 1: "push_bit 8 (ucast a :: u32) + ucast b = push_bit 8 (ucast a) OR ucast b"
    by (rule disjunctive_add) (auto simp: bit_simps dest: bit_imp_le_length)
  have "push_bit 8 (push_bit 8 (ucast a :: u32) OR ucast b) + ucast c = push_bit 8 (push_bit 8 (ucast a) OR ucast b) OR ucast c"
    by (rule disjunctive_add) (auto simp: bit_simps dest: bit_imp_le_length)
  also have "\<dots> = triple a b c" by (rule bit_word_eqI) (auto simp: bit_simps triple_def)
  finally show ?thesis unfolding 1 .
qed

lemma masks24: "(0x00fc0000 :: u32) = push_bit 18 (mask 6)" "(0x0003f000 :: u32) = push_bit 12 (mask 6)"
  "(0x00000fc0 :: u32) = push_bit 6 (mask 6)" "(0x0000003f :: u32) = mask 6"
  by (simp_all add: mask_eq_exp_minus_1)

lemma sextet_mask:
  "drop_bit 18 ((c :: u32) AND 0x00fc0000) = take_bit 6 (drop_bit 18 c)" "drop_bit 12 (c AND 0x0003f000) = take_bit 6 (drop_bit 12 c)"
  "drop_bit 6 (c AND 0x00000fc0) = take_bit 6 (drop_bit 6 c)" "c AND 0x0000003f = take_bit 6 (drop_bit 0 c)"
  unfolding masks24 by (rule bit_word_eqI; auto simp: bit_simps)+

lemma sextet_get: "arr_get base64_chars (uint (take_bit 6 (drop_bit k c) :: u32)) = Inr (sextet k c)"
proof -
  have "uint (take_bit 6 (drop_bit k c)) < 64"
    using take_bit_int_less_exp [of 6 "uint (drop_bit k c)"] by (simp add: unsigned_take_bit_eq)
  then show ?thesis by (simp add: sextet_def arr_get_def)
qed

lemma encode_token_eq:
  assumes "0 \<le> i" "i < int (length q)"
  shows "encode_token q (int (length q)) i = Inr (tok (take 3 (drop (nat i) q)))"
proof -
  obtain n where n: "i = int n" using assms(1) by (metis nonneg_int_cases)
  let ?xs = "take 3 (drop n q)"
  have g: "arr_get q (int n) = Inr (?xs ! 0)" using assms(2) n by (simp add: arr_get_def)
  have g1: "(if int n + 1 < int (length q) then arr_get q (int n + 1) else Inr 0) = Inr (if length ?xs < 2 then 0 else ?xs ! 1)"
    by (auto simp: arr_get_def nat_add_distrib)
  have g2: "(if int n + 2 < int (length q) then arr_get q (int n + 2) else Inr 0) = Inr (if length ?xs < 3 then 0 else ?xs ! 2)"
    by (auto simp: arr_get_def nat_add_distrib)
  have l: "int n + 3 > int (length q) + 1 \<longleftrightarrow> length ?xs < 2" "int n + 3 > int (length q) \<longleftrightarrow> length ?xs < 3"
    using assms(2) n by auto
  show ?thesis
    unfolding n encode_token_def g g1 g2 bindE_Inr triple_sum bytes3_def [symmetric] Let_def sextet_mask sextet_get l
    by (simp add: tok_def)
qed

lemma add_push6: "push_bit 6 (v :: u32) + take_bit 6 w = push_bit 6 v OR take_bit 6 w"
  by (rule disjunctive_add) (auto simp: bit_simps)

lemma bytes3_bits: "n \<ge> 24 \<Longrightarrow> \<not> bit (bytes3 xs) n"
  by (auto simp: bytes3_def triple_def bit_simps dest: bit_imp_le_length)

lemma bits24:
  assumes "\<And>n. n \<ge> 24 \<Longrightarrow> \<not> bit (c :: u32) n"
  shows "push_bit 6 (push_bit 6 (push_bit 6 (take_bit 6 (drop_bit 18 c)) OR take_bit 6 (drop_bit 12 c)) OR take_bit 6 (drop_bit 6 c))
           OR take_bit 6 (drop_bit 0 c) = c" (is "?l = c")
proof (rule bit_word_eqI)
  fix n assume n: "n < LENGTH(32)"
  consider "n < 6" | "6 \<le> n" "n < 12" | "12 \<le> n" "n < 18" | "18 \<le> n" "n < 24" | "24 \<le> n" by linarith
  then show "bit ?l n \<longleftrightarrow> bit c n" using assms [of n] n by cases (auto simp: bit_simps)
qed

definition token_val :: "u8 list \<Rightarrow> u32" where
  "token_val xs = push_bit 24 (word_of_nat (3 - length xs)) OR bytes3 xs"

lemma length_123:
  assumes "xs \<noteq> []" "length xs \<le> 3"
  obtains "length xs = 1" | "length xs = 2" | "length xs = 3"
proof -
  have "0 < length xs" using assms(1) by simp
  then have "length xs = 1 \<or> length xs = 2 \<or> length xs = 3" using assms(2) by linarith
  then show ?thesis using that by blast
qed

lemma token_decode_tok:
  assumes "xs \<noteq> []" "length xs \<le> 3"
  shows "token_decode (tok xs @ rest) = token_val xs"
proof -
  let ?c = "bytes3 xs"
  note b = bits24 [OF bytes3_bits, of xs]
  note f = sextet_facts(1,5,6)
  have l0: "length xs < 3 \<Longrightarrow> take_bit 6 ?c = 0"
    by (rule bit_word_eqI) (auto simp: bytes3_def triple_def bit_simps)
  have l6: "length xs < 2 \<Longrightarrow> take_bit 6 (drop_bit 6 ?c) = 0"
    by (rule bit_word_eqI) (auto simp: bytes3_def triple_def bit_simps)
  have t4: "take 4 (tok xs @ rest) = tok xs" "\<not> length (tok xs @ rest) < 4" by (simp_all add: tok_def)
  from assms show ?thesis
  proof (cases rule: length_123)
    case 1
    then have "token_loop (tok xs) 0 0 = push_bit 24 2 OR ?c"
      using b l0 l6 by (simp add: tok_def f Let_def add_push6)
    then show ?thesis unfolding token_decode_def t4 using 1 t4(2) by (simp add: token_val_def)
  next
    case 2
    then have "token_loop (tok xs) 0 0 = push_bit 24 1 OR ?c"
      using b l0 by (simp add: tok_def f Let_def add_push6)
    then show ?thesis unfolding token_decode_def t4 using 2 t4(2) by (simp add: token_val_def)
  next
    case 3
    then have "token_loop (tok xs) 0 0 = ?c"
      using b by (simp add: tok_def f Let_def add_push6)
    then show ?thesis unfolding token_decode_def t4 using 3 t4(2) by (simp add: token_val_def)
  qed
qed

lemma small_bits: "(m :: u32) = 0 \<or> m = 1 \<or> m = 2 \<Longrightarrow> n \<ge> 8 \<Longrightarrow> \<not> bit m n"
  by (elim disjE) (simp_all add: bit_1_iff bit_2_iff)

lemma token_val_fields:
  assumes "xs \<noteq> []" "length xs \<le> 3"
  shows "drop_bit 24 (token_val xs) AND 0xff = word_of_nat (3 - length xs)" "token_val xs \<noteq> DECODE_ERROR"
    "ucast (drop_bit 16 (token_val xs) AND 0xff) = xs ! 0"
    "2 \<le> length xs \<Longrightarrow> ucast (drop_bit 8 (token_val xs) AND 0xff) = xs ! 1"
    "3 \<le> length xs \<Longrightarrow> ucast (token_val xs AND 0xff) = xs ! 2"
proof -
  have m: "(0xff :: u32) = mask 8" by (simp add: mask_eq_exp_minus_1)
  let ?m = "word_of_nat (3 - length xs) :: u32"
  have m3: "?m = 0 \<or> ?m = 1 \<or> ?m = 2" by (rule length_123 [OF assms]) simp_all
  have mb: "n \<ge> 8 \<Longrightarrow> \<not> bit ?m n" for n by (rule small_bits [OF m3])
  have "drop_bit 24 (token_val xs) AND mask 8 = ?m"
  proof (rule bit_word_eqI)
    fix n assume "n < LENGTH(32)"
    then show "bit (drop_bit 24 (token_val xs) AND mask 8) n \<longleftrightarrow> bit ?m n"
      using mb [of n] bytes3_bits [of "24 + n" xs] by (cases "n < 8") (auto simp: token_val_def bit_simps)
  qed
  then show e: "drop_bit 24 (token_val xs) AND 0xff = ?m" unfolding m .
  show "token_val xs \<noteq> DECODE_ERROR"
  proof
    assume "token_val xs = DECODE_ERROR"
    then have "drop_bit 24 DECODE_ERROR AND 0xff = ?m" using e by simp
    then show False using m3 by auto
  qed
  show "ucast (drop_bit 16 (token_val xs) AND 0xff) = xs ! 0" unfolding m
    by (rule bit_word_eqI) (auto simp: token_val_def bytes3_def triple_def bit_simps dest: bit_imp_le_length)
  show "ucast (drop_bit 8 (token_val xs) AND 0xff) = xs ! 1" if "2 \<le> length xs" unfolding m using that
    by (intro bit_word_eqI) (auto simp: token_val_def bytes3_def triple_def bit_simps dest: bit_imp_le_length)
  show "ucast (token_val xs AND 0xff) = xs ! 2" if "3 \<le> length xs" unfolding m using that
    by (intro bit_word_eqI) (auto simp: token_val_def bytes3_def triple_def bit_simps dest: bit_imp_le_length)
qed


section \<open>Encoding and decoding\<close>

lemma put_byte_ok:
  assumes "0 \<le> q" "q < int (length m)" "sz < 0 \<or> q < sz"
  shows "put_byte sz (Some m) q v = Inr (Some (Some (patch m (nat q) [ucast v]), q + 1))"
  using assms by (auto simp: put_byte_def)

lemma patch_patch:
  "i + length xs + length ys \<le> length m \<Longrightarrow> patch (patch m i xs) (i + length xs) ys = patch m i (xs @ ys)"
  by (cases xs) (auto simp: patch_def min_def add_ac)

lemma patch_patch_int:
  "0 \<le> i \<Longrightarrow> i + int (length xs) + int (length ys) \<le> int (length m) \<Longrightarrow>
   patch (patch m (nat i) xs) (nat (i + int (length xs))) ys = patch m (nat i) (xs @ ys)"
  using patch_patch [of "nat i" xs ys m] by (simp add: nat_add_distrib)

lemma tok_Cons: "\<exists>c cs. tok xs = c # cs \<and> (c = 61 \<or> c \<in> set base64_chars)"
  by (simp add: tok_def sextet_facts)

text \<open>One round of the decoder undoes one round of the encoder.\<close>

lemma decode_token:
  assumes xs: "xs \<noteq> []" "length xs \<le> 3"
    and q: "0 \<le> q" "q + int (length xs) \<le> int (length m)" "sz < 0 \<or> q + int (length xs) \<le> sz"
  shows "decode_loop (tok xs @ rest) sz (Some m) q =
           decode_loop rest sz (Some (patch m (nat q) xs)) (q + int (length xs))"
proof -
  note v = token_val_fields [OF xs]
  obtain c cs where t: "tok xs = c # cs" "c = 61 \<or> c \<in> set base64_chars" using tok_Cons by blast
  have d4: "drop 4 (tok xs @ rest) = rest" by (simp add: tok_def)
  have un: "decode_loop (tok xs @ rest) sz (Some m) q =
     (let val = token_val xs; marker = drop_bit 24 val AND 0xff
               in if val = DECODE_ERROR then Inr (- 1, Some m)
                  else bindE (put_byte sz (Some m) q (drop_bit 16 val AND 0xff)) (\<lambda>r1.
                       case r1 of None \<Rightarrow> Inr (- 1, Some m) | Some (mem1, q1) \<Rightarrow>
                       bindE (if marker < 2 then put_byte sz mem1 q1 (drop_bit 8 val AND 0xff) else Inr (Some (mem1, q1))) (\<lambda>r2.
                       case r2 of None \<Rightarrow> Inr (- 1, mem1) | Some (mem2, q2) \<Rightarrow>
                       bindE (if marker < 1 then put_byte sz mem2 q2 (val AND 0xff) else Inr (Some (mem2, q2))) (\<lambda>r3.
                       case r3 of None \<Rightarrow> Inr (- 1, mem2) | Some (mem3, q3) \<Rightarrow>
                       decode_loop rest sz mem3 q3))))"
    unfolding decode_loop.simps [of "tok xs @ rest"] token_decode_tok [OF xs] d4 unfolding t(1) using t(2) by simp
  have p1: "put_byte sz (Some m) q (drop_bit 16 (token_val xs) AND 0xff) = Inr (Some (Some (patch m (nat q) [xs ! 0]), q + 1))"
    using put_byte_ok [of q m sz] v(3) q xs(1) by (cases xs) auto
  from xs show ?thesis
  proof (cases rule: length_123)
    case 1
    then have "xs = [xs ! 0]" by (cases xs) auto
    then show ?thesis unfolding un Let_def v(1) p1 using v(2) 1 by simp
  next
    case 2
    then have e: "xs = [xs ! 0] @ [xs ! 1]" by (cases xs; cases "tl xs") auto
    have p2: "put_byte sz (Some (patch m (nat q) [xs ! 0])) (q + 1) (drop_bit 8 (token_val xs) AND 0xff)
        = Inr (Some (Some (patch m (nat q) xs), q + 2))"
      using put_byte_ok [of "q + 1" "patch m (nat q) [xs ! 0]" sz] v(4) q 2 patch_patch_int [of q "[xs ! 0]" "[xs ! 1]" m] e
      by auto
    show ?thesis unfolding un Let_def v(1) p1 using v(2) 2 p2 by simp
  next
    case 3
    then have e: "xs = [xs ! 0, xs ! 1] @ [xs ! 2]" by (cases xs; cases "tl xs"; cases "tl (tl xs)") auto
    have p2: "put_byte sz (Some (patch m (nat q) [xs ! 0])) (q + 1) (drop_bit 8 (token_val xs) AND 0xff)
        = Inr (Some (Some (patch m (nat q) [xs ! 0, xs ! 1]), q + 2))"
      using put_byte_ok [of "q + 1" "patch m (nat q) [xs ! 0]" sz] v(4) q 3 patch_patch_int [of q "[xs ! 0]" "[xs ! 1]" m]
      by auto
    have p3: "put_byte sz (Some (patch m (nat q) [xs ! 0, xs ! 1])) (q + 2) (token_val xs AND 0xff)
        = Inr (Some (Some (patch m (nat q) xs), q + 3))"
      using put_byte_ok [of "q + 2" "patch m (nat q) [xs ! 0, xs ! 1]" sz] v(5) q 3 patch_patch_int [of q "[xs ! 0, xs ! 1]" "[xs ! 2]" m] e
      by auto
    show ?thesis unfolding un Let_def v(1) p1 using v(2) 3 p2 p3 by simp
  qed
qed

lemma decode_loop_enc:
  assumes "0 \<le> q" "q + int (length xs) \<le> int (length m)" "sz < 0 \<or> q + int (length xs) \<le> sz"
  shows "decode_loop (enc xs) sz (Some m) q = Inr (q + int (length xs), Some (patch m (nat q) xs))"
  using assms
proof (induction xs arbitrary: m q rule: enc.induct)
  case (1 xs)
  show ?case
  proof (cases "xs = []")
    case True
    then show ?thesis by (simp add: enc.simps [of "[]"] decode_loop.simps [of "[]"])
  next
    case False
    let ?t = "take 3 xs" and ?r = "drop 3 xs"
    have l: "int (length ?t) + int (length ?r) = int (length xs)" "int (length ?t) \<le> int (length xs)" by simp_all
    have b: "q + int (length ?t) \<le> int (length m)" "sz < 0 \<or> q + int (length ?t) \<le> sz" using "1.prems" l by auto
    let ?m = "patch m (nat q) ?t"
    have lm: "length ?m = length m" using b(1) "1.prems"(1) by (intro length_patch) linarith
    have "decode_loop (enc xs) sz (Some m) q = decode_loop (enc ?r) sz (Some ?m) (q + int (length ?t))"
      using False decode_token [of ?t q m sz "enc ?r"] b "1.prems"(1) by (simp add: enc.simps [of xs])
    also have "\<dots> = Inr (q + int (length ?t) + int (length ?r), Some (patch ?m (nat (q + int (length ?t))) ?r))"
      using "1.prems" l lm by (intro "1.IH" [OF False]) auto
    also have "q + int (length ?t) + int (length ?r) = q + int (length xs)" using l by linarith
    also have "patch ?m (nat (q + int (length ?t))) ?r = patch m (nat q) xs"
      using patch_patch_int [of q ?t ?r m] "1.prems" l by (simp only: append_take_drop_id)
    finally show ?thesis .
  qed
qed

lemma length_enc: "int (length (enc xs)) + 1 \<le> int (length xs) * 4 div 3 + 4"
proof (induction xs rule: enc.induct)
  case (1 xs)
  show ?case
  proof (cases "length xs \<le> 3")
    case True
    then show ?thesis by (cases "xs = []") (simp_all add: enc.simps [of xs] enc.simps [of "[]"] tok_def flip: length_greater_0_conv)
  next
    case False
    then have ne: "xs \<noteq> []" "length xs = 3 + length (drop 3 xs)" by auto
    have "length (enc xs) = 4 + length (enc (drop 3 xs))" using ne(1) by (simp add: enc.simps [of xs] tok_def)
    then show ?thesis using "1.IH" [OF ne(1)] ne(2) by presburger
  qed
qed

lemma enc_no_null: "0 \<notin> set (enc xs)"
proof (induction xs rule: enc.induct)
  case (1 xs)
  have "sextet k c \<noteq> 0" for k c by (rule sextet_facts)
  then have "0 \<notin> set (tok (take 3 xs))" by (auto simp: tok_def)
  then show ?case using "1.IH" by (auto simp: enc.simps [of xs])
qed

lemma encode_loop_enc:
  assumes "0 \<le> i" "0 \<le> p" "p + int (length (enc (drop (nat i) q))) \<le> int (length m)"
  shows "encode_loop q (int (length q)) i (Some m) p =
           Inr (Some (patch m (nat p) (enc (drop (nat i) q))), p + int (length (enc (drop (nat i) q))))"
  using assms
proof (induction "nat (int (length q) - i)" arbitrary: i m p rule: less_induct)
  case less
  show ?case
  proof (cases "i < int (length q)")
    case False
    then show ?thesis using less.prems by (simp add: encode_loop.simps [of q _ i] enc.simps [of "[]"])
  next
    case True
    let ?d = "drop (nat i) q"
    have ne: "?d \<noteq> []" using True less.prems(1) by simp
    have e: "enc ?d = tok (take 3 ?d) @ enc (drop (nat (i + 3)) q)"
      using ne less.prems(1) by (simp add: enc.simps [of ?d] nat_add_distrib add.commute)
    let ?t = "tok (take 3 ?d)" and ?r = "enc (drop (nat (i + 3)) q)"
    have lt: "length ?t = 4" by (simp add: tok_def)
    have b: "p + 4 \<le> int (length m)" "p + 4 + int (length ?r) \<le> int (length m)"
      using less.prems(3) lt unfolding e by simp_all
    let ?m = "patch m (nat p) ?t"
    have w: "mem_write (Some m) p ?t = Inr (Some ?m)" using b(1) less.prems(2) lt by simp
    have lm: "length ?m = length m" using b(1) less.prems(2) lt by (intro length_patch) linarith
    have "encode_loop q (int (length q)) i (Some m) p = encode_loop q (int (length q)) (i + 3) (Some ?m) (p + 4)"
      using True w encode_token_eq [OF less.prems(1) True] by (simp add: encode_loop.simps [of q _ i])
    also have "\<dots> = Inr (Some (patch ?m (nat (p + 4)) ?r), p + 4 + int (length ?r))"
      using True less.prems(1,2) b lm by (intro less.hyps) auto
    also have "patch ?m (nat (p + 4)) ?r = patch m (nat p) (enc ?d)"
      using patch_patch_int [of p ?t ?r m] less.prems(2) b(2) lt unfolding e by simp
    finally show ?thesis unfolding e using lt by simp
  qed
qed

lemma encode_ok:
  assumes "int (length data) * 4 div 3 + 4 \<le> INT_MAX" "malloc (nat (int (length data) * 4 div 3 + 4)) = Some block"
    and "int (length block) = int (length data) * 4 div 3 + 4"
  shows "\<exists>mem. openvpn_base64_encode malloc data (int (length data)) = Inr (int (length (enc data)), Some mem)
           \<and> take (length (enc data)) mem = enc data \<and> length (enc data) < length mem \<and> mem ! length (enc data) = 0"
proof -
  let ?e = "enc data" and ?n = "length (enc data)"
  have n: "int ?n + 1 \<le> int (length block)" using length_enc [of data] assms(3) by simp
  let ?m = "patch block 0 ?e" and ?mz = "patch (patch block 0 ?e) ?n [0]"
  have l: "length ?m = length block" "length ?mz = length block" using n by (simp_all add: length_patch)
  have r: "encode_loop data (int (length data)) 0 (Some block) 0 = Inr (Some ?m, int ?n)"
    using encode_loop_enc [of 0 0 data block] n by simp
  have w: "mem_write (Some ?m) (int ?n) [0] = Inr (Some ?mz)"
    using mem_write_Some [of "int ?n" "[0]" ?m] n l by simp
  have m0: "?mz = ?e @ 0 # drop (Suc ?n) block" using n by (simp add: patch_def)
  have "takeWhile (\<lambda>c. c \<noteq> 0) (?e @ 0 # drop (Suc ?n) block) = ?e"
    using enc_no_null by (subst takeWhile_append2) auto
  then have s: "c_strlen (Some ?mz) 0 = Inr (int ?n)" unfolding m0 by (simp add: c_strlen_def)
  have "openvpn_base64_encode malloc data (int (length data)) = Inr (int ?n, Some ?mz)"
    using assms(1,2) r w s by (simp add: openvpn_base64_encode_def Let_def)
  then show ?thesis by (intro exI [of _ ?mz] conjI) (use n l(2) in \<open>simp_all add: m0\<close>)
qed

text \<open>
  C25: Encoding stays inside the memory it allocates and returns the length of its output, a null-terminated
  string.  Decoding that string into a large enough buffer stays inside the buffer, gives
  back the encoded bytes and their number, and leaves the rest of the buffer alone.
\<close>

theorem base64_roundtrip:
  assumes "int (length data) * 4 div 3 + 4 \<le> INT_MAX" "malloc (nat (int (length data) * 4 div 3 + 4)) = Some block"
    and "int (length block) = int (length data) * 4 div 3 + 4"
    and "length data \<le> length buf" "sz < 0 \<or> int (length data) \<le> sz"
  shows "\<exists>n mem. openvpn_base64_encode malloc data (int (length data)) = Inr (int n, Some mem)
           \<and> n < length mem \<and> mem ! n = 0 \<and> 0 \<notin> set (take n mem)
           \<and> openvpn_base64_decode (take n mem) (Some buf) sz = Inr (int (length data), Some (data @ drop (length data) buf))"
proof -
  from encode_ok [of data malloc block, OF assms(1-3)] obtain mem where
    m: "openvpn_base64_encode malloc data (int (length data)) = Inr (int (length (enc data)), Some mem)"
    "take (length (enc data)) mem = enc data" "length (enc data) < length mem" "mem ! length (enc data) = 0" by blast
  have "openvpn_base64_decode (enc data) (Some buf) sz = Inr (int (length data), Some (data @ drop (length data) buf))"
    using decode_loop_enc [of 0 data buf sz] assms(4,5) by (simp add: openvpn_base64_decode_def patch_def)
  then show ?thesis using m enc_no_null [of data] by (intro exI [of _ "length (enc data)"] exI [of _ mem]) simp
qed

theorem base64_roundtrip_witness:
  "\<exists>n mem. openvpn_base64_encode (\<lambda>k. Some (replicate k 7)) [1, 2, 3, 250] 4 = Inr (int n, Some mem)
     \<and> openvpn_base64_decode (take n mem) (Some [9, 9, 9, 9, 9]) 5 = Inr (4, Some [1, 2, 3, 250, 9])"
  using base64_roundtrip [of "[1, 2, 3, 250]" "\<lambda>k. Some (replicate k 7)" "replicate 9 7" "[9, 9, 9, 9, 9]" 5] by auto

definition decode_inv :: "int \<Rightarrow> (int \<times> u8 list option) cres \<Rightarrow> bool" where
  "decode_inv sz r \<longleftrightarrow> (\<exists>n m. r = Inr (n, Some m) \<and> - 1 \<le> n \<and> n \<le> sz \<and> int (length m) = sz)"

lemma put_byte_safe:
  assumes "int (length m) = sz" "0 \<le> q"
  shows "put_byte sz (Some m) q v = Inr None
     \<or> (\<exists>m'. put_byte sz (Some m) q v = Inr (Some (Some m', q + 1)) \<and> int (length m') = sz \<and> q + 1 \<le> sz)"
proof (cases "q < sz")
  case True
  then have "put_byte sz (Some m) q v = Inr (Some (Some (patch m (nat q) [ucast v]), q + 1))"
    using assms by (intro put_byte_ok) auto
  moreover have "length (patch m (nat q) [ucast v]) = length m" using True assms by (intro length_patch) auto
  ultimately show ?thesis using True assms by auto
next
  case False
  then show ?thesis using assms by (auto simp: put_byte_def)
qed

text \<open>A byte that may be written, and what follows it.\<close>

lemma put_byte_then:
  assumes "int (length m) = sz" "0 \<le> q" "q \<le> sz"
    and "\<And>m' q'. int (length m') = sz \<Longrightarrow> 0 \<le> q' \<Longrightarrow> q' \<le> sz \<Longrightarrow> decode_inv sz (f (Some m') q')"
  shows "decode_inv sz (bindE (if p then put_byte sz (Some m) q v else Inr (Some (Some m, q)))
           (\<lambda>r. case r of None \<Rightarrow> Inr (- 1, Some m) | Some (m', q') \<Rightarrow> f m' q'))"
proof (cases p)
  case True
  have "decode_inv sz (Inr (- 1, Some m))" using assms(1-3) by (simp add: decode_inv_def)
  then show ?thesis using put_byte_safe [OF assms(1,2), of v] assms(2,4) True by auto
qed (use assms in auto)

lemma decode_loop_safe_aux:
  assumes "int (length m) = sz" "0 \<le> q" "q \<le> sz"
  shows "decode_inv sz (decode_loop str sz (Some m) q)"
  using assms
proof (induction str arbitrary: m q rule: length_induct)
  case (1 str)
  have stop: "decode_inv sz (Inr (q, Some m))" "decode_inv sz (Inr (- 1, Some m))"
    using "1.prems" by (auto simp: decode_inv_def)
  show ?case
  proof (cases str)
    case Nil
    then show ?thesis using stop by (simp add: decode_loop.simps [of "[]"])
  next
    case (Cons c cs)
    have rec: "decode_inv sz (decode_loop (drop 4 (c # cs)) sz (Some m') q')"
      if "int (length m') = sz" "0 \<le> q'" "q' \<le> sz" for m' q'
      using "1.IH" that Cons by simp
    note step = put_byte_then [where p = True, unfolded if_True, OF "1.prems"]
    show ?thesis
      unfolding Cons decode_loop.simps [of "c # cs"] list.case Let_def if_split [of "decode_inv sz"]
      by (intro conjI impI stop step put_byte_then rec; assumption)
  qed
qed

lemma decode_loop_safe:
  assumes "int (length m) = sz" "0 \<le> q" "q \<le> sz" "int (length buf) = sz"
  shows "\<exists>n buf'. decode_loop str sz (Some m) q = Inr (n, Some buf') \<and> - 1 \<le> n \<and> n \<le> sz \<and> length buf' = length buf"
  using decode_loop_safe_aux [OF assms(1-3), of str] assms(4) by (auto simp: decode_inv_def)

text \<open>
  C26: Whatever the input, decoding into a buffer whose size is given neither reads nor writes outside of its
  memory, and the number of bytes it reports is at most that size.
\<close>

theorem base64_decode_safe:
  assumes "int (length buf) = sz"
  shows "\<exists>n buf'. openvpn_base64_decode str (Some buf) sz = Inr (n, Some buf') \<and> - 1 \<le> n \<and> n \<le> sz \<and> length buf' = length buf"
  unfolding openvpn_base64_decode_def by (rule decode_loop_safe) (use assms in auto)

theorem base64_decode_safe_witness:
  "\<exists>n buf'. openvpn_base64_decode [65, 65, 65, 65, 66] (Some [9, 9]) 2 = Inr (n, Some buf') \<and> - 1 \<le> n \<and> n \<le> 2 \<and> length buf' = length [9, 9 :: u8]"
  using base64_decode_safe [of "[9, 9]" 2 "[65, 65, 65, 65, 66]"] by simp

end
