(* ===== verification/Proto.thy ===== *)
theory Proto
  imports Buffer
begin

text \<open>
  Headers of tunnelled packets (\<open>proto.h\<close>, \<open>proto.c\<close>).  A field of a header
  is the bytes at its offset in the packed structure, read through the buffer with checked
  access; \<open>inet\<close> stands for the address family \<open>AF_INET\<close>.
\<close>

section \<open>Fields\<close>

definition pkt8 :: "buffer \<Rightarrow> int \<Rightarrow> u8 cres" where
  "pkt8 buf i = bindE (buf_peek buf i 1) (\<lambda>bs. Inr (hd bs))"

definition pkt16 :: "buffer \<Rightarrow> int \<Rightarrow> u16 cres" where
  "pkt16 buf i = bindE (buf_peek buf i 2) (\<lambda>bs. Inr (un_be16 bs))"

definition pkt_put :: "buffer \<Rightarrow> int \<Rightarrow> u8 list \<Rightarrow> buffer cres" where
  "pkt_put buf i bs = buf_poke buf (b_offset buf + i) bs"

abbreviation (input) DEV_TYPE_TUN :: int where "DEV_TYPE_TUN \<equiv> 2"
abbreviation (input) DEV_TYPE_TAP :: int where "DEV_TYPE_TAP \<equiv> 3"
abbreviation (input) OPENVPN_ETH_P_IPV4 :: u16 where "OPENVPN_ETH_P_IPV4 \<equiv> 0x0800"
abbreviation (input) OPENVPN_ETH_P_IPV6 :: u16 where "OPENVPN_ETH_P_IPV6 \<equiv> 0x86DD"
abbreviation (input) OPENVPN_ETH_P_8021Q :: u16 where "OPENVPN_ETH_P_8021Q \<equiv> 0x8100"

definition OPENVPN_IPH_GET_VER :: "u8 \<Rightarrow> u8" where
  "OPENVPN_IPH_GET_VER v = drop_bit 4 v AND 0x0F"

definition OPENVPN_IPH_GET_LEN :: "u8 \<Rightarrow> int" where
  "OPENVPN_IPH_GET_LEN v = push_bit 2 (uint (v AND 0x0F))"

definition OPENVPN_TCPH_GET_DOFF :: "u8 \<Rightarrow> int" where
  "OPENVPN_TCPH_GET_DOFF d = drop_bit 2 (uint (d AND 0xF0))"


section \<open>Access to a well-formed packet\<close>

lemma buf_peek_ok:
  assumes "buf_wf b" "0 \<le> i" "0 \<le> n" "i + n \<le> b_len b"
  shows "buf_peek b i n = Inr (take (nat n) (drop (nat i) (content b)))"
proof -
  from assms(1) obtain m where m: "b_data b = Some m" "int (length m) = b_capacity b" "0 \<le> b_offset b" "0 \<le> b_len b"
    "b_offset b + b_len b \<le> b_capacity b" by (rule buf_wfE)
  have "mem_read (Some m) (b_offset b + i) n = Inr (take (nat n) (drop (nat (b_offset b + i)) m))"
    using m assms(2-4) by (intro mem_read_Some) auto
  moreover have "take (nat n) (drop (nat i) (content b)) = take (nat n) (drop (nat (b_offset b + i)) m)"
  proof -
    have n: "nat (b_offset b + i) = nat i + nat (b_offset b)" "min (nat n) (nat (b_len b) - nat i) = nat n"
      using m(3) assms(2-4) by linarith+
    have "content b = take (nat (b_len b)) (drop (nat (b_offset b)) m)" using m(1) by (simp add: content_def)
    then show ?thesis unfolding n(1) by (simp add: drop_take n(2))
  qed
  ultimately show ?thesis using m(1) assms(1) by (simp add: buf_peek_def)
qed

lemma pkt8_ok [simp]:
  assumes "buf_wf b" "0 \<le> i" "i < b_len b"
  shows "pkt8 b i = Inr (content b ! nat i)"
proof -
  have "nat i < length (content b)" using assms by simp
  then have "take 1 (drop (nat i) (content b)) = [content b ! nat i]" by (simp add: take_Suc hd_drop_conv_nth)
  then show ?thesis using assms unfolding pkt8_def by (subst buf_peek_ok) simp_all
qed

lemma pkt16_ok [simp]:
  assumes "buf_wf b" "0 \<le> i" "i + 1 < b_len b"
  shows "pkt16 b i = Inr (un_be16 [content b ! nat i, content b ! Suc (nat i)])"
proof -
  have "Suc (nat i) < length (content b)" using assms by simp
  then have "take 2 (drop (nat i) (content b)) = [content b ! nat i, content b ! Suc (nat i)]"
    by (simp add: numeral_2_eq_2 take_Suc_conv_app_nth hd_drop_conv_nth)
  then show ?thesis using assms unfolding pkt16_def by (subst buf_peek_ok) simp_all
qed

lemma pkt_put_ok:
  assumes "buf_wf b" "int (i + length bs) \<le> b_len b"
  shows "\<exists>b'. pkt_put b (int i) bs = Inr b' \<and> buf_wf b' \<and> content b' = patch (content b) i bs
           \<and> b_offset b' = b_offset b \<and> b_len b' = b_len b \<and> b_capacity b' = b_capacity b
           \<and> take (nat (b_offset b)) (the (b_data b')) = take (nat (b_offset b)) (the (b_data b))"
proof -
  from assms(1) obtain m where m: "b_data b = Some m" "int (length m) = b_capacity b" "b_capacity b < 1000000" "0 \<le> b_offset b"
    "0 \<le> b_len b" "b_offset b + b_len b \<le> b_capacity b" by (rule buf_wfE)
  have l: "int i + int (length bs) \<le> b_len b" using assms(2) by simp
  let ?m = "patch m (nat (b_offset b) + i) bs"
  have n: "nat (b_offset b + int i) = nat (b_offset b) + i" using m(4) by (simp add: nat_add_distrib)
  have "mem_write (Some m) (b_offset b + int i) bs = Inr (Some (patch m (nat (b_offset b + int i)) bs))"
    using m l by (intro mem_write_Some) auto
  then have run: "pkt_put b (int i) bs = Inr (b\<lparr>b_data := Some ?m\<rparr>)" using m(1) by (simp add: pkt_put_def buf_poke_def n)
  have lm: "length ?m = length m" using m l by (intro length_patch) linarith
  have "buf_wf (b\<lparr>b_data := Some ?m\<rparr>)" using m lm by (intro buf_wfI [where m = ?m]) auto
  moreover have "content (b\<lparr>b_data := Some ?m\<rparr>) = patch (content b) i bs"
  proof (rule nth_equalityI)
    have lc: "length (content b) = nat (b_len b)" using buf_wf_lenI [OF assms(1)] by simp
    show "length (content (b\<lparr>b_data := Some ?m\<rparr>)) = length (patch (content b) i bs)"
      using assms(2) lc m lm by (subst length_patch) (simp_all add: content_def)
    fix k assume "k < length (content (b\<lparr>b_data := Some ?m\<rparr>))"
    then have k: "k < nat (b_len b)" using m lm by (simp add: content_def)
    have b: "nat (b_offset b) + k < length m" "nat (b_offset b) + i + length bs \<le> length m" using k m l by linarith+
    have c: "k < length (content b)" "i + length bs \<le> length (content b)" using k lc l by linarith+
    have "content (b\<lparr>b_data := Some ?m\<rparr>) ! k = ?m ! (nat (b_offset b) + k)" "content b ! k = m ! (nat (b_offset b) + k)"
      using k b lm m(1) by (simp_all add: content_def)
    then show "content (b\<lparr>b_data := Some ?m\<rparr>) ! k = patch (content b) i bs ! k"
      unfolding nth_patch [OF c(2,1)] nth_patch [OF b(2,1)] by auto
  qed
  moreover have "take (nat (b_offset b)) ?m = take (nat (b_offset b)) m" using m l by (intro take_patch) linarith+
  ultimately show ?thesis using run m(1) by auto
qed


section \<open>Which packet is it?\<close>

definition get_tun_ip_ver :: "int \<Rightarrow> buffer \<Rightarrow> int \<Rightarrow> (int \<times> int) cres" where
  "get_tun_ip_ver tunnel_type buf ip_hdr_offset =
     (if tunnel_type = DEV_TYPE_TUN
      then (if buf_len buf \<ge> 20 then bindE (pkt8 buf 0) (\<lambda>v. Inr (uint (OPENVPN_IPH_GET_VER v), 0)) else Inr (- 1, 0))
      else if tunnel_type = DEV_TYPE_TAP
      then (if buf_len buf \<ge> 14
            then bindE (pkt16 buf 12) (\<lambda>p.
                 Inr (if p = OPENVPN_ETH_P_IPV6 then 6 else if p = OPENVPN_ETH_P_IPV4 then 4 else - 1, 14))
            else Inr (- 1, 14))
      else Inr (- 1, ip_hdr_offset))"

definition is_ipv_X :: "int \<Rightarrow> buffer \<Rightarrow> int \<Rightarrow> (bool \<times> buffer) cres" where
  "is_ipv_X tunnel_type buf ip_ver =
     bindE (if tunnel_type = DEV_TYPE_TUN
            then Inr (if buf_len buf < 20 then None else Some 0)
            else if tunnel_type = DEV_TYPE_TAP
            then (if buf_len buf < 14 + 20 then Inr None
                  else bindE (pkt16 buf 12) (\<lambda>p0.
                       bindE (if p0 = OPENVPN_ETH_P_8021Q
                              then (if buf_len buf < 14 + 20 then Inr None
                                    else bindE (pkt16 buf 16) (\<lambda>p. Inr (Some (p, 18))))
                              else Inr (Some (p0, 14))) (\<lambda>r.
                       Inr (case r of
                              None \<Rightarrow> None
                            | Some (p, offset) \<Rightarrow>
                                if p \<noteq> (if ip_ver = 6 then OPENVPN_ETH_P_IPV6 else OPENVPN_ETH_P_IPV4) then None
                                else Some offset))))
            else Inr None) (\<lambda>r.
     case r of
       None \<Rightarrow> Inr (False, buf)
     | Some offset \<Rightarrow>
         bindE (pkt8 buf offset) (\<lambda>v.
         Inr (if uint (OPENVPN_IPH_GET_VER v) = ip_ver then buf_advance buf offset else (False, buf))))"

definition is_ipv4 :: "int \<Rightarrow> buffer \<Rightarrow> (bool \<times> buffer) cres" where
  "is_ipv4 tunnel_type buf = is_ipv_X tunnel_type buf 4"

definition is_ipv6 :: "int \<Rightarrow> buffer \<Rightarrow> (bool \<times> buffer) cres" where
  "is_ipv6 tunnel_type buf = is_ipv_X tunnel_type buf 6"


section \<open>Checksums\<close>

text \<open>Adding the 16-bit words of the first \<open>len\<close> bytes; with \<open>pad\<close> an odd last byte counts as the high half of a word.\<close>

function sum_words :: "u8 list \<Rightarrow> int \<Rightarrow> bool \<Rightarrow> int \<Rightarrow> u32 \<Rightarrow> u32 cres" where
  "sum_words bs len pad i acc =
     (if i < len
      then bindE (arr_get bs i) (\<lambda>a.
           bindE (if i + 1 < len \<or> \<not> pad then arr_get bs (i + 1) else Inr 0) (\<lambda>b.
           sum_words bs len pad (i + 2) (acc + (push_bit 8 (ucast a) + ucast b))))
      else Inr acc)"
  by pat_completeness auto
termination
  by (relation "measure (\<lambda>(bs, len, pad, i, acc). nat (len - i))") auto

declare sum_words.simps [simp del]

lemma unat_low16: "unat ((s :: u32) AND 0xFFFF) = unat s mod 65536"
proof -
  have "s AND 0xFFFF = take_bit 16 s" by (simp add: take_bit_eq_mask mask_eq_exp_minus_1)
  moreover have "unat (take_bit 16 s) = take_bit 16 (unat s)" by (rule unsigned_take_bit_eq)
  ultimately show ?thesis by (simp only: take_bit_eq_mod) simp
qed

lemma unat_high16: "unat (drop_bit 16 (s :: u32)) = unat s div 65536"
  unfolding unat_drop_bit_eq drop_bit_eq_div [of 16 "unat s"] by simp

lemma unat_fold: "unat (((s :: u32) AND 0xFFFF) + drop_bit 16 s) = unat s mod 65536 + unat s div 65536"
proof -
  have "unat s mod 65536 + unat s div 65536 < 2 ^ 32" using unat_lt [of s] by simp
  then show ?thesis by (simp add: unat_word_ariths unat_low16 unat_high16)
qed

lemma fold_decreases: "drop_bit 16 (s :: u32) \<noteq> 0 \<Longrightarrow> unat ((s AND 0xFFFF) + drop_bit 16 s) < unat s"
proof -
  assume "drop_bit 16 s \<noteq> 0"
  then have "unat (drop_bit 16 s) \<noteq> 0" by (simp add: unat_eq_0)
  then have "unat s div 65536 \<noteq> 0" unfolding unat_high16 .
  then show ?thesis unfolding unat_fold using div_mult_mod_eq [of "unat s" 65536] by linarith
qed

function fold_carries :: "u32 \<Rightarrow> u32" where
  "fold_carries s = (if drop_bit 16 s \<noteq> 0 then fold_carries ((s AND 0xFFFF) + drop_bit 16 s) else s)"
  by pat_completeness auto
termination
  by (relation "measure unat") (auto simp: fold_decreases)

declare fold_carries.simps [simp del]

definition ip_checksum :: "bool \<Rightarrow> u8 list \<Rightarrow> int \<Rightarrow> u8 list \<Rightarrow> u8 list \<Rightarrow> int \<Rightarrow> u16 cres" where
  "ip_checksum inet payload len_payload src_addr dest_addr proto =
     (let addr_len = (if inet then 4 else 16)
      in bindE (sum_words payload len_payload True 0 0) (\<lambda>s1.
         bindE (sum_words src_addr addr_len False 0 s1) (\<lambda>s2.
         bindE (sum_words dest_addr addr_len False 0 s2) (\<lambda>s3.
         let s4 = s3 + ucast (word_of_int len_payload :: u16) + ucast (word_of_int proto :: u16)
         in Inr (NOT (ucast (fold_carries s4)))))))"

text \<open>
  The macro \<open>ADJUST_CHECKSUM\<close>; a 16-bit field is read and written in host byte order, which
  is little endian if \<open>le\<close>.
\<close>

definition host16 :: "bool \<Rightarrow> u8 \<Rightarrow> u8 \<Rightarrow> u16" where
  "host16 le a b = (if le then push_bit 8 (ucast b) OR ucast a else push_bit 8 (ucast a) OR ucast b)"

definition host16_bytes :: "bool \<Rightarrow> u16 \<Rightarrow> u8 list" where
  "host16_bytes le w = (if le then [ucast w, ucast (drop_bit 8 w)] else [ucast (drop_bit 8 w), ucast w])"

definition adjust_checksum :: "int \<Rightarrow> u16 \<Rightarrow> u16" where
  "adjust_checksum acc cksum =
     (let a = acc + uint cksum
      in if a < 0
         then let b = - a; c = drop_bit 16 b + (b AND 0xffff); d = c + drop_bit 16 c in word_of_int (NOT d)
         else let c = drop_bit 16 a + (a AND 0xffff); d = c + drop_bit 16 c in word_of_int d)"

definition add_checksum_32 :: "int \<Rightarrow> u32 \<Rightarrow> int" where
  "add_checksum_32 acc w = acc + uint (w AND 0xffff) + uint (drop_bit 16 w)"

definition sub_checksum_32 :: "int \<Rightarrow> u32 \<Rightarrow> int" where
  "sub_checksum_32 acc w = acc - uint (w AND 0xffff) - uint (drop_bit 16 w)"

text \<open>The number of packets whose length is not the one in their header.\<close>

definition ipv4_packet_size_verify :: "u8 list \<Rightarrow> int \<Rightarrow> int \<Rightarrow> u64 \<Rightarrow> u64 cres" where
  "ipv4_packet_size_verify data sz tunnel_type errors =
     (if sz > 0
      then bindE (buf_set_read (Some data) (nat sz)) (\<lambda>buf.
           bindE (is_ipv4 tunnel_type buf) (\<lambda>(ok, buf1).
           if \<not> ok \<or> buf_len buf1 < 20 then Inr errors
           else bindE (pkt16 buf1 2) (\<lambda>totlen.
                Inr (if buf_len buf1 \<noteq> uint totlen then errors + 1 else errors))))
      else Inr errors)"


section \<open>The checksum\<close>

text \<open>The sum of the 16-bit words in network byte order, as it is used in the definition of the checksum.\<close>

fun word_sum :: "u8 list \<Rightarrow> nat" where
  "word_sum [] = 0"
| "word_sum [a] = 256 * unat a"
| "word_sum (a # b # bs) = 256 * unat a + unat b + word_sum bs"

lemma word_sum_bound: "word_sum bs \<le> 32768 * (length bs + 1)"
proof (induction bs rule: word_sum.induct)
  case (2 a)
  then show ?case using unat_lt [of a] by simp
next
  case (3 a b bs)
  then show ?case using unat_lt [of a] unat_lt [of b] by simp
qed simp

lemma word16: "push_bit 8 (ucast a :: u32) + ucast b = word_of_nat (256 * unat a + unat b)"
  by (simp add: push_bit_eq_mult mult.commute)

lemma sum_words_eq:
  assumes "int (length bs) = len" "pad \<or> even (length bs - i)" "i \<le> length bs"
  shows "sum_words bs len pad (int i) acc = Inr (acc + word_of_nat (word_sum (drop i bs)))"
  using assms(2,3)
proof (induction "length bs - i" arbitrary: i acc rule: less_induct)
  case less
  consider "i = length bs" | "Suc i = length bs" | "Suc (Suc i) \<le> length bs" using less.prems(2) by linarith
  then show ?case
  proof cases
    case 1
    then show ?thesis using assms(1) by (simp add: sum_words.simps [of bs])
  next
    case 2
    then have d: "drop i bs = [bs ! i]" using Cons_nth_drop_Suc [of i bs] by simp
    have "length bs - i = 1" using 2 by simp
    then have "pad" using less.prems(1) by simp
    have "sum_words bs len pad (int i + 2) (acc + (push_bit 8 (ucast (bs ! i)) + ucast (0 :: u8))) =
        Inr (acc + (push_bit 8 (ucast (bs ! i)) + ucast (0 :: u8)))"
      using 2 assms(1) by (simp add: sum_words.simps [of bs])
    then show ?thesis
      using 2 \<open>pad\<close> assms(1) word16 [of "bs ! i" 0] unfolding sum_words.simps [of bs len pad "int i"] d by simp
  next
    case 3
    let ?a = "bs ! i" and ?b = "bs ! Suc i"
    have d: "drop i bs = ?a # ?b # drop (Suc (Suc i)) bs"
      using 3 Cons_nth_drop_Suc [of i bs] Cons_nth_drop_Suc [of "Suc i" bs] by simp
    have g: "arr_get bs (int i) = Inr ?a" "arr_get bs (int i + 1) = Inr ?b" using 3 by (simp_all add: arr_get_def nat_add_distrib)
    have e: "pad \<or> even (length bs - Suc (Suc i))" using less.prems(1) 3 by (auto simp: Suc_diff_Suc even_diff_nat)
    have "sum_words bs len pad (int i) acc = sum_words bs len pad (int (Suc (Suc i))) (acc + (push_bit 8 (ucast ?a) + ucast ?b))"
      using 3 assms(1) g unfolding sum_words.simps [of bs len pad "int i"] by (simp add: add.commute)
    also have "\<dots> = Inr (acc + (push_bit 8 (ucast ?a) + ucast ?b) + word_of_nat (word_sum (drop (Suc (Suc i)) bs)))"
      using 3 e by (intro less.hyps) auto
    finally show ?thesis unfolding d word16 by simp
  qed
qed

lemma fold_carries_mod: "unat (fold_carries s) mod 65535 = unat s mod 65535" "unat (fold_carries s) < 65536"
proof (induction s rule: fold_carries.induct)
  case (1 s)
  have m: "(unat s mod 65536 + unat s div 65536) mod 65535 = unat s mod 65535"
  proof -
    have "unat s = (unat s mod 65536 + unat s div 65536) + (unat s div 65536) * 65535"
      using div_mult_mod_eq [of "unat s" 65536] by linarith
    then show ?thesis by (metis mod_mult_self1)
  qed
  {
    case 1
    then show ?case using "1.IH"(1) m unat_fold [of s] by (simp add: fold_carries.simps [of s])
  next
    case 2
    have "drop_bit 16 s = 0 \<Longrightarrow> unat s div 65536 = 0" using unat_high16 [of s] by simp
    then show ?case using "1.IH"(2) by (auto simp: fold_carries.simps [of s] div_eq_0_iff)
  }
qed

lemma unat_NOT16: "unat (NOT w :: u16) = 65535 - unat w"
proof -
  have "NOT w = - 1 - w" by (simp add: not_eq_complement)
  moreover have "unat (- 1 :: u16) = 65535" by (simp add: unsigned_minus_1_eq_mask mask_eq_exp_minus_1)
  ultimately show ?thesis by (simp add: unat_sub word_order.extremum)
qed

lemma unat_word_of_nat_u32: "n < 2 ^ 32 \<Longrightarrow> unat (word_of_nat n :: u32) = n"
  by (simp add: unat_of_nat)

lemma complement_mod:
  assumes "f mod 65535 = n mod 65535" "f < (65536 :: nat)"
  shows "(n + (65535 - f)) mod 65535 = 0"
proof -
  have "(n + (65535 - f)) mod 65535 = (f mod 65535 + (65535 - f)) mod 65535"
    using assms(1) by (metis mod_add_left_eq)
  also have "\<dots> = 0" using assms(2) by (cases "f = 65535") auto
  finally show ?thesis .
qed

text \<open>
  C29: The checksum is the one that makes the sum of all 16-bit words of the payload, of
  the pseudo header and of the checksum itself zero in one's complement arithmetic, for IPv4
  and IPv6 and for payloads of even and of odd length.
\<close>

theorem ip_checksum_verifies:
  assumes "length payload \<le> 65535" "length src = (if inet then 4 else 16)" "length dst = (if inet then 4 else 16)"
    and "0 \<le> proto" "proto \<le> 255"
  shows "\<exists>c. ip_checksum inet payload (int (length payload)) src dst proto = Inr c
           \<and> (word_sum payload + word_sum src + word_sum dst + length payload + nat proto + unat c) mod 65535 = 0"
proof -
  let ?n = "word_sum payload + word_sum src + word_sum dst + length payload + nat proto"
  have s: "sum_words payload (int (length payload)) True 0 0 = Inr (word_of_nat (word_sum payload))"
    using sum_words_eq [of payload _ True 0 0] by simp
  have a: "sum_words xs (if inet then 4 else 16) False 0 acc = Inr (acc + word_of_nat (word_sum xs))"
    if "length xs = (if inet then 4 else 16)" for xs acc
    using sum_words_eq [of xs "if inet then 4 else 16" False 0 acc] that by (auto split: if_splits)
  define w :: u32 where "w = word_of_nat ?n"
  have lw: "ucast (word_of_int (int (length payload)) :: u16) = (word_of_nat (length payload) :: u32)"
    "ucast (word_of_int proto :: u16) = (word_of_nat (nat proto) :: u32)"
    using assms(1,4,5) by (simp_all add: unsigned_of_nat unsigned_of_int take_bit_nat_eq_self take_bit_int_eq_self)
  have run: "ip_checksum inet payload (int (length payload)) src dst proto = Inr (NOT (ucast (fold_carries w)))"
    unfolding ip_checksum_def Let_def s bindE_Inr a [OF assms(2)] a [OF assms(3)] lw w_def by (simp add: add_ac)
  have "word_sum payload \<le> 32768 * 65536" "word_sum src \<le> 32768 * 17" "word_sum dst \<le> 32768 * 17"
    using word_sum_bound [of payload] word_sum_bound [of src] word_sum_bound [of dst] assms(1-3) by (auto split: if_splits)
  then have "?n < 2 ^ 32" using assms(1,5) by simp
  then have uw: "unat w = ?n" unfolding w_def by (rule unat_word_of_nat_u32)
  let ?f = "fold_carries w"
  have f: "unat (ucast ?f :: u16) = unat ?f" using fold_carries_mod(2) [of w] by (simp add: unsigned_ucast_eq take_bit_nat_eq_self)
  have c: "unat (NOT (ucast ?f) :: u16) = 65535 - unat ?f" using f by (simp add: unat_NOT16)
  have "(?n + (65535 - unat ?f)) mod 65535 = 0"
    using fold_carries_mod [of w] unfolding uw by (intro complement_mod) auto
  then show ?thesis using run c by auto
qed

theorem ip_checksum_verifies_witness:
  "\<exists>c. ip_checksum True [1, 2, 3] 3 [10, 0, 0, 1] [10, 0, 0, 2] 17 = Inr c
     \<and> (word_sum [1, 2, 3] + word_sum [10, 0, 0, 1] + word_sum [10, 0, 0, 2] + 3 + 17 + unat c) mod 65535 = 0"
  using ip_checksum_verifies [of "[1, 2, 3]" "[10, 0, 0, 1]" True "[10, 0, 0, 2]" 17] by auto


section \<open>Incremental update of a checksum\<close>

lemma low16_int: "(x :: int) AND 0xffff = x mod 65536"
proof -
  have "x AND mask 16 = take_bit 16 x" by (simp add: take_bit_eq_mask)
  then show ?thesis by (simp add: mask_eq_exp_minus_1 take_bit_eq_mod)
qed

lemma high16_int: "drop_bit 16 (x :: int) = x div 65536"
  by (simp add: drop_bit_eq_div)

lemma fold_int:
  fixes a c d :: int
  assumes "0 \<le> a" "a < 2 ^ 31" "c = a div 65536 + a mod 65536" "d = c + c div 65536"
  shows "d mod 65536 mod 65535 = a mod 65535"
proof -
  have "a = 65536 * (a div 65536) + a mod 65536" by simp
  then have ac: "a = c + 65535 * (a div 65536)" using assms(3) by linarith
  have c: "0 \<le> c" "c \<le> 98303" using assms(1-3) by auto
  have ca: "c mod 65535 = a mod 65535" by (subst ac) simp
  show ?thesis
  proof (cases "c < 65536")
    case True
    then show ?thesis using c assms(4) ca by simp
  next
    case False
    then have "c div 65536 = 1" using c by simp
    then have "d = (c - 65535) + 65536" using assms(4) by simp
    then have "d mod 65536 = (c - 65535) mod 65536" by (metis mod_add_self2)
    also have "\<dots> = c - 65535" using False c by (intro mod_pos_pos_trivial) auto
    finally show ?thesis using ca by simp
  qed
qed

lemma adjust_checksum_mod:
  assumes "\<bar>acc + uint c\<bar> < 2 ^ 31"
  shows "uint (adjust_checksum acc c) mod 65535 = (acc + uint c) mod 65535"
proof -
  let ?a = "acc + uint c"
  show ?thesis
  proof (cases "?a < 0")
    case False
    define e where "e = ?a div 65536 + ?a mod 65536"
    define d where "d = e + e div 65536"
    have "adjust_checksum acc c = word_of_int d"
      using False unfolding adjust_checksum_def Let_def low16_int high16_int d_def e_def by (simp add: add_ac)
    then have "uint (adjust_checksum acc c) = d mod 65536" by (simp add: uint_word_of_int)
    moreover have "d mod 65536 mod 65535 = ?a mod 65535"
      using False assms by (intro fold_int [of _ e]) (auto simp: d_def e_def)
    ultimately show ?thesis by simp
  next
    case True
    define e where "e = - ?a div 65536 + - ?a mod 65536"
    define d where "d = e + e div 65536"
    have f: "d mod 65536 mod 65535 = - ?a mod 65535" using True assms by (intro fold_int [of _ e]) (auto simp: d_def e_def)
    have "adjust_checksum acc c = word_of_int (NOT d)"
      using True unfolding adjust_checksum_def Let_def low16_int high16_int d_def e_def by simp
    then have "uint (adjust_checksum acc c) = NOT d mod 65536" by (simp add: uint_word_of_int)
    also have "\<dots> = 65535 - d mod 65536"
    proof -
      have "NOT d = (65535 - d mod 65536) + 65536 * (- (d div 65536) - 1)"
        unfolding not_int_def using mult_div_mod_eq [of 65536 d] by (simp only: right_diff_distrib)
      then have "NOT d mod 65536 = (65535 - d mod 65536) mod 65536" by (simp only: mod_mult_self2)
      also have "\<dots> = 65535 - d mod 65536"
        using pos_mod_bound [of 65536 d] pos_mod_sign [of 65536 d] by (intro mod_pos_pos_trivial) linarith+
      finally show ?thesis .
    qed
    finally have "uint (adjust_checksum acc c) mod 65535 = (65535 - d mod 65536) mod 65535" by simp
    also have "\<dots> = (0 - - ?a) mod 65535" by (rule mod_diff_cong) (use f in simp_all)
    finally show ?thesis by (simp add: add.commute)
  qed
qed

lemma uint_u8: "0 \<le> uint (x :: u8)" "uint x < 256"
proof -
  have "uint x < 2 ^ LENGTH(8)" by (rule unsigned_less)
  then show "uint x < 256" by simp
qed simp

lemma uint_host16: "uint (host16 le a b) = (if le then uint a + 256 * uint b else 256 * uint a + uint b)"
proof -
  have h: "uint (push_bit 8 (ucast x) OR ucast y :: u16) = 256 * uint x + uint y" for x y :: u8
  proof -
    have "push_bit 8 (ucast x) OR ucast y = (push_bit 8 (ucast x) + ucast y :: u16)"
      by (rule disjunctive_add [symmetric]) (auto simp: bit_simps dest: bit_imp_le_length)
    also have "\<dots> = word_of_int (256 * uint x + uint y)" by (simp add: push_bit_eq_mult mult.commute)
    also have "uint \<dots> = 256 * uint x + uint y"
      using uint_u8 [of x] uint_u8 [of y] unfolding uint_word_of_int by (intro mod_pos_pos_trivial) simp_all
    finally show ?thesis .
  qed
  show ?thesis by (simp add: host16_def h)
qed

text \<open>
  Reading in host byte order multiplies by a fixed factor modulo 65535, which is why the update
  may be done in host byte order.
\<close>

definition swap_factor :: "bool \<Rightarrow> int" where
  "swap_factor le = (if le then 256 else 1)"

lemma net_host: "(256 * uint a + uint b) mod 65535 = swap_factor le * uint (host16 le a b) mod 65535"
proof (cases le)
  case True
  have "256 * (uint a + 256 * uint b) = (256 * uint a + uint b) + uint b * 65535" by simp
  then have "256 * (uint a + 256 * uint b) mod 65535 = (256 * uint a + uint b) mod 65535" by (metis mod_mult_self1)
  then show ?thesis using True by (simp add: swap_factor_def uint_host16)
qed (simp add: swap_factor_def uint_host16)

lemma host16_of_bytes: "host16_bytes le w = [x, y] \<Longrightarrow> host16 le x y = w"
  by (rule bit_word_eqI) (auto simp: host16_bytes_def host16_def bit_simps split: if_splits)

end
