(* ===== verification/Mss.thy ===== *)
theory Mss
  imports Proto
begin

text \<open>
  Lowering the maximum segment size of TCP connections (\<open>mss.c\<close>).  The packet is changed in place.
  The walk over the TCP options is a loop whose step width comes from the packet; it is
  a partial function with value \<open>None\<close> where it does not return.
\<close>

section \<open>Operations\<close>

definition htons16 :: "bool \<Rightarrow> u16 \<Rightarrow> u16" where
  "htons16 le w = host16 le (ucast (drop_bit 8 w)) (ucast w)"

abbreviation (input) OPENVPN_TCPOPT_EOL :: u8 where "OPENVPN_TCPOPT_EOL \<equiv> 0"
abbreviation (input) OPENVPN_TCPOPT_NOP :: u8 where "OPENVPN_TCPOPT_NOP \<equiv> 1"
abbreviation (input) OPENVPN_TCPOPT_MAXSEG :: u8 where "OPENVPN_TCPOPT_MAXSEG \<equiv> 2"
abbreviation (input) OPENVPN_TCPOLEN_MAXSEG :: int where "OPENVPN_TCPOLEN_MAXSEG \<equiv> 4"

text \<open>The body of the loop: \<open>None\<close> for \<open>break\<close>, otherwise the length of the option and the packet.\<close>

definition mss_opt :: "bool \<Rightarrow> u16 \<Rightarrow> buffer \<Rightarrow> int \<Rightarrow> int \<Rightarrow> (int \<times> buffer) option cres" where
  "mss_opt le maxmss buf opt olen =
     bindE (pkt8 buf opt) (\<lambda>kind.
     if kind = OPENVPN_TCPOPT_EOL then Inr None
     else if kind = OPENVPN_TCPOPT_NOP then Inr (Some (1, buf))
     else bindE (pkt8 buf (opt + 1)) (\<lambda>l.
          let optlen = uint l
          in if optlen \<le> 0 \<or> optlen > olen then Inr None
             else if kind = OPENVPN_TCPOPT_MAXSEG \<and> optlen = OPENVPN_TCPOLEN_MAXSEG
             then bindE (pkt8 buf (opt + 2)) (\<lambda>hi.
                  bindE (pkt8 buf (opt + 3)) (\<lambda>lo.
                  let mssval = push_bit 8 (ucast hi) + ucast lo
                  in if mssval > maxmss
                     then bindE (pkt_put buf (opt + 2) [ucast (drop_bit 8 maxmss), ucast maxmss]) (\<lambda>buf1.
                          bindE (pkt8 buf1 16) (\<lambda>c0.
                          bindE (pkt8 buf1 17) (\<lambda>c1.
                          let accumulate = uint (htons16 le mssval) - uint (htons16 le maxmss)
                          in bindE (pkt_put buf1 16 (host16_bytes le (adjust_checksum accumulate (host16 le c0 c1)))) (\<lambda>buf2.
                             Inr (Some (optlen, buf2))))))
                     else Inr (Some (optlen, buf))))
             else Inr (Some (optlen, buf))))"

partial_function (option) mss_opt_loop :: "bool \<Rightarrow> u16 \<Rightarrow> buffer \<Rightarrow> int \<Rightarrow> int \<Rightarrow> buffer cres option" where
  "mss_opt_loop le maxmss buf opt olen =
     (if olen > 1
      then (case mss_opt le maxmss buf opt olen of
              Inl e \<Rightarrow> Some (Inl e)
            | Inr r \<Rightarrow> (case r of
                None \<Rightarrow> Some (Inr buf)
              | Some s \<Rightarrow> mss_opt_loop le maxmss (snd s) (opt + fst s) (olen - fst s)))
      else Some (Inr buf))"

declare mss_opt_loop.simps [code]

definition mss_fixup_dowork :: "bool \<Rightarrow> buffer \<Rightarrow> u16 \<Rightarrow> buffer cres option" where
  "mss_fixup_dowork le buf maxmss =
     (if buf_len buf < 20 then Some (Inr buf)
      else case pkt8 buf 12 of
             Inl e \<Rightarrow> Some (Inl e)
           | Inr doff \<Rightarrow>
               (let hlen = OPENVPN_TCPH_GET_DOFF doff
                in if hlen \<le> 20 \<or> hlen > buf_len buf then Some (Inr buf)
                   else mss_opt_loop le maxmss buf 20 (hlen - 20)))"

text \<open>What both callers do with the TCP part of a packet: they work on a copy of the buffer structure.\<close>

definition mss_fixup_syn :: "bool \<Rightarrow> buffer \<Rightarrow> buffer \<Rightarrow> u16 \<Rightarrow> buffer cres option" where
  "mss_fixup_syn le buf newbuf maxmss =
     (case pkt8 newbuf 13 of
        Inl e \<Rightarrow> Some (Inl e)
      | Inr flags \<Rightarrow>
          if flags AND 2 \<noteq> 0
          then map_option (\<lambda>r. bindE r (\<lambda>b. Inr (buf\<lparr>b_data := b_data b\<rparr>))) (mss_fixup_dowork le newbuf maxmss)
          else Some (Inr buf))"

definition mss_fixup_ipv4 :: "bool \<Rightarrow> buffer \<Rightarrow> u16 \<Rightarrow> buffer cres option" where
  "mss_fixup_ipv4 le buf maxmss =
     (if buf_len buf < 20 then Some (Inr buf)
      else case bindE (pkt8 buf 0) (\<lambda>v.
                bindE (pkt8 buf 9) (\<lambda>protocol.
                bindE (pkt16 buf 2) (\<lambda>tot_len.
                bindE (pkt16 buf 6) (\<lambda>frag_off.
                Inr (OPENVPN_IPH_GET_LEN v,
                     protocol = 6 \<and> uint tot_len = buf_len buf \<and> frag_off AND 0x1fff = 0
                     \<and> OPENVPN_IPH_GET_LEN v \<le> buf_len buf \<and> buf_len buf - OPENVPN_IPH_GET_LEN v \<ge> 20))))) of
             Inl e \<Rightarrow> Some (Inl e)
           | Inr (hlen, go) \<Rightarrow>
               if go
               then (case buf_advance buf hlen of
                       (ok, newbuf) \<Rightarrow> if ok then mss_fixup_syn le buf newbuf maxmss else Some (Inr buf))
               else Some (Inr buf))"

definition mss_fixup_ipv6 :: "bool \<Rightarrow> buffer \<Rightarrow> u16 \<Rightarrow> buffer cres option" where
  "mss_fixup_ipv6 le buf maxmss =
     (if buf_len buf < 40 then Some (Inr buf)
      else case bindE (pkt16 buf 4) (\<lambda>payload_len.
                bindE (pkt8 buf 6) (\<lambda>nexthdr. Inr (buf_len buf = uint payload_len + 40 \<and> nexthdr = 6))) of
             Inl e \<Rightarrow> Some (Inl e)
           | Inr go \<Rightarrow>
               if go
               then (case buf_advance buf 40 of
                       (ok, newbuf) \<Rightarrow>
                         if ok \<and> buf_len newbuf \<ge> 20 then mss_fixup_syn le buf newbuf (maxmss - 20) else Some (Inr buf))
               else Some (Inr buf))"


section \<open>What the walk finds\<close>

definition mss_val :: "u8 list \<Rightarrow> nat \<Rightarrow> u16" where
  "mss_val S i = push_bit 8 (ucast (S ! i)) + ucast (S ! Suc i)"

text \<open>The offsets, in the segment, of the options with a maximum segment size between the offsets \<open>i\<close> and \<open>e\<close>.\<close>

function mss_at :: "u8 list \<Rightarrow> nat \<Rightarrow> nat \<Rightarrow> nat list" where
  "mss_at S i e =
     (if Suc i < e
      then if S ! i = 0 then []
           else if S ! i = 1 then mss_at S (Suc i) e
           else let n = unat (S ! Suc i)
                in if n = 0 \<or> n > e - i then []
                   else if S ! i = 2 \<and> n = 4 then i # mss_at S (i + n) e else mss_at S (i + n) e
      else [])"
  by pat_completeness auto
termination
  by (relation "measure (\<lambda>(S, i, e). e - i)") auto

declare mss_at.simps [simp del]

lemma mss_at_cong:
  assumes "\<And>j. i \<le> j \<Longrightarrow> j < e \<Longrightarrow> S ! j = T ! j"
  shows "mss_at S i e = mss_at T i e"
  using assms
proof (induction S i e rule: mss_at.induct)
  case (1 S i e)
  show ?case
  proof (cases "Suc i < e")
    case True
    then have e: "S ! i = T ! i" "S ! Suc i = T ! Suc i" using "1.prems" by simp_all
    show ?thesis unfolding mss_at.simps [of _ i] e Let_def
      using True "1.IH"(1) "1.IH"(2,3) [OF True _ _ refl] "1.prems" by (auto simp: e)
  qed (simp add: mss_at.simps [of _ i])
qed

lemma mss_at_range: "o' \<in> set (mss_at S i e) \<Longrightarrow> i \<le> o' \<and> o' + 4 \<le> e"
proof (induction S i e rule: mss_at.induct)
  case (1 S i e)
  from "1.prems" have lt: "Suc i < e" by (subst (asm) mss_at.simps) (auto split: if_splits)
  show ?case using "1.prems" lt "1.IH"(1) "1.IH"(2,3) [OF lt _ _ refl]
    by (subst (asm) mss_at.simps) (fastforce simp: Let_def split: if_splits)
qed


section \<open>One option\<close>

lemma word_sum_patch:
  assumes "even p" "Suc p < length S"
  shows "int (word_sum (patch S p [a, b])) =
           int (word_sum S) - (256 * uint (S ! p) + uint (S ! Suc p)) + (256 * uint a + uint b)"
  using assms
proof (induction S arbitrary: p rule: word_sum.induct)
  case (3 x y S)
  show ?case
  proof (cases p)
    case 0
    then show ?thesis by (simp add: patch_def)
  next
    case (Suc q)
    then obtain r where r: "p = Suc (Suc r)" "even r" using "3.prems"(1) by (cases q) auto
    have "patch (x # y # S) p [a, b] = x # y # patch S r [a, b]" by (simp add: r patch_def)
    then show ?thesis using "3.IH" [of r] "3.prems" r by simp
  qed
qed simp_all

lemma htons_factor: "swap_factor le * uint (htons16 le w) mod 65535 = uint w mod 65535"
proof -
  have "uint w = 256 * uint (ucast (drop_bit 8 w) :: u8) + uint (ucast w :: u8)"
  proof -
    have "uint (ucast w :: u8) = uint w mod 256" by (simp add: unsigned_ucast_eq take_bit_eq_mod)
    moreover have "uint (ucast (drop_bit 8 w) :: u8) = uint w div 256"
    proof -
      have "uint w < 2 ^ LENGTH(16)" by (rule unsigned_less)
      then have u: "uint w < 65536" by simp
      then have "uint w div 256 < 256" by simp
      moreover have "take_bit 16 (uint w) = uint w" using u by (intro take_bit_int_eq_self) simp_all
      ultimately show ?thesis
        by (simp add: unsigned_ucast_eq unsigned_drop_bit_eq) (simp add: drop_bit_eq_div [of 8 "uint w"] take_bit_eq_mod [of 8] mod_pos_pos_trivial pos_imp_zdiv_nonneg_iff)
    qed
    ultimately show ?thesis by simp
  qed
  then show ?thesis unfolding htons16_def net_host [symmetric] by simp
qed

text \<open>What the walk from \<open>i\<close> to \<open>e\<close> makes of a segment.\<close>

definition clamped :: "u16 \<Rightarrow> nat \<Rightarrow> nat \<Rightarrow> u8 list \<Rightarrow> u8 list \<Rightarrow> bool" where
  "clamped mx i e S T \<longleftrightarrow>
     length T = length S \<and> mss_at T i e = mss_at S i e
     \<and> (\<forall>p \<in> set (mss_at S i e). mss_val T (p + 2) = min mx (mss_val S (p + 2)))
     \<and> (\<forall>j < length S. j \<notin> {16, 17} \<longrightarrow> (\<forall>p \<in> set (mss_at S i e). j \<notin> {p + 2, p + 3}) \<longrightarrow> T ! j = S ! j)
     \<and> ((\<forall>p \<in> set (mss_at S i e). even p) \<longrightarrow> int (word_sum T) mod 65535 = int (word_sum S) mod 65535)"

lemma clamped_refl: "(\<And>p. p \<in> set (mss_at S i e) \<Longrightarrow> mss_val S (p + 2) \<le> mx) \<Longrightarrow> clamped mx i e S S"
  by (simp add: clamped_def min_absorb2)

definition clamp_bytes :: "bool \<Rightarrow> u16 \<Rightarrow> nat \<Rightarrow> u8 list \<Rightarrow> u8 list" where
  "clamp_bytes le mx p S =
     (let S1 = patch S (p + 2) [ucast (drop_bit 8 mx), ucast mx]
      in patch S1 16 (host16_bytes le (adjust_checksum (uint (htons16 le (mss_val S (p + 2))) - uint (htons16 le mx))
                        (host16 le (S1 ! 16) (S1 ! 17)))))"

lemma length_host16_bytes [simp]: "length (host16_bytes le w) = 2"
  by (simp add: host16_bytes_def)

lemma mss_bytes: "mss_val [ucast (drop_bit 8 w), ucast w] 0 = w"
proof -
  have "push_bit 8 (ucast (ucast (drop_bit 8 w) :: u8)) + ucast (ucast w :: u8) = push_bit 8 (ucast (ucast (drop_bit 8 w) :: u8)) OR (ucast (ucast w :: u8) :: u16)"
    by (rule disjunctive_add) (auto simp: bit_simps)
  also have "\<dots> = w" by (rule bit_word_eqI) (auto simp: bit_simps)
  finally show ?thesis by (simp add: mss_val_def)
qed

lemma uint_mss_val: "uint (mss_val S i) = 256 * uint (S ! i) + uint (S ! Suc i)"
proof -
  have "mss_val S i = word_of_int (256 * uint (S ! i) + uint (S ! Suc i))"
    by (simp add: mss_val_def push_bit_eq_mult mult.commute)
  then show ?thesis using uint_u8 [of "S ! i"] uint_u8 [of "S ! Suc i"]
    by (simp only: uint_word_of_int) (intro mod_pos_pos_trivial, simp_all)
qed

lemma clamp_bytes_facts:
  assumes "20 \<le> p" "p + 4 \<le> length S"
  shows "length (clamp_bytes le mx p S) = length S" "mss_val (clamp_bytes le mx p S) (p + 2) = mx"
    "\<And>j. j < length S \<Longrightarrow> j \<notin> {16, 17, p + 2, p + 3} \<Longrightarrow> clamp_bytes le mx p S ! j = S ! j"
proof -
  let ?h = "ucast (drop_bit 8 mx) :: u8" and ?l = "ucast mx :: u8"
  define S1 where "S1 = patch S (p + 2) [?h, ?l]"
  define c where "c = adjust_checksum (uint (htons16 le (mss_val S (p + 2))) - uint (htons16 le mx)) (host16 le (S1 ! 16) (S1 ! 17))"
  have T: "clamp_bytes le mx p S = patch S1 16 (host16_bytes le c)" by (simp add: clamp_bytes_def S1_def c_def Let_def)
  have l1: "length S1 = length S" using assms by (simp add: S1_def)
  show "length (clamp_bytes le mx p S) = length S" using assms l1 by (simp add: T)
  obtain x y where xy: "host16_bytes le c = [x, y]" by (cases le) (simp_all add: host16_bytes_def)
  have n1: "S1 ! j = (if j = p + 2 then ?h else if j = p + 3 then ?l else S ! j)" if "j < length S" for j
    using that assms nth_patch [of "p + 2" "[?h, ?l]" S j] by (auto simp: S1_def numeral_eq_Suc)
  have nT: "clamp_bytes le mx p S ! j = (if j = 16 then x else if j = 17 then y else S1 ! j)" if "j < length S" for j
    using that assms l1 nth_patch [of 16 "[x, y]" S1 j] by (auto simp: T xy)
  show "clamp_bytes le mx p S ! j = S ! j" if "j < length S" "j \<notin> {16, 17, p + 2, p + 3}" for j
    using that n1 nT by simp
  have "clamp_bytes le mx p S ! (p + 2) = ?h" "clamp_bytes le mx p S ! Suc (p + 2) = ?l"
    using nT [of "p + 2"] nT [of "Suc (p + 2)"] n1 [of "p + 2"] n1 [of "Suc (p + 2)"] assms by simp_all
  then show "mss_val (clamp_bytes le mx p S) (p + 2) = mx" using mss_bytes [of mx] by (simp add: mss_val_def)
qed

lemma uint_u16: "0 \<le> uint (w :: u16)" "uint w < 65536"
proof -
  have "uint w < 2 ^ LENGTH(16)" by (rule unsigned_less)
  then show "uint w < 65536" by simp
qed simp

lemma clamp_bytes_sum:
  assumes "20 \<le> p" "p + 4 \<le> length S" and ev: "even p"
  shows "int (word_sum (clamp_bytes le mx p S)) mod 65535 = int (word_sum S) mod 65535"
proof -
  let ?h = "ucast (drop_bit 8 mx) :: u8" and ?l = "ucast mx :: u8"
  define S1 where "S1 = patch S (p + 2) [?h, ?l]"
  define c where "c = adjust_checksum (uint (htons16 le (mss_val S (p + 2))) - uint (htons16 le mx)) (host16 le (S1 ! 16) (S1 ! 17))"
  have T: "clamp_bytes le mx p S = patch S1 16 (host16_bytes le c)" by (simp add: clamp_bytes_def S1_def c_def Let_def)
  have l1: "length S1 = length S" using assms by (simp add: S1_def)
  obtain x y where xy: "host16_bytes le c = [x, y]" by (cases le) (simp_all add: host16_bytes_def)
  let ?f = "swap_factor le" and ?m = "mss_val S (p + 2)"
  have hm: "256 * uint ?h + uint ?l = uint mx" using uint_mss_val [of "[?h, ?l]" 0] mss_bytes [of mx] by simp
  have w1: "int (word_sum S1) = int (word_sum S) - uint ?m + uint mx"
    unfolding S1_def uint_mss_val hm [symmetric] using ev assms by (subst word_sum_patch) simp_all
  have w2: "int (word_sum (clamp_bytes le mx p S)) =
      int (word_sum S1) - (256 * uint (S1 ! 16) + uint (S1 ! 17)) + (256 * uint x + uint y)"
    unfolding T xy using assms l1 word_sum_patch [of 16 S1 x y] by simp
  have bnd: "\<bar>uint (htons16 le ?m) - uint (htons16 le mx) + uint (host16 le (S1 ! 16) (S1 ! 17))\<bar> < 2 ^ 31"
  proof -
    have "(2 :: int) ^ 31 = 2147483648" by simp
    then show ?thesis
      using uint_u16 [of "htons16 le ?m"] uint_u16 [of "htons16 le mx"] uint_u16 [of "host16 le (S1 ! 16) (S1 ! 17)"] by linarith
  qed
  have "(256 * uint x + uint y) mod 65535 = ?f * uint c mod 65535"
    using net_host [of x y le] host16_of_bytes [OF xy] by simp
  also have "\<dots> = ?f * (uint c mod 65535) mod 65535" by (simp add: mod_mult_right_eq)
  also have "uint c mod 65535 = (uint (htons16 le ?m) - uint (htons16 le mx) + uint (host16 le (S1 ! 16) (S1 ! 17))) mod 65535"
    unfolding c_def by (rule adjust_checksum_mod [OF bnd])
  also have "?f * (\<dots>) mod 65535 = (?f * uint (htons16 le ?m) - ?f * uint (htons16 le mx) + ?f * uint (host16 le (S1 ! 16) (S1 ! 17))) mod 65535"
    by (simp add: mod_mult_right_eq algebra_simps)
  also have "\<dots> = (uint ?m - uint mx + (256 * uint (S1 ! 16) + uint (S1 ! 17))) mod 65535"
    by (intro mod_add_cong mod_diff_cong htons_factor net_host [symmetric])
  finally have x: "(256 * uint x + uint y) mod 65535 = (uint ?m - uint mx + (256 * uint (S1 ! 16) + uint (S1 ! 17))) mod 65535" .
  have "int (word_sum (clamp_bytes le mx p S)) mod 65535 =
      (int (word_sum S) - uint ?m + uint mx - (256 * uint (S1 ! 16) + uint (S1 ! 17)) + (uint ?m - uint mx + (256 * uint (S1 ! 16) + uint (S1 ! 17)))) mod 65535"
    unfolding w2 w1 by (intro mod_add_cong x refl)
  then show "int (word_sum (clamp_bytes le mx p S)) mod 65535 = int (word_sum S) mod 65535" by simp
qed


section \<open>The walk\<close>

text \<open>How far the walk goes at \<open>i\<close>, if it does not stop, and whether it finds a maximum segment size there.\<close>

definition opt_stop :: "u8 list \<Rightarrow> nat \<Rightarrow> nat \<Rightarrow> bool" where
  "opt_stop S i e \<longleftrightarrow> S ! i = 0 \<or> S ! i \<noteq> 1 \<and> (S ! Suc i = 0 \<or> unat (S ! Suc i) > e - i)"

definition opt_next :: "u8 list \<Rightarrow> nat \<Rightarrow> nat" where
  "opt_next S i = (if S ! i = 1 then Suc i else i + unat (S ! Suc i))"

definition opt_hit :: "u8 list \<Rightarrow> nat \<Rightarrow> bool" where
  "opt_hit S i \<longleftrightarrow> S ! i = 2 \<and> unat (S ! Suc i) = 4"

lemma mss_at_step:
  "Suc i < e \<Longrightarrow> mss_at S i e =
     (if opt_stop S i e then [] else (if opt_hit S i then [i] else []) @ mss_at S (opt_next S i) e)"
  unfolding mss_at.simps [of S i] by (auto simp: opt_stop_def opt_next_def opt_hit_def Let_def unat_eq_0)

lemma opt_next_bounds:
  assumes "Suc i < e" "\<not> opt_stop S i e"
  shows "i < opt_next S i" "opt_next S i \<le> e" "opt_hit S i \<Longrightarrow> opt_next S i = i + 4"
proof -
  have "S ! i \<noteq> 1 \<Longrightarrow> unat (S ! Suc i) \<noteq> 0" using assms(2) by (auto simp: opt_stop_def unat_eq_0)
  then show "i < opt_next S i" by (auto simp: opt_next_def)
  show "opt_next S i \<le> e" using assms by (auto simp: opt_stop_def opt_next_def)
  show "opt_hit S i \<Longrightarrow> opt_next S i = i + 4" by (simp add: opt_hit_def opt_next_def)
qed

lemma clamped_step:
  assumes i: "20 \<le> i" "Suc i < e" "e \<le> length S" and go: "\<not> opt_stop S i e"
    and S1: "S1 = (if opt_hit S i \<and> mss_val S (i + 2) > mx then clamp_bytes le mx i S else S)"
    and T: "clamped mx (opt_next S i) e S1 T"
  shows "clamped mx i e S T"
proof -
  let ?k = "opt_next S i"
  note k = opt_next_bounds [OF i(2) go]
  have fits: "opt_hit S i \<Longrightarrow> i + 4 \<le> length S" using k i(3) by simp
  have l1: "length S1 = length S" using S1 clamp_bytes_facts(1) [OF i(1) fits] by auto
  have n1: "S1 ! j = S ! j" if "j < length S" "j \<notin> {16, 17}" "\<not> (opt_hit S i \<and> (j = i + 2 \<or> j = i + 3))" for j
    using that S1 clamp_bytes_facts(3) [OF i(1) fits, of j] by auto
  have at1: "mss_at S1 ?k e = mss_at S ?k e"
    by (intro mss_at_cong n1) (use i k in auto)
  have Tl: "length T = length S" and Tat: "mss_at T ?k e = mss_at S ?k e"
    and Tv: "\<And>p. p \<in> set (mss_at S ?k e) \<Longrightarrow> mss_val T (p + 2) = min mx (mss_val S1 (p + 2))"
    and Tn: "\<And>j. j < length S \<Longrightarrow> j \<notin> {16, 17} \<Longrightarrow> \<forall>p \<in> set (mss_at S ?k e). j \<notin> {p + 2, p + 3} \<Longrightarrow> T ! j = S1 ! j"
    and Ts: "\<forall>p \<in> set (mss_at S ?k e). even p \<Longrightarrow> int (word_sum T) mod 65535 = int (word_sum S1) mod 65535"
    using T l1 at1 by (simp_all add: clamped_def)
  have low: "T ! j = S1 ! j" if "20 \<le> j" "j < ?k + 2" "j < length S" for j
  proof (rule Tn)
    show "\<forall>p \<in> set (mss_at S ?k e). j \<notin> {p + 2, p + 3}" using mss_at_range that(2) by fastforce
  qed (use that in auto)
  have same: "T ! i = S ! i" "T ! Suc i = S ! Suc i"
    using low [of i] low [of "Suc i"] n1 [of i] n1 [of "Suc i"] i k by auto
  then have shape: "opt_stop T i e = opt_stop S i e" "opt_next T i = ?k" "opt_hit T i = opt_hit S i"
    by (simp_all add: opt_stop_def opt_next_def opt_hit_def)
  have at: "mss_at S i e = (if opt_hit S i then [i] else []) @ mss_at S ?k e" "mss_at T i e = mss_at S i e"
    using i(2) go shape Tat by (simp_all add: mss_at_step)
  have v1: "mss_val S1 (p + 2) = mss_val S (p + 2)" if "p \<in> set (mss_at S ?k e)" for p
  proof -
    have "S1 ! (p + 2) = S ! (p + 2)" by (rule n1) (use mss_at_range [OF that] i k in auto)
    moreover have "S1 ! Suc (p + 2) = S ! Suc (p + 2)" by (rule n1) (use mss_at_range [OF that] i k in auto)
    ultimately show ?thesis by (simp add: mss_val_def)
  qed
  have hit: "mss_val T (i + 2) = min mx (mss_val S (i + 2))" if h: "opt_hit S i"
  proof -
    have "mss_val T (i + 2) = mss_val S1 (i + 2)"
      using low [of "i + 2"] low [of "Suc (i + 2)"] fits [OF h] k(3) [OF h] i by (simp add: mss_val_def)
    also have "\<dots> = min mx (mss_val S (i + 2))"
      using S1 h clamp_bytes_facts(2) [OF i(1) fits [OF h]] by (auto simp: min_def)
    finally show ?thesis .
  qed
  have "int (word_sum S1) mod 65535 = int (word_sum S) mod 65535" if "opt_hit S i \<longrightarrow> even i"
    using S1 that clamp_bytes_sum [OF i(1) fits] by auto
  then have sum: "int (word_sum T) mod 65535 = int (word_sum S) mod 65535" if "\<forall>p \<in> set (mss_at S i e). even p"
    using that Ts at(1) by (auto split: if_splits)
  have bytes: "T ! j = S ! j"
    if "j < length S" "j \<notin> {16, 17}" "\<forall>p \<in> set (mss_at S i e). j \<notin> {p + 2, p + 3}" for j
    using that Tn [of j] n1 [of j] at(1) by auto
  show ?thesis unfolding clamped_def
    using Tl at hit v1 Tv sum bytes by (auto split: if_splits)
qed

definition same_frame :: "buffer \<Rightarrow> buffer \<Rightarrow> bool" where
  "same_frame b b' \<longleftrightarrow> b_offset b' = b_offset b \<and> b_len b' = b_len b \<and> b_capacity b' = b_capacity b
     \<and> take (nat (b_offset b)) (the (b_data b')) = take (nat (b_offset b)) (the (b_data b))"

lemma same_frame_refl [simp]: "same_frame b b"
  by (simp add: same_frame_def)

lemma same_frame_trans: "same_frame a b \<Longrightarrow> same_frame b c \<Longrightarrow> same_frame a c"
  by (simp add: same_frame_def)

lemma nat_offset [simp]: "nat (int i + 1) = Suc i" "nat (int i + 2) = i + 2" "nat (int i + 3) = i + 3"
  by (simp_all add: nat_add_distrib)

lemma clamp_in_place:
  assumes b: "buf_wf b" "content b = S" and i: "20 \<le> i" "int i + 4 \<le> b_len b"
  shows "\<exists>b'. bindE (pkt_put b (int i + 2) [ucast (drop_bit 8 mx), ucast mx]) (\<lambda>buf1.
           bindE (pkt8 buf1 16) (\<lambda>c0. bindE (pkt8 buf1 17) (\<lambda>c1.
           bindE (pkt_put buf1 16 (host16_bytes le (adjust_checksum (uint (htons16 le (mss_val S (i + 2))) - uint (htons16 le mx)) (host16 le c0 c1)))) (\<lambda>buf2.
           Inr (Some (n, buf2)))))) = Inr (Some (n, b'))
         \<and> buf_wf b' \<and> content b' = clamp_bytes le mx i S \<and> same_frame b b'"
proof -
  let ?hl = "[ucast (drop_bit 8 mx) :: u8, ucast mx]"
  have "int (i + 2 + length ?hl) \<le> b_len b" using i(2) by simp
  from pkt_put_ok [OF b(1) this] obtain b1 where
    b1: "pkt_put b (int (i + 2)) ?hl = Inr b1" "buf_wf b1" "content b1 = patch S (i + 2) ?hl" "same_frame b b1"
    using b(2) by (auto simp: same_frame_def)
  have l1: "b_len b1 = b_len b" using b1(4) by (simp add: same_frame_def)
  let ?c = "host16_bytes le (adjust_checksum (uint (htons16 le (mss_val S (i + 2))) - uint (htons16 le mx)) (host16 le (content b1 ! 16) (content b1 ! 17)))"
  have "int (16 + length ?c) \<le> b_len b1" using i l1 by simp
  from pkt_put_ok [OF b1(2) this] obtain b2 where
    b2: "pkt_put b1 (int 16) ?c = Inr b2" "buf_wf b2" "content b2 = patch (content b1) 16 ?c" "same_frame b1 b2"
    by (auto simp: same_frame_def)
  have "pkt_put b (int i + 2) ?hl = Inr b1" using b1(1) by (simp add: add.commute)
  moreover have "pkt8 b1 16 = Inr (content b1 ! 16)" "pkt8 b1 17 = Inr (content b1 ! 17)" using b1(2) l1 i by simp_all
  moreover have "content b2 = clamp_bytes le mx i S" using b2(3) b1(3) by (simp add: clamp_bytes_def Let_def)
  ultimately show ?thesis using b2(1,2) same_frame_trans [OF b1(4) b2(4)] by simp
qed

lemma mss_opt_ok:
  assumes b: "buf_wf b" "content b = S" and i: "20 \<le> i" "Suc i < e" "int e \<le> b_len b"
  shows "if opt_stop S i e then mss_opt le mx b (int i) (int e - int i) = Inr None
         else \<exists>b'. mss_opt le mx b (int i) (int e - int i) = Inr (Some (int (opt_next S i) - int i, b')) \<and> buf_wf b'
           \<and> content b' = (if opt_hit S i \<and> mss_val S (i + 2) > mx then clamp_bytes le mx i S else S) \<and> same_frame b b'"
proof -
  have rd: "pkt8 b (int i) = Inr (S ! i)" "pkt8 b (int i + 1) = Inr (S ! Suc i)" using b i by simp_all
  have cmp: "uint (S ! Suc i) \<le> 0 \<or> uint (S ! Suc i) > int e - int i \<longleftrightarrow> S ! Suc i = 0 \<or> unat (S ! Suc i) > e - i"
  proof -
    define n where "n = unat (S ! Suc i)"
    have u: "uint (S ! Suc i) = int n" "S ! Suc i = 0 \<longleftrightarrow> n = 0" by (simp_all add: n_def unat_eq_0)
    show ?thesis using i(2) unfolding u n_def [symmetric] by auto
  qed
  show ?thesis
  proof (cases "opt_stop S i e \<or> S ! i = 1")
    case True
    then show ?thesis using b unfolding mss_opt_def rd bindE_Inr Let_def cmp
      by (auto simp: opt_stop_def opt_next_def opt_hit_def)
  next
    case False
    then have nz: "S ! i \<noteq> 0" "S ! i \<noteq> 1" "\<not> (S ! Suc i = 0 \<or> unat (S ! Suc i) > e - i)" by (auto simp: opt_stop_def)
    have nx: "int (opt_next S i) - int i = uint (S ! Suc i)" using nz(2) by (simp add: opt_next_def)
    have hit: "S ! i = 2 \<and> uint (S ! Suc i) = 4 \<longleftrightarrow> opt_hit S i"
    proof -
      have "uint (S ! Suc i) = int (unat (S ! Suc i))" by simp
      then have "uint (S ! Suc i) = 4 \<longleftrightarrow> unat (S ! Suc i) = 4" by linarith
      then show ?thesis by (simp add: opt_hit_def)
    qed
    show ?thesis
    proof (cases "opt_hit S i")
      case h: True
      then have fit: "int i + 4 \<le> b_len b" using nz(3) i by (auto simp: opt_hit_def)
      have v: "pkt8 b (int i + 2) = Inr (S ! (i + 2))" "pkt8 b (int i + 3) = Inr (S ! Suc (i + 2))"
        using b fit by (simp_all add: numeral_eq_Suc)
      have run: "mss_opt le mx b (int i) (int e - int i) =
          (if mss_val S (i + 2) > mx
           then bindE (pkt_put b (int i + 2) [ucast (drop_bit 8 mx), ucast mx]) (\<lambda>buf1.
                bindE (pkt8 buf1 16) (\<lambda>c0. bindE (pkt8 buf1 17) (\<lambda>c1.
                bindE (pkt_put buf1 16 (host16_bytes le (adjust_checksum (uint (htons16 le (mss_val S (i + 2))) - uint (htons16 le mx)) (host16 le c0 c1)))) (\<lambda>buf2.
                Inr (Some (uint (S ! Suc i), buf2))))))
           else Inr (Some (uint (S ! Suc i), b)))"
        unfolding mss_opt_def rd bindE_Inr Let_def cmp hit v mss_val_def [symmetric] using nz h by simp
      show ?thesis using False h b clamp_in_place [OF b i(1) fit, of mx le "uint (S ! Suc i)"] unfolding run nx by auto
    next
      case False
      then show ?thesis using nz b unfolding mss_opt_def rd bindE_Inr Let_def cmp hit nx
        by (auto simp: opt_stop_def)
    qed
  qed
qed

lemma mss_opt_loop_ok:
  assumes "buf_wf b" "20 \<le> i" "i \<le> e" "int e \<le> b_len b"
  shows "\<exists>b'. mss_opt_loop le mx b (int i) (int e - int i) = Some (Inr b') \<and> buf_wf b' \<and> same_frame b b'
           \<and> clamped mx i e (content b) (content b')"
  using assms
proof (induction "e - i" arbitrary: i b rule: less_induct)
  case less
  have el: "e \<le> length (content b)" using less.prems by simp
  show ?case
  proof (cases "Suc i < e")
    case False
    have "mss_at (content b) i e = []" using False by (simp add: mss_at.simps [of _ i])
    then have "clamped mx i e (content b) (content b)" by (intro clamped_refl) simp
    moreover have "mss_opt_loop le mx b (int i) (int e - int i) = Some (Inr b)"
      using False less.prems(3) by (subst mss_opt_loop.simps) auto
    ultimately show ?thesis using less.prems(1) by auto
  next
    case True
    note o = mss_opt_ok [OF less.prems(1) refl less.prems(2) True less.prems(4), of le mx]
    show ?thesis
    proof (cases "opt_stop (content b) i e")
      case s: True
      then have "mss_at (content b) i e = []" using True by (simp add: mss_at_step)
      then have "clamped mx i e (content b) (content b)" by (intro clamped_refl) simp
      moreover have "mss_opt_loop le mx b (int i) (int e - int i) = Some (Inr b)"
        using s o True by (subst mss_opt_loop.simps) auto
      ultimately show ?thesis using less.prems(1) by auto
    next
      case go: False
      let ?k = "opt_next (content b) i"
      note k = opt_next_bounds [OF True go]
      from o go obtain b1 where b1: "mss_opt le mx b (int i) (int e - int i) = Inr (Some (int ?k - int i, b1))" "buf_wf b1"
        "content b1 = (if opt_hit (content b) i \<and> mss_val (content b) (i + 2) > mx then clamp_bytes le mx i (content b) else content b)"
        "same_frame b b1" by auto
      have l1: "b_len b1 = b_len b" using b1(4) by (simp add: same_frame_def)
      have "e - ?k < e - i" using k by simp
      moreover have "20 \<le> ?k" "int e \<le> b_len b1" using k(1) less.prems(2,4) l1 by simp_all
      ultimately obtain b' where b': "mss_opt_loop le mx b1 (int ?k) (int e - int ?k) = Some (Inr b')" "buf_wf b'" "same_frame b1 b'"
        "clamped mx ?k e (content b1) (content b')" using less.hyps [of ?k b1] b1(2) k(2) by blast
      have "mss_opt_loop le mx b (int i) (int e - int i) = mss_opt_loop le mx b1 (int ?k) (int e - int ?k)"
        using True b1(1) by (subst mss_opt_loop.simps) simp
      moreover have "clamped mx i e (content b) (content b')"
        by (rule clamped_step [OF less.prems(2) True el go b1(3) b'(4)])
      ultimately show ?thesis using b' same_frame_trans [OF b1(4) b'(3)] by simp
    qed
  qed
qed

text \<open>The end of the TCP header, if it has options.\<close>

definition tcp_opt_end :: "u8 list \<Rightarrow> nat" where
  "tcp_opt_end S =
     (if length S < 20 then 20
      else let h = nat (OPENVPN_TCPH_GET_DOFF (S ! 12)) in if h \<le> 20 \<or> h > length S then 20 else h)"

lemma mss_fixup_dowork_ok:
  assumes "buf_wf b"
  shows "\<exists>b'. mss_fixup_dowork le b mx = Some (Inr b') \<and> buf_wf b' \<and> same_frame b b'
           \<and> clamped mx 20 (tcp_opt_end (content b)) (content b) (content b')"
proof -
  let ?S = "content b"
  have none: "clamped mx 20 20 ?S ?S" by (intro clamped_refl) (simp add: mss_at.simps [of _ 20])
  show ?thesis
  proof (cases "b_len b < 20")
    case True
    then show ?thesis using assms none by (auto simp: mss_fixup_dowork_def tcp_opt_end_def intro!: exI [of _ b])
  next
    case False
    let ?h = "OPENVPN_TCPH_GET_DOFF (?S ! 12)"
    have rd: "pkt8 b 12 = Inr (?S ! 12)" using assms False by simp
    have h0: "0 \<le> ?h" by (simp add: OPENVPN_TCPH_GET_DOFF_def)
    show ?thesis
    proof (cases "?h \<le> 20 \<or> ?h > b_len b")
      case True
      then have "tcp_opt_end ?S = 20" using assms h0 by (auto simp: tcp_opt_end_def Let_def)
      then show ?thesis using assms none False rd True by (auto simp: mss_fixup_dowork_def Let_def intro!: exI [of _ b])
    next
      case h: False
      then have e: "tcp_opt_end ?S = nat ?h" "20 \<le> nat ?h" "int (nat ?h) \<le> b_len b" "int (nat ?h) = ?h"
        using assms False by (auto simp: tcp_opt_end_def Let_def)
      from mss_opt_loop_ok [OF assms _ e(2,3), of le mx] e(4) obtain b' where
        "mss_opt_loop le mx b 20 (?h - 20) = Some (Inr b')" "buf_wf b'" "same_frame b b'"
        "clamped mx 20 (nat ?h) ?S (content b')" by auto
      then show ?thesis using assms False h rd e(1) by (auto simp: mss_fixup_dowork_def Let_def)
    qed
  qed
qed


section \<open>Packets\<close>

lemma splice_content:
  assumes buf: "buf_wf buf" and h: "int h \<le> b_len buf"
    and new: "newbuf = buf\<lparr>b_offset := b_offset buf + int h, b_len := b_len buf - int h\<rparr>"
    and b: "buf_wf b" "same_frame newbuf b"
  shows "buf_wf (buf\<lparr>b_data := b_data b\<rparr>)" "content (buf\<lparr>b_data := b_data b\<rparr>) = take h (content buf) @ content b"
proof -
  from buf obtain m where m: "b_data buf = Some m" "int (length m) = b_capacity buf" "b_capacity buf < 1000000" "0 \<le> b_offset buf"
    "0 \<le> b_len buf" "b_offset buf + b_len buf \<le> b_capacity buf" by (rule buf_wfE)
  have f: "b_offset b = b_offset buf + int h" "b_len b = b_len buf - int h" "b_capacity b = b_capacity buf"
    "take (nat (b_offset buf + int h)) (the (b_data b)) = take (nat (b_offset buf + int h)) m"
    using b(2) m(1) by (simp_all add: same_frame_def new)
  from b(1) obtain m' where m': "b_data b = Some m'" "int (length m') = b_capacity b" by (rule buf_wfE)
  have lm: "length m' = length m" using m(2) m'(2) f(3) by simp
  show "buf_wf (buf\<lparr>b_data := b_data b\<rparr>)" using m m' lm by (intro buf_wfI [where m = m']) auto
  have n: "nat (b_offset buf + int h) = h + nat (b_offset buf)" "nat (b_len buf) = h + nat (b_len buf - int h)"
    using m(4) h by linarith+
  have "take h (drop (nat (b_offset buf)) m') = take h (drop (nat (b_offset buf)) m)"
  proof -
    have "drop (nat (b_offset buf)) (take (h + nat (b_offset buf)) m') = drop (nat (b_offset buf)) (take (h + nat (b_offset buf)) m)"
      using f(4) m'(1) n(1) by simp
    then show ?thesis by (simp add: drop_take)
  qed
  moreover have "content (buf\<lparr>b_data := b_data b\<rparr>) = take (h + nat (b_len buf - int h)) (drop (nat (b_offset buf)) m')"
    using m'(1) n(2) by (simp add: content_def)
  moreover have "content b = take (nat (b_len buf - int h)) (drop h (drop (nat (b_offset buf)) m'))"
    using m'(1) f n(1) by (simp add: content_def add.commute)
  moreover have "take h (content buf) = take h (drop (nat (b_offset buf)) m)"
    using m(1) n(2) by (simp add: content_def min_def)
  ultimately show "content (buf\<lparr>b_data := b_data b\<rparr>) = take h (content buf) @ content b"
    by (simp add: take_add)
qed

text \<open>The packet is changed only if it is a TCP packet with the \<open>SYN\<close> flag, \<open>h\<close> the length of its IP header.\<close>

definition clamped_packet :: "u16 \<Rightarrow> nat option \<Rightarrow> u8 list \<Rightarrow> u8 list \<Rightarrow> bool" where
  "clamped_packet mx r P Q \<longleftrightarrow>
     (case r of
        None \<Rightarrow> Q = P
      | Some h \<Rightarrow> take h Q = take h P \<and> clamped mx 20 (tcp_opt_end (drop h P)) (drop h P) (drop h Q))"

lemma mss_fixup_syn_ok:
  assumes buf: "buf_wf buf" and h: "int h + 20 \<le> b_len buf" and adv: "buf_advance buf (int h) = (True, newbuf)"
  shows "\<exists>buf'. mss_fixup_syn le buf newbuf mx = Some (Inr buf') \<and> buf_wf buf'
           \<and> clamped_packet mx (if content buf ! (h + 13) AND 2 \<noteq> 0 then Some h else None) (content buf) (content buf')"
proof -
  have hl: "h \<le> length (content buf)" using buf h by simp
  from buf_advance_ok [OF buf hl] adv have n: "buf_wf newbuf" "content newbuf = drop h (content buf)" by auto
  have new: "newbuf = buf\<lparr>b_offset := b_offset buf + int h, b_len := b_len buf - int h\<rparr>"
    using adv by (auto simp: buf_advance_def split: if_splits)
  have l: "b_len newbuf = b_len buf - int h" by (simp add: new)
  have rd: "pkt8 newbuf 13 = Inr (content buf ! (h + 13))" using n l h hl by simp
  show ?thesis
  proof (cases "content buf ! (h + 13) AND 2 \<noteq> 0")
    case False
    then show ?thesis using rd buf by (simp add: mss_fixup_syn_def clamped_packet_def)
  next
    case True
    from mss_fixup_dowork_ok [OF n(1), of le mx] n(2) obtain b where
      b: "mss_fixup_dowork le newbuf mx = Some (Inr b)" "buf_wf b" "same_frame newbuf b"
      "clamped mx 20 (tcp_opt_end (drop h (content buf))) (drop h (content buf)) (content b)" by auto
    have "int h \<le> b_len buf" using h by simp
    note sp = splice_content [OF buf this new b(2,3)]
    have "clamped_packet mx (Some h) (content buf) (content (buf\<lparr>b_data := b_data b\<rparr>))"
      unfolding sp(2) clamped_packet_def using hl b(4) by simp
    then show ?thesis using True rd b(1) sp(1) by (simp add: mss_fixup_syn_def)
  qed
qed

definition ipv4_syn :: "u8 list \<Rightarrow> nat option" where
  "ipv4_syn P =
     (let h = nat (OPENVPN_IPH_GET_LEN (P ! 0))
      in if 20 \<le> length P \<and> P ! 9 = 6 \<and> unat (un_be16 [P ! 2, P ! 3]) = length P
            \<and> un_be16 [P ! 6, P ! 7] AND 0x1fff = 0 \<and> h + 20 \<le> length P \<and> P ! (h + 13) AND 2 \<noteq> 0
         then Some h else None)"

definition ipv6_syn :: "u8 list \<Rightarrow> nat option" where
  "ipv6_syn P =
     (if 60 \<le> length P \<and> unat (un_be16 [P ! 4, P ! 5]) + 40 = length P \<and> P ! 6 = 6 \<and> P ! 53 AND 2 \<noteq> 0
      then Some 40 else None)"

lemma uint_eq_len: "buf_wf b \<Longrightarrow> uint (w :: u16) = b_len b \<longleftrightarrow> unat w = length (content b)"
proof -
  assume "buf_wf b"
  then have "b_len b = int (length (content b))" by (rule buf_wf_lenI)
  moreover have "uint w = int (unat w)" by simp
  ultimately show ?thesis by linarith
qed

lemma clamped_packet_None [simp]: "clamped_packet mx None P P"
  by (simp add: clamped_packet_def)

lemma mss_fixup_ipv4_ok:
  assumes buf: "buf_wf buf"
  shows "\<exists>buf'. mss_fixup_ipv4 le buf mx = Some (Inr buf') \<and> buf_wf buf'
           \<and> clamped_packet mx (ipv4_syn (content buf)) (content buf) (content buf')"
proof (cases "b_len buf < 20")
  case True
  then have "ipv4_syn (content buf) = None" using buf by (auto simp: ipv4_syn_def Let_def)
  then show ?thesis using True buf by (simp add: mss_fixup_ipv4_def)
next
  case False
  let ?P = "content buf"
  define h where "h = nat (OPENVPN_IPH_GET_LEN (?P ! 0))"
  have hh: "OPENVPN_IPH_GET_LEN (?P ! 0) = int h" by (simp add: h_def OPENVPN_IPH_GET_LEN_def)
  have len: "b_len buf = int (length ?P)" by (rule buf_wf_lenI [OF buf])
  have rd: "pkt8 buf 0 = Inr (?P ! 0)" "pkt8 buf 9 = Inr (?P ! 9)" "pkt16 buf 2 = Inr (un_be16 [?P ! 2, ?P ! 3])"
    "pkt16 buf 6 = Inr (un_be16 [?P ! 6, ?P ! 7])" using buf False by (simp_all add: numeral_eq_Suc)
  define go where "go \<longleftrightarrow> ?P ! 9 = 6 \<and> unat (un_be16 [?P ! 2, ?P ! 3]) = length ?P
      \<and> un_be16 [?P ! 6, ?P ! 7] AND 0x1fff = 0 \<and> int h \<le> b_len buf \<and> b_len buf - int h \<ge> 20"
  have run: "mss_fixup_ipv4 le buf mx =
      (if go then (case buf_advance buf (int h) of (ok, newbuf) \<Rightarrow> if ok then mss_fixup_syn le buf newbuf mx else Some (Inr buf))
       else Some (Inr buf))"
    unfolding mss_fixup_ipv4_def rd bindE_Inr hh buf_wf_len [OF buf] uint_eq_len [OF buf] go_def using False by simp
  have syn: "ipv4_syn ?P = (if go \<and> ?P ! (h + 13) AND 2 \<noteq> 0 then Some h else None)"
    using False unfolding ipv4_syn_def Let_def h_def [symmetric] go_def len by auto
  show ?thesis
  proof (cases go)
    case True
    then have h20: "int h + 20 \<le> b_len buf" by (simp add: go_def)
    then have "h \<le> length ?P" using len by linarith
    from buf_advance_ok [OF buf this] obtain newbuf where adv: "buf_advance buf (int h) = (True, newbuf)" by blast
    show ?thesis using mss_fixup_syn_ok [OF buf h20 adv, of le mx] run True adv syn by simp
  qed (use run syn buf in simp)
qed

lemma mss_fixup_ipv6_ok:
  assumes buf: "buf_wf buf"
  shows "\<exists>buf'. mss_fixup_ipv6 le buf mx = Some (Inr buf') \<and> buf_wf buf'
           \<and> clamped_packet (mx - 20) (ipv6_syn (content buf)) (content buf) (content buf')"
proof (cases "b_len buf < 40")
  case True
  then have "ipv6_syn (content buf) = None" using buf by (auto simp: ipv6_syn_def)
  then show ?thesis using True buf by (simp add: mss_fixup_ipv6_def)
next
  case False
  let ?P = "content buf"
  have len: "b_len buf = int (length ?P)" by (rule buf_wf_lenI [OF buf])
  have rd: "pkt16 buf 4 = Inr (un_be16 [?P ! 4, ?P ! 5])" "pkt8 buf 6 = Inr (?P ! 6)"
    using buf False by (simp_all add: numeral_eq_Suc)
  define go where "go \<longleftrightarrow> unat (un_be16 [?P ! 4, ?P ! 5]) + 40 = length ?P \<and> ?P ! 6 = 6"
  have c: "b_len buf = uint (un_be16 [?P ! 4, ?P ! 5]) + 40 \<longleftrightarrow> unat (un_be16 [?P ! 4, ?P ! 5]) + 40 = length ?P"
  proof -
    have "uint (un_be16 [?P ! 4, ?P ! 5]) = int (unat (un_be16 [?P ! 4, ?P ! 5]))" by simp
    then show ?thesis using len by linarith
  qed
  have "40 \<le> length ?P" using False len by simp
  from buf_advance_ok [OF buf this] obtain newbuf where adv: "buf_advance buf (int 40) = (True, newbuf)" "buf_wf newbuf"
    "content newbuf = drop 40 ?P" by blast
  have nl: "b_len newbuf = b_len buf - 40" using buf_wf_lenI [OF adv(2)] adv(3) len False by simp
  have run: "mss_fixup_ipv6 le buf mx =
      (if go \<and> b_len buf \<ge> 60 then mss_fixup_syn le buf newbuf (mx - 20) else Some (Inr buf))"
    unfolding mss_fixup_ipv6_def rd bindE_Inr buf_wf_len [OF buf] c go_def using False adv(1) buf_wf_len [OF adv(2)] nl by simp
  have syn: "ipv6_syn ?P = (if go \<and> b_len buf \<ge> 60 \<and> ?P ! (40 + 13) AND 2 \<noteq> 0 then Some 40 else None)"
    unfolding ipv6_syn_def go_def len by auto
  show ?thesis
  proof (cases "go \<and> b_len buf \<ge> 60")
    case True
    then have "int 40 + 20 \<le> b_len buf" by simp
    from mss_fixup_syn_ok [OF buf this adv(1), of le "mx - 20"] show ?thesis using run True syn by simp
  qed (use run syn buf in auto)
qed

definition pkt_of :: "u8 list \<Rightarrow> buffer" where
  "pkt_of bs = \<lparr>b_capacity = int (length bs), b_offset = 0, b_len = int (length bs), b_data = Some bs\<rparr>"

text \<open>A packet with \<open>SYN\<close> and a maximum segment size of 1460; in the second one the option follows a padding byte.\<close>

definition ex_syn :: buffer where
  "ex_syn = pkt_of [0x45, 0, 0, 44, 0, 1, 0, 0, 64, 6, 0, 0, 10, 0, 0, 1, 10, 0, 0, 2,
     0x30, 0x39, 0, 80, 0, 0, 0, 1, 0, 0, 0, 0, 0x60, 2, 0x20, 0, 0x12, 0x34, 0, 0, 2, 4, 5, 0xb4]"


text \<open>
  C27: Lowering the maximum segment size is safe on every packet, however its headers lie: it returns, without
  an access outside of the packet.  Packets other than TCP packets with the \<open>SYN\<close> flag stay as they are.  In
  those, every option with a maximum segment size afterwards holds the smaller of its value and the limit,
  nothing else changes but the checksum, and if the options start at even offsets the checksum
  covers the segment as well as it did before.
\<close>

theorem mss_fixup_correct:
  assumes "buf_wf buf"
  shows "(\<exists>buf'. mss_fixup_ipv4 le buf mx = Some (Inr buf') \<and> buf_wf buf'
            \<and> clamped_packet mx (ipv4_syn (content buf)) (content buf) (content buf'))
       \<and> (\<exists>buf'. mss_fixup_ipv6 le buf mx = Some (Inr buf') \<and> buf_wf buf'
            \<and> clamped_packet (mx - 20) (ipv6_syn (content buf)) (content buf) (content buf'))"
  using mss_fixup_ipv4_ok [OF assms] mss_fixup_ipv6_ok [OF assms] by blast

theorem mss_fixup_correct_witness:
  "\<exists>buf'. mss_fixup_ipv4 True ex_syn 1300 = Some (Inr buf') \<and> clamped_packet 1300 (Some 20) (content ex_syn) (content buf')"
proof -
  have "buf_wf ex_syn" by (simp add: ex_syn_def pkt_of_def buf_wf_def BUF_SIZE_MAX_def)
  moreover have "ipv4_syn (content ex_syn) = Some 20" by code_simp
  ultimately show ?thesis using mss_fixup_correct [of ex_syn True 1300] by auto
qed

text \<open>
  C28: The walk over the options of a TCP header ends, whatever the header and wherever it lies, since no round goes on with
  an option of length zero.
\<close>

theorem mss_walk_terminates: "\<exists>r. mss_opt_loop le mx buf opt olen = Some r"
proof (induction "nat olen" arbitrary: buf opt olen rule: less_induct)
  case less
  show ?case
  proof (cases "olen > 1")
    case False
    then show ?thesis by (subst mss_opt_loop.simps) simp
  next
    case True
    show ?thesis
    proof (cases "mss_opt le mx buf opt olen")
      case (Inl e)
      then show ?thesis using True by (subst mss_opt_loop.simps) simp
    next
      case (Inr r)
      show ?thesis
      proof (cases r)
        case None
        then show ?thesis using True Inr by (subst mss_opt_loop.simps) simp
      next
        case (Some s)
        have "0 < fst s"
          using Inr unfolding Some mss_opt_def by (auto simp: Let_def less_le elim!: bindE_InrE split: if_splits)
        then have "nat (olen - fst s) < nat olen" using True by simp
        then have "\<exists>r. mss_opt_loop le mx (snd s) (opt + fst s) (olen - fst s) = Some r" by (rule less)
        then show ?thesis using True Inr Some by (subst mss_opt_loop.simps) simp
      qed
    qed
  qed
qed


end
