(* ===== verification/Spec2Isabelle.thy ===== *)
theory Spec2Isabelle
  imports ReplayWindow ControlSend FragmentThm FrameThm Base64 Mss
begin

text \<open>Verification of OpenVPN: the parts that decide what is accepted and what is sent.\<close>

end
